(* ===== verification/Prelude.thy ===== *)
theory Prelude
  imports Main "HOL-Library.Word" "HOL-Library.Multiset"
begin

text \<open>
  Shared vocabulary of the development: the types every component uses, faults as
  values, deterministic labelled transition systems with their runs and invariants,
  and the compare-and-swap retry loop that \<open>sync.hpp\<close> and \<open>container/queue.hpp\<close>
  are built on.
\<close>

section \<open>Types and faults\<close>

type_synonym addr = nat
type_synonym handle = nat
type_synonym u32 = "32 word"
type_synonym u64 = "64 word"

text \<open>
  What the C++ standard leaves undefined, and what ends the process, is a value: every
  model that can reach such a point returns it as \<open>Inl\<close>.
\<close>

datatype fault =
    UseAfterFree
  | NullDeref
  | SignedOverflow
  | Terminate
  | Unreachable

definition int32_ok :: "int \<Rightarrow> bool" where
  "int32_ok n \<longleftrightarrow> - (2 ^ 31) \<le> n \<and> n < 2 ^ 31"

text \<open>Sequencing of computations that may fault.\<close>

fun bindE :: "fault + 'a \<Rightarrow> ('a \<Rightarrow> fault + 'b) \<Rightarrow> fault + 'b" where
  "bindE (Inl e) k = Inl e"
| "bindE (Inr x) k = k x"

lemma bindE_Inr [simp]: "bindE m k = Inr y \<longleftrightarrow> (\<exists>x. m = Inr x \<and> k x = Inr y)"
  by (cases m) auto

named_theorems step_simps \<open>equations of the step functions, for case analysis on an action\<close>
named_theorems inv_defs \<open>definitions of the invariants\<close>

section \<open>Labelled transition systems\<close>

text \<open>
  A component with several threads is a function that performs one atomic action of one
  thread: \<open>None\<close> where the action is not enabled. A run performs a list of actions.
\<close>

fun run :: "('a \<Rightarrow> 's \<Rightarrow> 's option) \<Rightarrow> 'a list \<Rightarrow> 's \<Rightarrow> 's option" where
  "run step [] s = Some s"
| "run step (a # as) s = (case step a s of None \<Rightarrow> None | Some s' \<Rightarrow> run step as s')"

definition reachable :: "('a \<Rightarrow> 's \<Rightarrow> 's option) \<Rightarrow> 's \<Rightarrow> 's \<Rightarrow> bool" where
  "reachable step s0 s \<longleftrightarrow> (\<exists>as. run step as s0 = Some s)"

definition stuck :: "('a \<Rightarrow> 's \<Rightarrow> 's option) \<Rightarrow> 's \<Rightarrow> bool" where
  "stuck step s \<longleftrightarrow> (\<forall>a. step a s = None)"

lemma run_append:
  "run step (as @ bs) s = (case run step as s of None \<Rightarrow> None | Some s' \<Rightarrow> run step bs s')"
  by (induction as arbitrary: s) (auto split: option.splits)

lemma reachable_refl [intro, simp]: "reachable step s s"
  unfolding reachable_def by (rule exI [of _ "[]"]) simp

lemma reachable_run [intro]: "run step as s = Some s' \<Longrightarrow> reachable step s s'"
  by (auto simp: reachable_def)

lemma reachable_extend: "reachable step init s \<Longrightarrow> run step as s = Some s' \<Longrightarrow> reachable step init s'"
proof -
  assume "reachable step init s" and as: "run step as s = Some s'"
  then obtain bs where "run step bs init = Some s" by (auto simp: reachable_def)
  with as have "run step (bs @ as) init = Some s'" by (simp add: run_append)
  then show ?thesis by (rule reachable_run)
qed

lemma reachable_step: "reachable step s0 s \<Longrightarrow> step a s = Some s' \<Longrightarrow> reachable step s0 s'"
proof -
  assume "reachable step s0 s" and st: "step a s = Some s'"
  then obtain as where "run step as s0 = Some s" by (auto simp: reachable_def)
  with st have "run step (as @ [a]) s0 = Some s'" by (simp add: run_append)
  then show ?thesis by (rule reachable_run)
qed

text \<open>
  The interface between a machine and its safety properties: an invariant that the
  start has and every enabled action keeps. \<open>ok\<close> restricts the actions, for
  properties that need a discipline of the clients.
\<close>

locale machine_inv_on =
  fixes step :: "'a \<Rightarrow> 's \<Rightarrow> 's option"
    and ok :: "'a \<Rightarrow> bool"
    and init :: 's
    and inv :: "'s \<Rightarrow> bool"
  assumes inv_init: "inv init"
    and inv_step_on: "inv s \<Longrightarrow> ok a \<Longrightarrow> step a s = Some s' \<Longrightarrow> inv s'"
begin

lemma run_inv_on: "inv s \<Longrightarrow> \<forall>a \<in> set as. ok a \<Longrightarrow> run step as s = Some s' \<Longrightarrow> inv s'"
  by (induction as arbitrary: s) (auto split: option.splits dest: inv_step_on)

lemma init_run_inv_on: "run step as init = Some s \<Longrightarrow> \<forall>a \<in> set as. ok a \<Longrightarrow> inv s"
  by (rule run_inv_on [OF inv_init])

end

locale machine_inv =
  fixes step :: "'a \<Rightarrow> 's \<Rightarrow> 's option"
    and init :: 's
    and inv :: "'s \<Rightarrow> bool"
  assumes inv_init: "inv init"
    and inv_step: "inv s \<Longrightarrow> step a s = Some s' \<Longrightarrow> inv s'"

sublocale machine_inv \<subseteq> on: machine_inv_on step "\<lambda>_. True" init inv
  by unfold_locales (auto intro: inv_init inv_step)

context machine_inv
begin

lemma run_inv: "inv s \<Longrightarrow> run step as s = Some s' \<Longrightarrow> inv s'"
  by (erule on.run_inv_on) simp_all

lemma reachable_inv: "reachable step init s \<Longrightarrow> inv s"
  by (auto simp: reachable_def intro: run_inv [OF inv_init])

end

section \<open>The compare-and-swap retry loop\<close>

text \<open>
  \<open>do { desired = f(expected); } while (!m.compare_exchange_weak(expected, desired))\<close>.
  The script says, for each attempt, what the other threads do to the cell before it and
  whether the weak exchange fails spuriously. A failed attempt reloads \<open>expected\<close>. The
  computation \<open>f\<close> may fault, and it is run before the exchange. \<open>None\<close> is a loop
  that has not ended within the script.
\<close>

fun cas_loop :: "('v \<Rightarrow> fault + 'v) \<Rightarrow> 'v \<Rightarrow> 'v \<Rightarrow> (('v \<Rightarrow> 'v) \<times> bool) list
    \<Rightarrow> (fault + 'v \<times> 'v) option" where
  "cas_loop f expected m [] = None"
| "cas_loop f expected m ((env, spurious) # script) =
     (case f expected of
        Inl e \<Rightarrow> Some (Inl e)
      | Inr desired \<Rightarrow>
          (let m' = env m
           in if m' = expected \<and> \<not> spurious then Some (Inr (m', desired))
              else cas_loop f m' m' script))"

text \<open>The loop linearises: it writes \<open>f\<close> of the value it replaces.\<close>

lemma cas_loop_atomic: "cas_loop f e m script = Some (Inr (old, new)) \<Longrightarrow> f old = Inr new"
  by (induction f e m script rule: cas_loop.induct)
     (auto simp: Let_def split: sum.splits if_splits)

text \<open>
  The value replaced is the content of the cell at that moment: what the other threads
  had made of it, with no write of this loop in between and none of theirs undone.
\<close>

lemma cas_loop_current:
  "cas_loop f e m script = Some (Inr (old, new)) \<Longrightarrow>
   \<exists>k < length script. old = fold fst (take (Suc k) script) m"
proof (induction f e m script rule: cas_loop.induct)
  case (2 f e m env spurious script)
  show ?case
  proof (cases "env m = e \<and> \<not> spurious")
    case True
    with 2(2) show ?thesis by (intro exI [of _ 0]) (auto split: sum.splits)
  next
    case False
    with 2(2) obtain d where "f e = Inr d" "cas_loop f (env m) (env m) script = Some (Inr (old, new))"
      by (auto simp: Let_def split: sum.splits if_splits)
    with 2(1) [of d "env m"] False obtain k where "k < length script"
      "old = fold fst (take (Suc k) script) (env m)" by auto
    then show ?thesis by (intro exI [of _ "Suc k"]) simp
  qed
qed simp

text \<open>
  The loop is lock-free: two attempts in a row without interference are enough, whatever
  came before them.
\<close>

lemma cas_loop_returns:
  "\<exists>r. cas_loop f e m (script @ [(id, False), (id, False)]) = Some r"
proof (induction script arbitrary: e m)
  case Nil
  then show ?case by (auto split: sum.splits simp: Let_def)
next
  case (Cons x script)
  then show ?case by (cases x) (auto split: sum.splits simp: Let_def)
qed

section \<open>Sums over a list of threads\<close>

lemma sum_map_update:
  "i < length xs \<Longrightarrow>
   sum_list (map f (xs[i := x])) + (f (xs ! i) :: nat) = sum_list (map f xs) + f x"
proof (induction xs arbitrary: i)
  case (Cons y ys)
  then show ?case by (cases i) (auto simp: algebra_simps)
qed simp

lemma sum_map_pos:
  assumes "0 < sum_list (map f xs)"
  shows "\<exists>i < length xs. 0 < (f (xs ! i) :: nat)"
proof (rule ccontr)
  assume "\<not> ?thesis"
  then have "\<forall>x \<in> set xs. f x = 0" by (auto simp: in_set_conv_nth)
  then have "sum_list (map f xs) = 0" by simp
  with assms show False by simp
qed

lemma sum_map_zero: "(\<forall>x \<in> set xs. f x = 0) \<Longrightarrow> sum_list (map f xs) = (0 :: nat)"
  by simp

lemma nth_le_sum_map: "i < length xs \<Longrightarrow> (f (xs ! i) :: nat) \<le> sum_list (map f xs)"
  by (simp add: elem_le_sum_list [of i "map f xs", simplified])

lemma bex_set_update:
  assumes "\<exists>x \<in> set xs. P x" and "i < length xs" and "P (xs ! i) \<Longrightarrow> P y"
  shows "\<exists>x \<in> set (xs[i := y]). P x"
proof -
  from assms(1) obtain j where j: "j < length xs" "P (xs ! j)" by (auto simp: in_set_conv_nth)
  have "P (xs[i := y] ! j)" using j assms(2,3) by (cases "j = i") auto
  with j(1) show ?thesis by (metis length_list_update nth_mem)
qed

lemma bex_set_updateI: "i < length xs \<Longrightarrow> P y \<Longrightarrow> \<exists>x \<in> set (xs[i := y]). P x"
  by (metis set_update_memI)

end
