(* ===== verification/Atomic_Queue.thy ===== *)
theory Atomic_Queue
  imports Prelude
begin

text \<open>
  \<open>include/container/queue.hpp\<close>: the linked queue \<open>nct::AtomicQueue\<close>, its nodes in an
  explicit memory, and each operation as one thread alone performs it. Accesses to a
  node that is not allocated, and reads of a value that is not alive, are faults. The
  interleavings of several threads are in \<open>Queue_Concurrent\<close>, over the same accesses.
\<close>

section \<open>Nodes and the queue\<close>

text \<open>
  A node has a link and a union member \<open>value\<close>, which holds a live object or none (the
  stub, or a value already moved out and destroyed). \<open>m_tail\<close> is null once the queue
  is stopped.
\<close>

record 'a node =
  node_next :: "addr option"
  node_value :: "'a option"

record 'a queue =
  mem :: "addr \<rightharpoonup> 'a node"
  m_tail :: "addr option"
  m_head :: "addr option"

definition stub_node :: "'a node" where
  "stub_node = \<lparr>node_next = None, node_value = None\<rparr>"

definition value_node :: "'a \<Rightarrow> 'a node" where
  "value_node v = \<lparr>node_next = None, node_value = Some v\<rparr>"

definition new_queue :: "addr \<Rightarrow> 'a queue" where
  "new_queue stub = \<lparr>mem = [stub \<mapsto> stub_node], m_tail = Some stub, m_head = Some stub\<rparr>"

section \<open>Accesses to a node\<close>

definition load_next :: "'a queue \<Rightarrow> addr \<Rightarrow> fault + addr option" where
  "load_next q a = (case mem q a of None \<Rightarrow> Inl UseAfterFree | Some nd \<Rightarrow> Inr (node_next nd))"

definition store_next :: "'a queue \<Rightarrow> addr \<Rightarrow> addr \<Rightarrow> fault + 'a queue" where
  "store_next q a n = (case mem q a of
     None \<Rightarrow> Inl UseAfterFree
   | Some nd \<Rightarrow> Inr (q\<lparr>mem := (mem q)(a \<mapsto> nd\<lparr>node_next := Some n\<rparr>)\<rparr>))"

definition delete_node :: "'a queue \<Rightarrow> addr \<Rightarrow> fault + 'a queue" where
  "delete_node q a = (case mem q a of
     None \<Rightarrow> Inl UseAfterFree
   | Some nd \<Rightarrow> Inr (q\<lparr>mem := (mem q)(a := None)\<rparr>))"

text \<open>\<open>std::move(n->value)\<close> followed by \<open>n->value.~T()\<close>.\<close>

definition take_value :: "'a queue \<Rightarrow> addr \<Rightarrow> fault + 'a \<times> 'a queue" where
  "take_value q a = (case mem q a of
     None \<Rightarrow> Inl UseAfterFree
   | Some nd \<Rightarrow> (case node_value nd of
       None \<Rightarrow> Inl UseAfterFree
     | Some v \<Rightarrow> Inr (v, q\<lparr>mem := (mem q)(a \<mapsto> nd\<lparr>node_value := None\<rparr>)\<rparr>)))"

definition alloc_node :: "addr \<Rightarrow> 'a \<Rightarrow> 'a queue \<Rightarrow> 'a queue" where
  "alloc_node n v q = q\<lparr>mem := (mem q)(n \<mapsto> value_node v)\<rparr>"

section \<open>The operations\<close>

text \<open>
  The allocator's answer is an argument: \<open>None\<close> when \<open>new(std::nothrow)\<close> fails. With
  no other thread the first exchange of the retry loop succeeds.
\<close>

definition enqueue :: "addr option \<Rightarrow> 'a \<Rightarrow> 'a queue \<Rightarrow> fault + bool \<times> 'a queue" where
  "enqueue alloc v q = (case alloc of
     None \<Rightarrow> Inr (False, q)
   | Some n \<Rightarrow>
       (let q1 = alloc_node n v q
        in case m_tail q1 of
             None \<Rightarrow> bindE (take_value q1 n) (\<lambda>(_, q2). bindE (delete_node q2 n) (\<lambda>q3. Inr (False, q3)))
           | Some tail \<Rightarrow> bindE (store_next (q1\<lparr>m_tail := Some n\<rparr>) tail n) (\<lambda>q2. Inr (True, q2))))"

definition pop_front :: "addr \<Rightarrow> addr \<Rightarrow> 'a queue \<Rightarrow> fault + 'a option \<times> 'a queue" where
  "pop_front head next q =
     bindE (delete_node (q\<lparr>m_head := Some next\<rparr>) head) (\<lambda>q1.
     bindE (take_value q1 next) (\<lambda>(v, q2). Inr (Some v, q2)))"

definition try_dequeue :: "'a queue \<Rightarrow> fault + 'a option \<times> 'a queue" where
  "try_dequeue q = (case m_head q of
     None \<Rightarrow> Inl NullDeref
   | Some head \<Rightarrow> bindE (load_next q head) (\<lambda>next. case next of
       None \<Rightarrow> Inr (None, q)
     | Some n \<Rightarrow> pop_front head n q))"

text \<open>
  \<open>wait_dequeue_helper\<close> while no other thread moves: it returns, it blocks on the tail,
  or it goes round its loop, which reloads the tail and nothing else.
\<close>

datatype ('a, 'q) wait_result = Returns "'a option" 'q | Blocks | Spins

definition wait_dequeue :: "'a queue \<Rightarrow> fault + ('a, 'a queue) wait_result" where
  "wait_dequeue q = (case m_head q of
     None \<Rightarrow> Inl NullDeref
   | Some head \<Rightarrow> bindE (load_next q head) (\<lambda>next. case next of
       Some n \<Rightarrow> bindE (pop_front head n q) (\<lambda>(r, q'). Inr (Returns r q'))
     | None \<Rightarrow>
         (if m_tail q = None then Inr (Returns None q)
          else if m_tail q = Some head then Inr Blocks
          else Inr Spins)))"

definition maybe_empty :: "'a queue \<Rightarrow> fault + bool" where
  "maybe_empty q = (case m_head q of
     None \<Rightarrow> Inl NullDeref
   | Some head \<Rightarrow> bindE (load_next q head) (\<lambda>next. Inr (next = None)))"

definition stop :: "'a queue \<Rightarrow> 'a queue" where
  "stop q = q\<lparr>m_tail := None\<rparr>"

text \<open>The destructor: stop, drain, delete the stub. The fuel bounds the drain loop.\<close>

fun drain :: "nat \<Rightarrow> 'a queue \<Rightarrow> (fault + 'a queue) option" where
  "drain 0 q = None"
| "drain (Suc fuel) q = (case try_dequeue q of
     Inl e \<Rightarrow> Some (Inl e)
   | Inr (None, q') \<Rightarrow> Some (Inr q')
   | Inr (Some v, q') \<Rightarrow> drain fuel q')"

definition destroy :: "nat \<Rightarrow> 'a queue \<Rightarrow> (fault + 'a queue) option" where
  "destroy fuel q = (case drain fuel (stop q) of
     None \<Rightarrow> None
   | Some (Inl e) \<Rightarrow> Some (Inl e)
   | Some (Inr q1) \<Rightarrow> Some (case m_head q1 of
       None \<Rightarrow> Inl NullDeref
     | Some stub \<Rightarrow> delete_node (q1\<lparr>m_head := None\<rparr>) stub))"

section \<open>Representation\<close>

text \<open>
  \<open>linked m ns vs\<close>: the nodes \<open>ns\<close> are allocated, each links to the one after it, the
  last one to none, and they hold the values \<open>vs\<close>.
\<close>

fun linked :: "(addr \<rightharpoonup> 'a node) \<Rightarrow> addr list \<Rightarrow> 'a option list \<Rightarrow> bool" where
  "linked m [] vs = False"
| "linked m [a] vs = (\<exists>v. vs = [v] \<and> m a = Some \<lparr>node_next = None, node_value = v\<rparr>)"
| "linked m (a # b # ns) vs =
     (\<exists>v ws. vs = v # ws \<and> m a = Some \<lparr>node_next = Some b, node_value = v\<rparr> \<and> linked m (b # ns) ws)"

definition rep_at :: "'a queue \<Rightarrow> addr list \<Rightarrow> 'a list \<Rightarrow> bool" where
  "rep_at q ns xs \<longleftrightarrow> ns \<noteq> [] \<and> distinct ns \<and> dom (mem q) = set ns \<and>
     m_head q = Some (hd ns) \<and> (m_tail q = None \<or> m_tail q = Some (last ns)) \<and>
     linked (mem q) ns (None # map Some xs)"

definition holds :: "'a queue \<Rightarrow> 'a list \<Rightarrow> bool" where
  "holds q xs \<longleftrightarrow> (\<exists>ns. rep_at q ns xs)"

lemma linked_length: "linked m ns vs \<Longrightarrow> length vs = length ns"
  by (induction m ns vs rule: linked.induct) auto

lemma linked_frame: "linked m ns vs \<Longrightarrow> a \<notin> set ns \<Longrightarrow> linked (m(a := x)) ns vs"
  by (induction m ns vs rule: linked.induct) auto

lemma linked_snoc:
  "linked m ns vs \<Longrightarrow> distinct ns \<Longrightarrow> n \<notin> set ns \<Longrightarrow>
   m (last ns) = Some nd \<Longrightarrow>
   linked (m(n \<mapsto> value_node v, last ns \<mapsto> nd\<lparr>node_next := Some n\<rparr>)) (ns @ [n]) (vs @ [Some v])"
proof (induction m ns vs rule: linked.induct)
  case (3 m a b ns vs)
  then obtain w ws where vs: "vs = w # ws" "m a = Some \<lparr>node_next = Some b, node_value = w\<rparr>"
    and l: "linked m (b # ns) ws" by auto
  have "last (b # ns) \<noteq> a" using 3 by (metis distinct.simps(2) last_in_set list.discI)
  with 3 vs l show ?case by (auto split: if_splits)
qed (auto simp: value_node_def)

lemma linked_last: "linked m ns vs \<Longrightarrow> \<exists>v. m (last ns) = Some \<lparr>node_next = None, node_value = v\<rparr>"
  by (induction m ns vs rule: linked.induct) auto

lemma linked_hd_next:
  "linked m ns (v # vs) \<Longrightarrow>
   m (hd ns) = Some \<lparr>node_next = (case tl ns of [] \<Rightarrow> None | n # _ \<Rightarrow> Some n), node_value = v\<rparr>"
  by (cases "(m, ns, v # vs)" rule: linked.cases) auto

lemma linked_change_value:
  "linked m (a # ns) (v # vs) \<Longrightarrow> a \<notin> set ns \<Longrightarrow> m a = Some nd \<Longrightarrow>
   linked (m(a \<mapsto> nd\<lparr>node_value := w\<rparr>)) (a # ns) (w # vs)"
  by (cases ns) (auto intro: linked_frame)

section \<open>The operations on a represented queue\<close>

lemma holds_new: "holds (new_queue stub) []"
  unfolding holds_def rep_at_def new_queue_def stub_node_def
  by (rule exI [of _ "[stub]"]) simp

lemma enqueue_holds:
  assumes "holds q xs" and "mem q n = None" and "m_tail q \<noteq> None"
  shows "\<exists>q'. enqueue (Some n) v q = Inr (True, q') \<and> holds q' (xs @ [v]) \<and> m_tail q' \<noteq> None"
proof -
  obtain ns where r: "rep_at q ns xs" using assms(1) by (auto simp: holds_def)
  then have ns: "ns \<noteq> []" "distinct ns" "dom (mem q) = set ns" "m_head q = Some (hd ns)"
    and t: "m_tail q = Some (last ns)" and l: "linked (mem q) ns (None # map Some xs)"
    using assms(3) by (auto simp: rep_at_def)
  have fresh: "n \<notin> set ns" using assms(2) ns(3) by auto
  obtain w where w: "mem q (last ns) = Some \<lparr>node_next = None, node_value = w\<rparr>"
    using linked_last [OF l] by auto
  have ne: "last ns \<noteq> n" using fresh ns(1) by (metis last_in_set)
  let ?nd = "\<lparr>node_next = None, node_value = w\<rparr>"
  let ?q' = "q\<lparr>mem := (mem q)(n \<mapsto> value_node v, last ns \<mapsto> ?nd\<lparr>node_next := Some n\<rparr>),
               m_tail := Some n\<rparr>"
  have e: "enqueue (Some n) v q = Inr (True, ?q')"
    using t w ne by (simp add: enqueue_def alloc_node_def store_next_def Let_def)
  have "linked (mem ?q') (ns @ [n]) (None # map Some (xs @ [v]))"
    using linked_snoc [OF l ns(2) fresh w, of v] by simp
  moreover have "dom (mem ?q') = set (ns @ [n])" using ns(1,3) by auto
  ultimately have "rep_at ?q' (ns @ [n]) (xs @ [v])"
    using ns fresh by (simp add: rep_at_def)
  with e show ?thesis by (auto simp: holds_def)
qed

lemma enqueue_alloc_failed: "enqueue None v q = Inr (False, q)"
  by (simp add: enqueue_def)

lemma enqueue_stopped:
  "mem q n = None \<Longrightarrow> m_tail q = None \<Longrightarrow> enqueue (Some n) v q = Inr (False, q)"
  by (cases q) (simp add: enqueue_def alloc_node_def take_value_def value_node_def delete_node_def
      Let_def fun_upd_idem)

text \<open>The shape of the node list, read off the contents.\<close>

lemma rep_at_Nil:
  assumes "rep_at q ns []"
  obtains h where "ns = [h]" and "m_head q = Some h"
    and "mem q = [h \<mapsto> \<lparr>node_next = None, node_value = None\<rparr>]"
proof -
  from assms have l: "linked (mem q) ns [None]" and d: "dom (mem q) = set ns"
    and hd: "m_head q = Some (hd ns)" by (auto simp: rep_at_def)
  from linked_length [OF l] obtain h where ns: "ns = [h]"
    by (auto simp: Suc_length_conv)
  with l d have "mem q = [h \<mapsto> \<lparr>node_next = None, node_value = None\<rparr>]"
    by (auto simp: dom_eq_singleton_conv)
  with ns hd that show thesis by simp
qed

lemma rep_at_Cons:
  assumes "rep_at q ns (x # xs)"
  obtains h n ns' where "ns = h # n # ns'" and "m_head q = Some h"
    and "mem q h = Some \<lparr>node_next = Some n, node_value = None\<rparr>"
    and "linked (mem q) (n # ns') (Some x # map Some xs)"
    and "h \<notin> set (n # ns')" and "distinct (n # ns')"
proof -
  from assms have l: "linked (mem q) ns (None # Some x # map Some xs)"
    and hd: "m_head q = Some (hd ns)" and ds: "distinct ns" by (auto simp: rep_at_def)
  from linked_length [OF l] have "length ns = Suc (Suc (length xs))" by simp
  then obtain h n ns' where ns: "ns = h # n # ns'" by (auto simp: length_Suc_conv)
  with l hd ds that show thesis by auto
qed

lemma try_dequeue_empty: "holds q [] \<Longrightarrow> try_dequeue q = Inr (None, q)"
  by (auto simp: holds_def try_dequeue_def load_next_def elim!: rep_at_Nil)

lemma pop_front_holds:
  assumes "rep_at q (h # n # ns) (x # xs)"
  shows "\<exists>q'. pop_front h n q = Inr (Some x, q') \<and> rep_at q' (n # ns) xs \<and> m_tail q' = m_tail q"
proof -
  obtain nd where h: "mem q h = Some \<lparr>node_next = Some n, node_value = None\<rparr>"
    and l: "linked (mem q) (n # ns) (Some x # map Some xs)"
    and fr: "h \<notin> set (n # ns)" and ds: "distinct (n # ns)"
    using rep_at_Cons [OF assms] by (metis list.inject)
  have v: "mem q n = Some \<lparr>node_next = (case ns of [] \<Rightarrow> None | b # _ \<Rightarrow> Some b), node_value = Some x\<rparr>"
    using linked_hd_next [OF l] by simp
  let ?nd = "\<lparr>node_next = (case ns of [] \<Rightarrow> None | b # _ \<Rightarrow> Some b), node_value = Some x\<rparr>"
  let ?q' = "q\<lparr>mem := (mem q)(h := None, n \<mapsto> ?nd\<lparr>node_value := None\<rparr>), m_head := Some n\<rparr>"
  have e: "pop_front h n q = Inr (Some x, ?q')"
    using h v fr by (simp add: pop_front_def delete_node_def take_value_def)
  have "linked ((mem q)(h := None)) (n # ns) (Some x # map Some xs)"
    by (rule linked_frame [OF l fr])
  then have "linked (mem ?q') (n # ns) (None # map Some xs)"
    using linked_change_value [of "(mem q)(h := None)" n ns "Some x" "map Some xs" ?nd None]
      ds v fr by simp
  moreover have "dom (mem ?q') = set (n # ns)"
    using assms fr by (auto simp: rep_at_def)
  ultimately have "rep_at ?q' (n # ns) xs"
    using assms by (simp add: rep_at_def)
  with e show ?thesis by auto
qed

lemma try_dequeue_holds:
  assumes "holds q (x # xs)"
  shows "\<exists>q'. try_dequeue q = Inr (Some x, q') \<and> holds q' xs \<and> m_tail q' = m_tail q"
proof -
  obtain ns where r: "rep_at q ns (x # xs)" using assms by (auto simp: holds_def)
  then obtain h n ns' where ns: "ns = h # n # ns'" and hd: "m_head q = Some h"
    and h: "mem q h = Some \<lparr>node_next = Some n, node_value = None\<rparr>"
    by (rule rep_at_Cons)
  from pop_front_holds [of q h n ns' x xs] r ns
  obtain q' where "pop_front h n q = Inr (Some x, q')" "rep_at q' (n # ns') xs" "m_tail q' = m_tail q"
    by auto
  with hd h show ?thesis by (auto simp: try_dequeue_def load_next_def holds_def)
qed

lemma wait_dequeue_empty:
  assumes "holds q []"
  shows "wait_dequeue q = (if m_tail q = None then Inr (Returns None q) else Inr Blocks)"
proof -
  obtain ns where r: "rep_at q ns []" using assms by (auto simp: holds_def)
  then obtain h where "ns = [h]" "m_head q = Some h"
    "mem q = [h \<mapsto> \<lparr>node_next = None, node_value = None\<rparr>]" by (rule rep_at_Nil)
  with r show ?thesis by (auto simp: wait_dequeue_def load_next_def rep_at_def)
qed

lemma wait_dequeue_holds:
  assumes "holds q (x # xs)"
  shows "\<exists>q'. wait_dequeue q = Inr (Returns (Some x) q') \<and> holds q' xs \<and> m_tail q' = m_tail q"
proof -
  obtain ns where r: "rep_at q ns (x # xs)" using assms by (auto simp: holds_def)
  then obtain h n ns' where ns: "ns = h # n # ns'" and hd: "m_head q = Some h"
    and h: "mem q h = Some \<lparr>node_next = Some n, node_value = None\<rparr>"
    by (rule rep_at_Cons)
  from pop_front_holds [of q h n ns' x xs] r ns
  obtain q' where "pop_front h n q = Inr (Some x, q')" "rep_at q' (n # ns') xs" "m_tail q' = m_tail q"
    by auto
  with hd h show ?thesis by (auto simp: wait_dequeue_def load_next_def holds_def)
qed

lemma maybe_empty_holds: "holds q xs \<Longrightarrow> maybe_empty q = Inr (xs = [])"
proof (cases xs)
  case Nil
  moreover assume "holds q xs"
  ultimately show ?thesis by (auto simp: holds_def maybe_empty_def load_next_def elim!: rep_at_Nil)
next
  case (Cons y ys)
  moreover assume "holds q xs"
  ultimately show ?thesis
    by (auto simp: holds_def maybe_empty_def load_next_def elim!: rep_at_Cons)
qed

lemma stop_holds: "holds q xs \<Longrightarrow> holds (stop q) xs"
  by (auto simp: holds_def rep_at_def stop_def)

lemma m_tail_stop [simp]: "m_tail (stop q) = None"
  by (simp add: stop_def)

lemma drain_holds: "holds q xs \<Longrightarrow> length xs < fuel \<Longrightarrow> \<exists>q'. drain fuel q = Some (Inr q') \<and> holds q' []"
proof (induction fuel arbitrary: q xs)
  case (Suc fuel)
  show ?case
  proof (cases xs)
    case Nil
    with Suc.prems show ?thesis by (simp add: try_dequeue_empty)
  next
    case (Cons x ys)
    with Suc.prems have "holds q (x # ys)" by simp
    from try_dequeue_holds [OF this] obtain q1 where "try_dequeue q = Inr (Some x, q1)" "holds q1 ys"
      by auto
    moreover from this Suc.prems Cons obtain q' where "drain fuel q1 = Some (Inr q')" "holds q' []"
      using Suc.IH [of q1 ys] by auto
    ultimately show ?thesis by simp
  qed
qed simp

lemma destroy_frees_all:
  assumes "holds q xs" and "length xs < fuel"
  shows "\<exists>q'. destroy fuel q = Some (Inr q') \<and> mem q' = Map.empty \<and> m_head q' = None"
proof -
  obtain q1 where d: "drain fuel (stop q) = Some (Inr q1)" and h: "holds q1 []"
    using drain_holds [OF stop_holds [OF assms(1)] assms(2)] by auto
  from h obtain ns where "rep_at q1 ns []" by (auto simp: holds_def)
  then obtain a where "m_head q1 = Some a" "mem q1 = [a \<mapsto> \<lparr>node_next = None, node_value = None\<rparr>]"
    by (rule rep_at_Nil)
  with d show ?thesis by (simp add: destroy_def delete_node_def)
qed

section \<open>The contract other components rely on\<close>

text \<open>
  A first-in first-out queue as its users see it (\<open>sync.hpp\<close>, \<open>wait_each\<close>): an
  insertion with fresh storage appends, a removal yields the oldest element, emptiness
  is observable. \<open>content\<close> relates a queue to the list it holds.
\<close>

locale fifo =
  fixes content :: "'q \<Rightarrow> 'a list \<Rightarrow> bool"
    and avail :: "'q \<Rightarrow> addr \<Rightarrow> bool"
    and enq :: "addr option \<Rightarrow> 'a \<Rightarrow> 'q \<Rightarrow> fault + bool \<times> 'q"
    and deq :: "'q \<Rightarrow> fault + 'a option \<times> 'q"
  assumes enq_ok: "content q xs \<Longrightarrow> avail q n \<Longrightarrow>
      \<exists>q'. enq (Some n) v q = Inr (True, q') \<and> content q' (xs @ [v])"
    and enq_failed: "enq None v q = Inr (False, q)"
    and deq_empty: "content q [] \<Longrightarrow> deq q = Inr (None, q)"
    and deq_ok: "content q (x # xs) \<Longrightarrow> \<exists>q'. deq q = Inr (Some x, q') \<and> content q' xs"
begin

lemma deq_not_fault: "content q xs \<Longrightarrow> \<exists>r. deq q = Inr r"
  by (cases xs) (auto dest: deq_empty deq_ok)

lemma deq_Some: "content q xs \<Longrightarrow> deq q = Inr (Some x, q') \<Longrightarrow> \<exists>ys. xs = x # ys \<and> content q' ys"
  by (cases xs) (auto dest: deq_empty deq_ok)

lemma deq_None: "content q xs \<Longrightarrow> deq q = Inr (None, q') \<Longrightarrow> xs = [] \<and> q' = q"
  by (cases xs) (auto dest: deq_empty deq_ok)

lemma enq_True: "content q xs \<Longrightarrow> avail q n \<Longrightarrow> enq (Some n) v q = Inr (b, q') \<Longrightarrow>
    b \<and> content q' (xs @ [v])"
  using enq_ok [of q xs n v] by auto

end

text \<open>A running queue: it holds the list and is not stopped.\<close>

definition running_holds :: "'a queue \<Rightarrow> 'a list \<Rightarrow> bool" where
  "running_holds q xs \<longleftrightarrow> holds q xs \<and> m_tail q \<noteq> None"

lemma running_holds_new: "running_holds (new_queue stub) []"
  by (simp add: running_holds_def holds_new) (simp add: new_queue_def)

interpretation aq: fifo running_holds "\<lambda>q n. mem q n = None" enqueue try_dequeue
proof unfold_locales
  fix q :: "'a queue" and xs n v
  assume "running_holds q xs" "mem q n = None"
  then show "\<exists>q'. enqueue (Some n) v q = Inr (True, q') \<and> running_holds q' (xs @ [v])"
    using enqueue_holds [of q xs n v] by (auto simp: running_holds_def)
next
  fix q :: "'a queue" and x xs
  assume "running_holds q (x # xs)"
  then show "\<exists>q'. try_dequeue q = Inr (Some x, q') \<and> running_holds q' xs"
    using try_dequeue_holds [of q x xs] by (auto simp: running_holds_def)
qed (simp_all add: enqueue_alloc_failed try_dequeue_empty running_holds_def)

text \<open>A queue whose users may also wait for an element.\<close>

locale waiting_fifo = fifo +
  fixes wait_deq :: "'a \<Rightarrow> fault + ('b, 'a) wait_result"
  assumes wait_empty: "content q [] \<Longrightarrow> wait_deq q = Inr Blocks"
    and wait_ok: "content q (x # xs) \<Longrightarrow> \<exists>q'. wait_deq q = Inr (Returns (Some x) q') \<and> content q' xs"
begin

lemma wait_Returns:
  "content q xs \<Longrightarrow> wait_deq q = Inr (Returns r q') \<Longrightarrow> \<exists>x ys. r = Some x \<and> xs = x # ys \<and> content q' ys"
  by (cases xs) (auto dest: wait_empty wait_ok)

lemma wait_not_fault: "content q xs \<Longrightarrow> wait_deq q \<noteq> Inl e"
  by (cases xs) (auto dest: wait_empty wait_ok)

lemma wait_enabled: "content q xs \<Longrightarrow> xs \<noteq> [] \<Longrightarrow> \<exists>x q'. wait_deq q = Inr (Returns (Some x) q')"
  by (cases xs) (auto dest: wait_ok)

end

interpretation aq: waiting_fifo running_holds "\<lambda>q n. mem q n = None" enqueue try_dequeue wait_dequeue
proof unfold_locales
  fix q :: "'a queue" and x xs
  assume "running_holds q (x # xs)"
  then show "\<exists>q'. wait_dequeue q = Inr (Returns (Some x) q') \<and> running_holds q' xs"
    using wait_dequeue_holds [of q x xs] by (auto simp: running_holds_def)
qed (simp add: wait_dequeue_empty running_holds_def)

end
