(* ===== verification/Queue_Concurrent.thy ===== *)
theory Queue_Concurrent
  imports Atomic_Queue
begin

text \<open>
  The queue of \<open>container/queue.hpp\<close> under any interleaving of producers and
  consumers, one atomic access of the code per action. Producers run \<open>enqueue\<close> without a
  lock; consumers run \<open>try_dequeue\<close> or \<open>wait_dequeue\<close> holding the locker they pass,
  which \<open>wait_dequeue\<close> gives back while it waits. The logs \<open>sent\<close> and \<open>recvd\<close> record
  the values in the order of the successful exchanges on the tail and of the returns.
\<close>

section \<open>Program counters\<close>

text \<open>
  A producer between two accesses: it holds a node of its own (\<open>PHave\<close>), it has read
  the tail (\<open>PTail\<close>), it has swung the tail to its node and still has to link the old
  tail to it (\<open>PLink\<close>), it is about to wake a waiter (\<open>PNotify\<close>).
\<close>

datatype 'a ppc =
    PIdle | PHave addr 'a | PTail addr 'a "addr option" | PLink addr addr | PNotify | PRet bool

datatype 'a cpc =
    CIdle
  | THead | TNext addr
  | WHead | WTail addr | WNext addr "addr option" | WLoop addr "addr option" "addr option"
  | WBlocked addr | WRelock | WHead2 | WNext2 addr | WTail2 addr "addr option"
  | Take addr addr | Del addr addr | Move addr
  | CRet "'a option"

record 'a qsys =
  que :: "'a queue"
  prods :: "nat \<Rightarrow> 'a ppc"
  conss :: "nat \<Rightarrow> 'a cpc"
  owner :: "nat option"
  sent :: "'a list"
  recvd :: "'a list"
  bad :: "fault option"

definition qsys_init :: "addr \<Rightarrow> 'a qsys" where
  "qsys_init stub = \<lparr>que = new_queue stub, prods = (\<lambda>_. PIdle), conss = (\<lambda>_. CIdle),
     owner = None, sent = [], recvd = [], bad = None\<rparr>"

text \<open>
  The actions: a call of \<open>enqueue\<close> with the allocator's answer, the next access of a
  producer (whose weak exchange may fail spuriously), a call of \<open>try_dequeue\<close> or
  \<open>wait_dequeue\<close>, the next access of a consumer, the timeout of a blocked consumer,
  \<open>stop\<close>.
\<close>

datatype 'a qact =
    PCall nat 'a "addr option" | PStep nat bool
  | CTry nat | CWait nat | CStep nat | CTimeout nat
  | Stop

definition set_p :: "nat \<Rightarrow> 'a ppc \<Rightarrow> 'a qsys \<Rightarrow> 'a qsys" where
  "set_p i pc s = s\<lparr>prods := (prods s)(i := pc)\<rparr>"

definition set_c :: "nat \<Rightarrow> 'a cpc \<Rightarrow> 'a qsys \<Rightarrow> 'a qsys" where
  "set_c c pc s = s\<lparr>conss := (conss s)(c := pc)\<rparr>"

text \<open>A return of a consumer: the locker goes out of scope.\<close>

definition ret_c :: "nat \<Rightarrow> 'a option \<Rightarrow> 'a qsys \<Rightarrow> 'a qsys" where
  "ret_c c r s = (set_c c (CRet r) s)\<lparr>owner := None\<rparr>"

definition after :: "'a qsys \<Rightarrow> fault + 'b \<Rightarrow> ('b \<Rightarrow> 'a qsys) \<Rightarrow> 'a qsys" where
  "after s r k = (case r of Inl e \<Rightarrow> s\<lparr>bad := Some e\<rparr> | Inr x \<Rightarrow> k x)"

definition p_idle :: "'a ppc \<Rightarrow> bool" where
  "p_idle pc \<longleftrightarrow> pc = PIdle \<or> (\<exists>b \<in> {True, False}. pc = PRet b)"

definition c_idle :: "'a cpc \<Rightarrow> bool" where
  "c_idle pc \<longleftrightarrow> (case pc of CIdle \<Rightarrow> True | CRet _ \<Rightarrow> True | _ \<Rightarrow> False)"

section \<open>The accesses of \<open>enqueue\<close>\<close>

fun enqueue_step :: "nat \<Rightarrow> bool \<Rightarrow> 'a qsys \<Rightarrow> 'a ppc \<Rightarrow> 'a qsys option" where
  "enqueue_step i spurious s PIdle = None"
| "enqueue_step i spurious s (PRet b) = None"
| "enqueue_step i spurious s (PHave n v) = Some (set_p i (PTail n v (m_tail (que s))) s)"
| "enqueue_step i spurious s (PTail n v None) =
     Some (after s (bindE (take_value (que s) n) (\<lambda>(_, q). delete_node q n))
       (\<lambda>q. set_p i (PRet False) (s\<lparr>que := q\<rparr>)))"
| "enqueue_step i spurious s (PTail n v (Some tail)) =
     (if m_tail (que s) = Some tail \<and> \<not> spurious
      then Some (set_p i (PLink tail n) (s\<lparr>que := (que s)\<lparr>m_tail := Some n\<rparr>, sent := sent s @ [v]\<rparr>))
      else Some (set_p i (PTail n v (m_tail (que s))) s))"
| "enqueue_step i spurious s (PLink tail n) =
     Some (after s (store_next (que s) tail n) (\<lambda>q. set_p i PNotify (s\<lparr>que := q\<rparr>)))"
| "enqueue_step i spurious s PNotify = Some (set_p i (PRet True) s)"

section \<open>The accesses of \<open>try_dequeue\<close> and \<open>wait_dequeue_helper\<close>\<close>

text \<open>The three last accesses, common to both: publish the new head, delete the old one, move the value out.\<close>

fun take_step :: "nat \<Rightarrow> 'a qsys \<Rightarrow> 'a cpc \<Rightarrow> 'a qsys option" where
  "take_step c s (Take head next) = Some (set_c c (Del head next) (s\<lparr>que := (que s)\<lparr>m_head := Some next\<rparr>\<rparr>))"
| "take_step c s (Del head next) =
     Some (after s (delete_node (que s) head) (\<lambda>q. set_c c (Move next) (s\<lparr>que := q\<rparr>)))"
| "take_step c s (Move next) =
     Some (after s (take_value (que s) next)
       (\<lambda>(v, q). ret_c c (Some v) (s\<lparr>que := q, recvd := recvd s @ [v]\<rparr>)))"
| "take_step c s _ = None"

definition load_head :: "'a qsys \<Rightarrow> (addr \<Rightarrow> 'a qsys) \<Rightarrow> 'a qsys" where
  "load_head s k = (case m_head (que s) of None \<Rightarrow> s\<lparr>bad := Some NullDeref\<rparr> | Some h \<Rightarrow> k h)"

fun try_step :: "nat \<Rightarrow> 'a qsys \<Rightarrow> 'a cpc \<Rightarrow> 'a qsys option" where
  "try_step c s THead = Some (load_head s (\<lambda>h. set_c c (TNext h) s))"
| "try_step c s (TNext head) =
     Some (after s (load_next (que s) head)
       (\<lambda>next. case next of None \<Rightarrow> ret_c c None s | Some n \<Rightarrow> set_c c (Take head n) s))"
| "try_step c s _ = None"

fun wait_step :: "nat \<Rightarrow> 'a qsys \<Rightarrow> 'a cpc \<Rightarrow> 'a qsys option" where
  "wait_step c s WHead = Some (load_head s (\<lambda>h. set_c c (WTail h) s))"
| "wait_step c s (WTail head) = Some (set_c c (WNext head (m_tail (que s))) s)"
| "wait_step c s (WNext head tail) =
     Some (after s (load_next (que s) head) (\<lambda>next. set_c c (WLoop head tail next) s))"
| "wait_step c s (WLoop head tail (Some n)) = Some (set_c c (Take head n) s)"
| "wait_step c s (WLoop head tail None) =
     (case tail of
        None \<Rightarrow> Some (ret_c c None s)
      | Some t \<Rightarrow>
          if head = t then Some ((set_c c (WBlocked t) s)\<lparr>owner := None\<rparr>)
          else Some (set_c c (WTail2 head None) s))"
| "wait_step c s (WBlocked tail) =
     (if m_tail (que s) \<noteq> Some tail then Some (set_c c WRelock s) else None)"
| "wait_step c s WRelock =
     (if owner s = None then Some ((set_c c WHead2 s)\<lparr>owner := Some c\<rparr>) else None)"
| "wait_step c s WHead2 = Some (load_head s (\<lambda>h. set_c c (WNext2 h) s))"
| "wait_step c s (WNext2 head) =
     Some (after s (load_next (que s) head) (\<lambda>next. set_c c (WTail2 head next) s))"
| "wait_step c s (WTail2 head next) = Some (set_c c (WLoop head (m_tail (que s)) next) s)"
| "wait_step c s _ = None"

definition consumer_step :: "nat \<Rightarrow> 'a qsys \<Rightarrow> 'a qsys option" where
  "consumer_step c s = (case conss s c of
     Take h n \<Rightarrow> take_step c s (Take h n) | Del h n \<Rightarrow> take_step c s (Del h n)
   | Move n \<Rightarrow> take_step c s (Move n)
   | THead \<Rightarrow> try_step c s THead | TNext h \<Rightarrow> try_step c s (TNext h)
   | pc \<Rightarrow> wait_step c s pc)"

section \<open>The machine\<close>

fun qact_step :: "'a qact \<Rightarrow> 'a qsys \<Rightarrow> 'a qsys option" where
  "qact_step (PCall i v alloc) s =
     (if \<not> p_idle (prods s i) then None
      else case alloc of
        None \<Rightarrow> Some (set_p i (PRet False) s)
      | Some n \<Rightarrow> if mem (que s) n \<noteq> None then None
                  else Some (set_p i (PHave n v) (s\<lparr>que := alloc_node n v (que s)\<rparr>)))"
| "qact_step (PStep i spurious) s = enqueue_step i spurious s (prods s i)"
| "qact_step (CTry c) s =
     (if c_idle (conss s c) \<and> owner s = None then Some ((set_c c THead s)\<lparr>owner := Some c\<rparr>) else None)"
| "qact_step (CWait c) s =
     (if c_idle (conss s c) \<and> owner s = None then Some ((set_c c WHead s)\<lparr>owner := Some c\<rparr>) else None)"
| "qact_step (CStep c) s = consumer_step c s"
| "qact_step (CTimeout c) s =
     (case conss s c of WBlocked t \<Rightarrow> Some (set_c c (CRet None) s) | _ \<Rightarrow> None)"
| "qact_step Stop s = Some (s\<lparr>que := stop (que s)\<rparr>)"

text \<open>Nothing moves after a fault: undefined behaviour ends the model's knowledge.\<close>

definition qstep :: "'a qact \<Rightarrow> 'a qsys \<Rightarrow> 'a qsys option" where
  "qstep a s = (if bad s \<noteq> None then None else qact_step a s)"

section \<open>The invariant\<close>

text \<open>What a memory says of a node's link and value.\<close>

definition nx :: "(addr \<rightharpoonup> 'a node) \<Rightarrow> addr \<Rightarrow> addr option" where
  "nx m a = (case m a of None \<Rightarrow> None | Some nd \<Rightarrow> node_next nd)"

definition vl :: "(addr \<rightharpoonup> 'a node) \<Rightarrow> addr \<Rightarrow> 'a option" where
  "vl m a = (case m a of None \<Rightarrow> None | Some nd \<Rightarrow> node_value nd)"

fun priv :: "'a ppc \<Rightarrow> (addr \<times> 'a) option" where
  "priv (PHave n v) = Some (n, v)"
| "priv (PTail n v t) = Some (n, v)"
| "priv pc = None"

fun link_of :: "'a ppc \<Rightarrow> (addr \<times> addr) option" where
  "link_of (PLink t n) = Some (t, n)"
| "link_of pc = None"

fun critical :: "'a cpc \<Rightarrow> bool" where
  "critical CIdle = False"
| "critical (WBlocked t) = False"
| "critical WRelock = False"
| "critical (CRet r) = False"
| "critical pc = True"

fun in_hand :: "'a cpc \<Rightarrow> bool" where
  "in_hand (Del h n) = True"
| "in_hand (Move n) = True"
| "in_hand pc = False"

fun dead :: "'a cpc \<Rightarrow> addr set" where
  "dead (Del h n) = {h}"
| "dead pc = {}"

text \<open>
  The invariant is stated over the chain \<open>ch\<close>, the nodes in the order of the exchanges
  on the tail, from the head on. First the links: two neighbours are linked, or the
  producer that put the second one in is still about to link them.
\<close>

definition link_inv :: "(addr \<rightharpoonup> 'a node) \<Rightarrow> (nat \<Rightarrow> (addr \<times> addr) option) \<Rightarrow> addr list \<Rightarrow> bool" where
  "link_inv m ls ch \<longleftrightarrow>
     (\<forall>k. Suc k < length ch \<longrightarrow>
        nx m (ch ! k) = Some (ch ! Suc k) \<or>
        nx m (ch ! k) = None \<and> (\<exists>i. ls i = Some (ch ! k, ch ! Suc k))) \<and>
     (\<forall>i t n. ls i = Some (t, n) \<longrightarrow>
        nx m t = None \<and> (\<exists>k. Suc k < length ch \<and> ch ! k = t \<and> ch ! Suc k = n)) \<and>
     (\<forall>i j t n n'. ls i = Some (t, n) \<longrightarrow> ls j = Some (t, n') \<longrightarrow> i = j)"

text \<open>A node not yet in the chain belongs to one producer, which still knows its value.\<close>

definition priv_inv :: "(addr \<rightharpoonup> 'a node) \<Rightarrow> (nat \<Rightarrow> (addr \<times> 'a) option) \<Rightarrow> addr set \<Rightarrow> bool" where
  "priv_inv m ps used \<longleftrightarrow>
     (\<forall>i n v. ps i = Some (n, v) \<longrightarrow> n \<notin> used \<and> m n = Some (value_node v)) \<and>
     (\<forall>i j n v w. ps i = Some (n, v) \<longrightarrow> ps j = Some (n, w) \<longrightarrow> i = j)"

definition owned :: "(nat \<Rightarrow> (addr \<times> 'a) option) \<Rightarrow> addr set" where
  "owned ps = {n. \<exists>i v. ps i = Some (n, v)}"

text \<open>What the consumer that holds the lock knows.\<close>

fun cons_inv :: "(addr \<rightharpoonup> 'a node) \<Rightarrow> addr list \<Rightarrow> 'a cpc \<Rightarrow> bool" where
  "cons_inv m ch (TNext h) = (h = hd ch)"
| "cons_inv m ch (WTail h) = (h = hd ch)"
| "cons_inv m ch (WNext h t) = (h = hd ch)"
| "cons_inv m ch (WNext2 h) = (h = hd ch)"
| "cons_inv m ch (WLoop h t next) = (h = hd ch \<and> (next \<noteq> None \<longrightarrow> nx m h = next))"
| "cons_inv m ch (WTail2 h next) = (h = hd ch \<and> (next \<noteq> None \<longrightarrow> nx m h = next))"
| "cons_inv m ch (Take h n) = (h = hd ch \<and> nx m h = Some n)"
| "cons_inv m ch (Del h n) = (h \<notin> set ch \<and> n = hd ch \<and> m h \<noteq> None \<and> nx m h = Some n)"
| "cons_inv m ch (Move n) = (n = hd ch)"
| "cons_inv m ch pc = True"

definition holder :: "'a qsys \<Rightarrow> 'a cpc" where
  "holder s = (case owner s of None \<Rightarrow> CIdle | Some c \<Rightarrow> conss s c)"

text \<open>The values: what was sent is what was received, what is in hand, and what the chain holds.\<close>

definition val_inv :: "(addr \<rightharpoonup> 'a node) \<Rightarrow> addr list \<Rightarrow> bool \<Rightarrow> 'a list \<Rightarrow> 'a list \<Rightarrow> bool" where
  "val_inv m ch hand snt rcv \<longleftrightarrow>
     (\<exists>h pend. map (vl m) ch = h # map Some pend \<and>
        (if hand then \<exists>v. h = Some v \<and> snt = rcv @ v # pend else h = None \<and> snt = rcv @ pend))"

definition qinv_at :: "'a qsys \<Rightarrow> addr list \<Rightarrow> bool" where
  "qinv_at s ch \<longleftrightarrow>
     bad s = None \<and> ch \<noteq> [] \<and> distinct ch \<and>
     m_head (que s) = Some (hd ch) \<and>
     (m_tail (que s) = None \<or> m_tail (que s) = Some (last ch)) \<and>
     nx (mem (que s)) (last ch) = None \<and>
     link_inv (mem (que s)) (link_of \<circ> prods s) ch \<and>
     priv_inv (mem (que s)) (priv \<circ> prods s) (set ch \<union> dead (holder s)) \<and>
     (\<forall>c. critical (conss s c) \<longleftrightarrow> owner s = Some c) \<and>
     cons_inv (mem (que s)) ch (holder s) \<and>
     val_inv (mem (que s)) ch (in_hand (holder s)) (sent s) (recvd s) \<and>
     dom (mem (que s)) = set ch \<union> owned (priv \<circ> prods s) \<union> dead (holder s)"

definition qinv :: "'a qsys \<Rightarrow> bool" where
  "qinv s \<longleftrightarrow> (\<exists>ch. qinv_at s ch)"

lemma qinv_init: "qinv (qsys_init stub)"
  unfolding qinv_def
  by (rule exI [of _ "[stub]"])
     (auto simp: qinv_at_def qsys_init_def new_queue_def stub_node_def nx_def vl_def holder_def
        link_inv_def priv_inv_def val_inv_def owned_def)

section \<open>Every action keeps the invariant\<close>

text \<open>Moves of program counters that touch neither the memory nor what a thread owns.\<close>

lemma set_p_fields [simp]:
  "que (set_p i pc s) = que s" "prods (set_p i pc s) = (prods s)(i := pc)"
  "conss (set_p i pc s) = conss s" "owner (set_p i pc s) = owner s"
  "sent (set_p i pc s) = sent s" "recvd (set_p i pc s) = recvd s" "bad (set_p i pc s) = bad s"
  "holder (set_p i pc s) = holder s"
  by (simp_all add: set_p_def holder_def split: option.split)

lemma set_c_fields [simp]:
  "que (set_c c pc s) = que s" "prods (set_c c pc s) = prods s"
  "conss (set_c c pc s) = (conss s)(c := pc)" "owner (set_c c pc s) = owner s"
  "sent (set_c c pc s) = sent s" "recvd (set_c c pc s) = recvd s" "bad (set_c c pc s) = bad s"
  by (simp_all add: set_c_def)

lemma comp_upd: "f \<circ> g(i := x) = (f \<circ> g)(i := f x)"
  by auto

lemma qinv_at_set_p:
  "qinv_at s ch \<Longrightarrow> priv pc = priv (prods s i) \<Longrightarrow> link_of pc = link_of (prods s i) \<Longrightarrow>
   qinv_at (set_p i pc s) ch"
  by (simp add: qinv_at_def comp_upd fun_upd_idem)

lemma qinv_at_set_c:
  "qinv_at s ch \<Longrightarrow> owner s = Some c \<Longrightarrow> critical pc \<Longrightarrow> cons_inv (mem (que s)) ch pc \<Longrightarrow>
   in_hand pc = in_hand (conss s c) \<Longrightarrow> dead pc = dead (conss s c) \<Longrightarrow> qinv_at (set_c c pc s) ch"
  by (simp add: qinv_at_def holder_def)

lemma qinv_at_release:
  "qinv_at s ch \<Longrightarrow> owner s = Some c \<Longrightarrow> \<not> critical pc \<Longrightarrow> \<not> in_hand (conss s c) \<Longrightarrow>
   dead (conss s c) = {} \<Longrightarrow> qinv_at ((set_c c pc s)\<lparr>owner := None\<rparr>) ch"
  by (simp add: qinv_at_def holder_def)

lemma qinv_at_acquire:
  "qinv_at s ch \<Longrightarrow> owner s = None \<Longrightarrow> critical pc \<Longrightarrow> cons_inv (mem (que s)) ch pc \<Longrightarrow>
   \<not> in_hand pc \<Longrightarrow> dead pc = {} \<Longrightarrow> qinv_at ((set_c c pc s)\<lparr>owner := Some c\<rparr>) ch"
  by (simp add: qinv_at_def holder_def)

lemma qinv_at_outside:
  "qinv_at s ch \<Longrightarrow> \<not> critical (conss s c) \<Longrightarrow> \<not> critical pc \<Longrightarrow> qinv_at (set_c c pc s) ch"
  by (cases "owner s") (auto simp add: qinv_at_def holder_def)

text \<open>Frames: what a change of memory away from the chain leaves alone.\<close>

lemma link_inv_frame:
  assumes "link_inv m ls ch" and "\<And>a. a \<in> set ch \<Longrightarrow> nx m' a = nx m a"
  shows "link_inv m' ls ch"
proof -
  have "nx m' t = nx m t" if "ls i = Some (t, n)" for i t n
    using assms that unfolding link_inv_def by (metis Suc_lessD nth_mem)
  moreover have "nx m' (ch ! k) = nx m (ch ! k)" if "Suc k < length ch" for k
    using assms(2) that by simp
  ultimately show ?thesis using assms(1) unfolding link_inv_def by simp
qed

lemma val_inv_frame:
  assumes "val_inv m ch hand snt rcv" and "\<And>a. a \<in> set ch \<Longrightarrow> vl m' a = vl m a"
  shows "val_inv m' ch hand snt rcv"
proof -
  have "map (vl m') ch = map (vl m) ch" using assms(2) by simp
  then show ?thesis using assms(1) by (simp only: val_inv_def)
qed

lemma cons_inv_frame:
  "cons_inv m ch pc \<Longrightarrow> ch \<noteq> [] \<Longrightarrow> (\<And>a. a \<in> set ch \<union> dead pc \<Longrightarrow> m' a = m a) \<Longrightarrow> cons_inv m' ch pc"
  by (induction m ch pc rule: cons_inv.induct) (auto simp: nx_def)

lemma nx_upd [simp]: "nx (m(a \<mapsto> nd)) b = (if b = a then node_next nd else nx m b)"
  "nx (m(a := None)) b = (if b = a then None else nx m b)"
  by (simp_all add: nx_def)

lemma vl_upd [simp]: "vl (m(a \<mapsto> nd)) b = (if b = a then node_value nd else vl m b)"
  "vl (m(a := None)) b = (if b = a then None else vl m b)"
  by (simp_all add: vl_def)

lemma value_node_sel [simp]: "node_next (value_node v) = None" "node_value (value_node v) = Some v"
  by (simp_all add: value_node_def)

lemma qinv_atD:
  assumes "qinv_at s ch"
  shows "bad s = None" and "ch \<noteq> []" and "distinct ch" and "m_head (que s) = Some (hd ch)"
    and "m_tail (que s) = None \<or> m_tail (que s) = Some (last ch)"
    and "nx (mem (que s)) (last ch) = None"
    and "link_inv (mem (que s)) (link_of \<circ> prods s) ch"
    and "priv_inv (mem (que s)) (priv \<circ> prods s) (set ch \<union> dead (holder s))"
    and "critical (conss s c) \<longleftrightarrow> owner s = Some c"
    and "cons_inv (mem (que s)) ch (holder s)"
    and "val_inv (mem (que s)) ch (in_hand (holder s)) (sent s) (recvd s)"
    and "dom (mem (que s)) = set ch \<union> owned (priv \<circ> prods s) \<union> dead (holder s)"
  using assms by (simp_all add: qinv_at_def)

lemma holder_que [simp]: "holder (s\<lparr>que := q\<rparr>) = holder s"
  "holder (s\<lparr>que := q, sent := l\<rparr>) = holder s"
  by (simp_all add: holder_def split: option.split)

lemma owned_iff: "a \<in> owned f \<longleftrightarrow> (\<exists>i v. f i = Some (a, v))"
  by (simp add: owned_def)

lemma owned_gain:
  assumes "f i = None"
  shows "owned (f(i := Some (n, v))) = insert n (owned f)"
proof (rule set_eqI)
  fix a
  have "(\<exists>j w. (f(i := Some (n, v))) j = Some (a, w)) \<longleftrightarrow> a = n \<or> (\<exists>j w. f j = Some (a, w))"
    using assms by (metis fun_upd_apply option.distinct(1) option.inject prod.inject)
  then show "a \<in> owned (f(i := Some (n, v))) \<longleftrightarrow> a \<in> insert n (owned f)"
    by (simp only: owned_iff insert_iff)
qed

lemma owned_lose:
  assumes "f i = Some (n, v)" and "priv_inv m f u"
  shows "owned (f(i := None)) = owned f - {n}"
proof (rule equalityI; rule subsetI)
  fix a assume "a \<in> owned (f(i := None))"
  then obtain j w where j: "(f(i := None)) j = Some (a, w)" by (auto simp only: owned_iff)
  then have "j \<noteq> i" "f j = Some (a, w)" by (auto split: if_splits)
  moreover from this assms have "a \<noteq> n" unfolding priv_inv_def by blast
  ultimately show "a \<in> owned f - {n}" by (auto simp: owned_iff)
next
  fix a assume a: "a \<in> owned f - {n}"
  then obtain j w where j: "f j = Some (a, w)" by (auto simp: owned_iff)
  with a assms(1) have "(f(i := None)) j = Some (a, w)" by auto
  then show "a \<in> owned (f(i := None))" by (auto simp only: owned_iff)
qed

lemma qinv_at_alloc:
  assumes inv: "qinv_at s ch" and fresh: "mem (que s) n = None" and idle: "p_idle (prods s i)"
  shows "qinv_at (set_p i (PHave n v) (s\<lparr>que := alloc_node n v (que s)\<rparr>)) ch"
proof -
  let ?m = "mem (que s)" and ?m' = "(mem (que s))(n \<mapsto> value_node v)"
  note D = qinv_atD [OF inv]
  have none: "priv (prods s i) = None" "link_of (prods s i) = None"
    using idle by (auto simp: p_idle_def)
  have nn: "n \<notin> set ch" "n \<notin> owned (priv \<circ> prods s)" "n \<notin> dead (holder s)"
    using fresh D(12) by (auto simp: domIff)
  have ne: "a \<noteq> n" if "a \<in> set ch" for a using that nn by auto
  have "link_inv ?m' (link_of \<circ> (prods s)(i := PHave n v)) ch"
    using link_inv_frame [OF D(7), of ?m'] ne none by (simp add: comp_upd fun_upd_idem)
  moreover have "priv_inv ?m' (priv \<circ> (prods s)(i := PHave n v)) (set ch \<union> dead (holder s))"
    using D(8) nn none by (auto simp: priv_inv_def owned_def)
  moreover have "cons_inv ?m' ch (holder s)"
    using D(2) nn by (intro cons_inv_frame [OF D(10)]) auto
  moreover have "val_inv ?m' ch (in_hand (holder s)) (sent s) (recvd s)"
    using ne by (intro val_inv_frame [OF D(11)]) auto
  moreover have "dom ?m' = set ch \<union> owned (priv \<circ> (prods s)(i := PHave n v)) \<union> dead (holder s)"
    using D(12) none by (simp add: comp_upd owned_gain)
  moreover have "nx ?m' (last ch) = None" using D(2,6) ne by simp
  ultimately show ?thesis using D by (simp add: qinv_at_def alloc_node_def)
qed

text \<open>The queue was stopped: the producer destroys its value and deletes its node.\<close>

lemma qinv_at_rejected:
  assumes inv: "qinv_at s ch" and pc: "prods s i = PTail n v None"
  shows "\<exists>q. bindE (take_value (que s) n) (\<lambda>(_, q). delete_node q n) = Inr q \<and>
     qinv_at (set_p i (PRet False) (s\<lparr>que := q\<rparr>)) ch"
proof -
  let ?m = "mem (que s)" and ?m' = "(mem (que s))(n := None)"
  note D = qinv_atD [OF inv]
  have p: "(priv \<circ> prods s) i = Some (n, v)" "link_of (prods s i) = None" using pc by simp_all
  have nn: "n \<notin> set ch" "n \<notin> dead (holder s)" "?m n = Some (value_node v)"
    using D(8) p(1) by (auto simp: priv_inv_def)
  have ne: "a \<noteq> n" if "a \<in> set ch" for a using that nn by auto
  have q: "bindE (take_value (que s) n) (\<lambda>(_, q). delete_node q n) = Inr ((que s)\<lparr>mem := ?m'\<rparr>)"
    using nn(3) by (simp add: take_value_def delete_node_def)
  have "link_inv ?m' (link_of \<circ> (prods s)(i := PRet False)) ch"
    using link_inv_frame [OF D(7), of ?m'] ne p(2) by (simp add: comp_upd fun_upd_idem)
  moreover have "priv_inv ?m' (priv \<circ> (prods s)(i := PRet False)) (set ch \<union> dead (holder s))"
    using D(8) p(1) by (auto simp: priv_inv_def)
  moreover have "cons_inv ?m' ch (holder s)"
    using D(2) nn by (intro cons_inv_frame [OF D(10)]) auto
  moreover have "val_inv ?m' ch (in_hand (holder s)) (sent s) (recvd s)"
    using ne by (intro val_inv_frame [OF D(11)]) auto
  moreover have "dom ?m' = set ch \<union> owned (priv \<circ> (prods s)(i := PRet False)) \<union> dead (holder s)"
    using D(12) nn owned_lose [OF p(1) D(8)] by (auto simp add: comp_upd)
  moreover have "nx ?m' (last ch) = None" using D(6) by simp
  ultimately have "qinv_at (set_p i (PRet False) (s\<lparr>que := (que s)\<lparr>mem := ?m'\<rparr>\<rparr>)) ch"
    using D by (simp add: qinv_at_def)
  with q show ?thesis by blast
qed

text \<open>The exchange on the tail: the node joins the chain, its value is sent.\<close>

lemma link_inv_snoc:
  assumes "link_inv m ls ch" and "ls i = None" and "ch \<noteq> []" and "distinct ch"
    and "nx m (last ch) = None"
  shows "link_inv m (ls(i := Some (last ch, n))) (ch @ [n])"
proof -
  have no: "ls j \<noteq> Some (last ch, n')" for j n'
  proof
    assume "ls j = Some (last ch, n')"
    then obtain k where "Suc k < length ch" "ch ! k = last ch"
      using assms(1) unfolding link_inv_def by blast
    with assms(3,4) show False by (simp add: last_conv_nth nth_eq_iff_index_eq)
  qed
  have "\<forall>k. Suc k < length (ch @ [n]) \<longrightarrow>
      nx m ((ch @ [n]) ! k) = Some ((ch @ [n]) ! Suc k) \<or>
      nx m ((ch @ [n]) ! k) = None \<and>
        (\<exists>j. (ls(i := Some (last ch, n))) j = Some ((ch @ [n]) ! k, (ch @ [n]) ! Suc k))"
  proof (intro allI impI)
    fix k assume k: "Suc k < length (ch @ [n])"
    show "nx m ((ch @ [n]) ! k) = Some ((ch @ [n]) ! Suc k) \<or>
      nx m ((ch @ [n]) ! k) = None \<and>
        (\<exists>j. (ls(i := Some (last ch, n))) j = Some ((ch @ [n]) ! k, (ch @ [n]) ! Suc k))"
    proof (cases "Suc k = length ch")
      case True
      then have k: "k < length ch" "ch ! k = last ch"
        using assms(3) by (simp_all add: last_conv_nth flip: True)
      with True assms(5) show ?thesis by (auto simp: nth_append)
    next
      case False
      with k have "Suc k < length ch" by simp
      with assms(1,2) show ?thesis unfolding link_inv_def
        by (simp add: nth_append) (metis option.distinct(1))
    qed
  qed
  moreover have "\<exists>k. Suc k < length (ch @ [n]) \<and> (ch @ [n]) ! k = t \<and> (ch @ [n]) ! Suc k = n'"
    if "ls j = Some (t, n')" for j t n'
    using assms(1) that unfolding link_inv_def
    by (metis (no_types, lifting) Suc_lessD length_append_singleton less_SucI nth_append)
  moreover have "\<exists>k. Suc k < length (ch @ [n]) \<and> (ch @ [n]) ! k = last ch \<and> (ch @ [n]) ! Suc k = n"
    using assms(3) by (intro exI [of _ "length ch - 1"]) (simp add: nth_append last_conv_nth)
  ultimately show ?thesis
    using assms(1,5) no unfolding link_inv_def by (simp add: split_paired_all) blast
qed

lemma qinv_at_cas:
  assumes inv: "qinv_at s ch" and pc: "prods s i = PTail n v (Some t)"
    and tail: "m_tail (que s) = Some t"
  shows "qinv_at (set_p i (PLink t n) (s\<lparr>que := (que s)\<lparr>m_tail := Some n\<rparr>, sent := sent s @ [v]\<rparr>)) (ch @ [n])"
proof -
  let ?m = "mem (que s)"
  note D = qinv_atD [OF inv]
  have t: "t = last ch" using D(5) tail by simp
  have p: "(priv \<circ> prods s) i = Some (n, v)" "(link_of \<circ> prods s) i = None" using pc by simp_all
  have nn: "n \<notin> set ch" "n \<notin> dead (holder s)" "?m n = Some (value_node v)"
    using D(8) p(1) by (auto simp: priv_inv_def)
  have "link_inv ?m ((link_of \<circ> prods s)(i := Some (t, n))) (ch @ [n])"
    unfolding t by (rule link_inv_snoc [OF D(7) p(2) D(2,3,6)])
  moreover have "priv_inv ?m ((priv \<circ> prods s)(i := None)) (set (ch @ [n]) \<union> dead (holder s))"
    using D(8) p(1) by (auto simp: priv_inv_def)
  moreover have "cons_inv ?m (ch @ [n]) (holder s)"
    using D(2,10) nn by (cases "holder s") auto
  moreover have "val_inv ?m (ch @ [n]) (in_hand (holder s)) (sent s @ [v]) (recvd s)"
  proof -
    obtain h pend where h: "map (vl ?m) ch = h # map Some pend"
      and "if in_hand (holder s) then \<exists>v. h = Some v \<and> sent s = recvd s @ v # pend
           else h = None \<and> sent s = recvd s @ pend"
      using D(11) by (auto simp: val_inv_def)
    moreover have "vl ?m n = Some v" using nn(3) by (simp add: vl_def)
    ultimately show ?thesis unfolding val_inv_def
      by (intro exI [of _ h] exI [of _ "pend @ [v]"]) (auto split: if_splits)
  qed
  moreover have "dom ?m = set (ch @ [n]) \<union> owned ((priv \<circ> prods s)(i := None)) \<union> dead (holder s)"
    using D(12) nn owned_lose [OF p(1) D(8)] p(1) by (auto simp: owned_iff)
  moreover have "nx ?m n = None" using nn(3) by (simp add: nx_def)
  ultimately show ?thesis using D nn by (simp add: qinv_at_def comp_upd)
qed

text \<open>The link store: the old tail is still allocated, whatever the consumers did since.\<close>

lemma link_inv_store:
  assumes "link_inv m ls ch" and "ls i = Some (t, n)" and "distinct ch" and "m t = Some nd"
  shows "link_inv (m(t \<mapsto> nd\<lparr>node_next := Some n\<rparr>)) (ls(i := None)) ch"
proof -
  let ?m = "m(t \<mapsto> nd\<lparr>node_next := Some n\<rparr>)" and ?ls = "ls(i := None)"
  obtain k0 where k0: "Suc k0 < length ch" "ch ! k0 = t" "ch ! Suc k0 = n"
    using assms(1,2) unfolding link_inv_def by blast
  have "nx ?m (ch ! k) = Some (ch ! Suc k) \<or>
      nx ?m (ch ! k) = None \<and> (\<exists>i. ?ls i = Some (ch ! k, ch ! Suc k))"
    if k: "Suc k < length ch" for k
  proof (cases "ch ! k = t")
    case True
    with k k0 assms(3) have "k = k0" using nth_eq_iff_index_eq [of ch k k0] by simp
    with k0 show ?thesis by simp
  next
    case False
    have "nx m (ch ! k) = Some (ch ! Suc k) \<or>
      nx m (ch ! k) = None \<and> (\<exists>i. ls i = Some (ch ! k, ch ! Suc k))"
      using assms(1) k unfolding link_inv_def by blast
    then show ?thesis using False assms(2) by (metis fun_upd_apply nx_upd(1) option.inject prod.inject)
  qed
  moreover have "nx ?m t' = None \<and> (\<exists>k. Suc k < length ch \<and> ch ! k = t' \<and> ch ! Suc k = n')"
    if l: "?ls j = Some (t', n')" for j t' n'
  proof -
    have j: "j \<noteq> i" "ls j = Some (t', n')" using l by (auto split: if_splits)
    then have "t' \<noteq> t" using assms(1,2) unfolding link_inv_def by blast
    moreover have "nx m t' = None \<and> (\<exists>k. Suc k < length ch \<and> ch ! k = t' \<and> ch ! Suc k = n')"
      using j(2) assms(1) unfolding link_inv_def by blast
    ultimately show ?thesis by simp
  qed
  moreover have "j = j'" if "?ls j = Some (t', n')" "?ls j' = Some (t', n'')" for j j' t' n' n''
    using that assms(1) unfolding link_inv_def by (auto split: if_splits)
  ultimately show ?thesis unfolding link_inv_def by blast
qed

lemma qinv_at_link:
  assumes inv: "qinv_at s ch" and pc: "prods s i = PLink t n"
  shows "\<exists>q. store_next (que s) t n = Inr q \<and> qinv_at (set_p i PNotify (s\<lparr>que := q\<rparr>)) ch"
proof -
  let ?m = "mem (que s)"
  note D = qinv_atD [OF inv]
  have p: "(priv \<circ> prods s) i = None" "(link_of \<circ> prods s) i = Some (t, n)" using pc by simp_all
  obtain k where k: "Suc k < length ch" "ch ! k = t" "nx ?m t = None"
    using D(7) p(2) unfolding link_inv_def by blast
  then have tin: "t \<in> set ch" by auto
  then obtain nd where nd: "?m t = Some nd" using D(12) by blast
  let ?m' = "?m(t \<mapsto> nd\<lparr>node_next := Some n\<rparr>)"
  have tl: "t \<noteq> last ch" using k D(2,3) by (auto simp: last_conv_nth nth_eq_iff_index_eq)
  have np: "t \<notin> owned (priv \<circ> prods s)" using D(8) tin by (auto simp: priv_inv_def owned_iff)
  have "link_inv ?m' ((link_of \<circ> prods s)(i := None)) ch"
    by (rule link_inv_store [OF D(7) p(2) D(3) nd])
  moreover have "priv_inv ?m' (priv \<circ> prods s) (set ch \<union> dead (holder s))"
    using D(8) tin unfolding priv_inv_def by auto
  moreover have "cons_inv ?m' ch (holder s)"
    using D(10) k(3) tin by (cases "holder s") auto
  moreover have "val_inv ?m' ch (in_hand (holder s)) (sent s) (recvd s)"
    using nd by (intro val_inv_frame [OF D(11)]) (auto simp: vl_def)
  moreover have "dom ?m' = set ch \<union> owned (priv \<circ> prods s) \<union> dead (holder s)"
    using D(12) tin by auto
  moreover have "nx ?m' (last ch) = None" using D(6) tl by simp
  moreover have "store_next (que s) t n = Inr ((que s)\<lparr>mem := ?m'\<rparr>)"
    using nd by (simp add: store_next_def)
  ultimately show ?thesis using D p by (simp add: qinv_at_def comp_upd fun_upd_idem)
qed

lemma priv_invD:
  assumes "priv_inv m ps u" and "ps i = Some (n, v)"
  shows "n \<notin> u" and "m n = Some (value_node v)"
  using assms by (simp_all add: priv_inv_def)

lemma priv_inv_frame:
  assumes inv: "priv_inv m ps u" and sub: "u' \<subseteq> u" and eq: "\<And>a. a \<in> owned ps \<Longrightarrow> m' a = m a"
  shows "priv_inv m' ps u'"
  unfolding priv_inv_def
proof (intro conjI allI impI)
  fix i n v assume p: "ps i = Some (n, v)"
  show "n \<notin> u'" using priv_invD(1) [OF inv p] sub by blast
  have "n \<in> owned ps" using p by (auto simp: owned_iff)
  with priv_invD(2) [OF inv p] eq show "m' n = Some (value_node v)" by simp
next
  fix i j n v w assume "ps i = Some (n, v)" "ps j = Some (n, w)"
  then show "i = j" using inv unfolding priv_inv_def by blast
qed

text \<open>The consumer's last three accesses.\<close>

lemma link_invD:
  assumes "link_inv m ls ch"
  shows "Suc k < length ch \<Longrightarrow> nx m (ch ! k) = Some (ch ! Suc k) \<or>
      nx m (ch ! k) = None \<and> (\<exists>i. ls i = Some (ch ! k, ch ! Suc k))"
    and "ls i = Some (t, n) \<Longrightarrow> nx m t = None"
    and "ls i = Some (t, n) \<Longrightarrow> \<exists>k. Suc k < length ch \<and> ch ! k = t \<and> ch ! Suc k = n"
    and "ls i = Some (t, n) \<Longrightarrow> ls j = Some (t, n') \<Longrightarrow> i = j"
  using assms unfolding link_inv_def by blast+

lemma link_inv_tl:
  assumes "link_inv m ls (h # ch)" and "nx m h \<noteq> None"
  shows "link_inv m ls ch"
proof -
  have "nx m (ch ! k) = Some (ch ! Suc k) \<or>
      nx m (ch ! k) = None \<and> (\<exists>i. ls i = Some (ch ! k, ch ! Suc k))" if "Suc k < length ch" for k
  proof -
    have "Suc (Suc k) < length (h # ch)" using that by simp
    from link_invD(1) [OF assms(1) this] show ?thesis by simp
  qed
  moreover have "nx m t = None \<and> (\<exists>k. Suc k < length ch \<and> ch ! k = t \<and> ch ! Suc k = n)"
    if "ls i = Some (t, n)" for i t n
  proof -
    obtain k where k: "nx m t = None" "Suc k < length (h # ch)" "(h # ch) ! k = t" "(h # ch) ! Suc k = n"
      using assms(1) \<open>ls i = Some (t, n)\<close> unfolding link_inv_def by blast
    with assms(2) obtain k' where "k = Suc k'" by (cases k) auto
    with k show ?thesis by auto
  qed
  ultimately show ?thesis using assms(1) unfolding link_inv_def by blast
qed

lemma link_inv_second:
  assumes "link_inv m ls ch" and "ch \<noteq> []" and "nx m (last ch) = None" and "nx m (hd ch) = Some n"
  obtains ns where "ch = hd ch # n # ns"
proof -
  obtain h ch' where ch: "ch = h # ch'" using assms(2) by (cases ch) auto
  with assms(3,4) have "ch' \<noteq> []" by auto
  then obtain b ns where b: "ch' = b # ns" by (cases ch') auto
  then have "Suc 0 < length ch" using ch by simp
  from link_invD(1) [OF assms(1) this] assms(4) ch b have "b = n" by simp
  with ch b that show thesis by simp
qed

lemma qinv_at_take:
  assumes inv: "qinv_at s ch" and own: "owner s = Some c" and pc: "conss s c = Take h n"
  shows "qinv_at (set_c c (Del h n) (s\<lparr>que := (que s)\<lparr>m_head := Some n\<rparr>\<rparr>)) (tl ch)"
proof -
  let ?m = "mem (que s)"
  note D = qinv_atD [OF inv]
  have ho: "holder s = Take h n" using own pc by (simp add: holder_def)
  then have h: "h = hd ch" "nx ?m h = Some n" using D(10) by auto
  then obtain ns where ch: "ch = h # n # ns"
    using link_inv_second [OF D(7,2,6)] by metis
  have "link_inv ?m (link_of \<circ> prods s) (n # ns)"
    using link_inv_tl D(7) h(2) ch by (metis option.distinct(1))
  moreover have "val_inv ?m (n # ns) True (sent s) (recvd s)"
    using D(11) ho ch by (auto simp: val_inv_def)
  moreover have "?m h \<noteq> None" using h(2) by (auto simp: nx_def split: option.splits)
  moreover have "set ch = insert h (set (n # ns))" "h \<notin> set (n # ns)" using ch D(3) by auto
  ultimately show ?thesis using D ho own ch h(2) by (simp add: qinv_at_def holder_def)
qed

lemma qinv_at_del:
  assumes inv: "qinv_at s ch" and own: "owner s = Some c" and pc: "conss s c = Del h n"
  shows "\<exists>q. delete_node (que s) h = Inr q \<and> qinv_at (set_c c (Move n) (s\<lparr>que := q\<rparr>)) ch"
proof -
  let ?m = "mem (que s)" and ?m' = "(mem (que s))(h := None)"
  note D = qinv_atD [OF inv]
  have ho: "holder s = Del h n" using own pc by (simp add: holder_def)
  then have h: "h \<notin> set ch" "n = hd ch" "?m h \<noteq> None" "nx ?m h = Some n" using D(10) by simp_all
  have ne: "a \<noteq> h" if "a \<in> set ch" for a using that h by auto
  have np: "h \<notin> owned (priv \<circ> prods s)" using D(8) ho by (auto simp: priv_inv_def owned_iff)
  have "link_inv ?m' (link_of \<circ> prods s) ch"
    using ne by (intro link_inv_frame [OF D(7)]) auto
  moreover have "priv_inv ?m' (priv \<circ> prods s) (set ch)"
    using np ho by (intro priv_inv_frame [OF D(8)]) auto
  moreover have "val_inv ?m' ch True (sent s) (recvd s)"
  proof (rule val_inv_frame)
    show "val_inv ?m ch True (sent s) (recvd s)" using D(11) ho by simp
  qed (use ne in simp)
  moreover have "dom ?m' = set ch \<union> owned (priv \<circ> prods s)"
    using D(12) ho h np by auto
  moreover have "delete_node (que s) h = Inr ((que s)\<lparr>mem := ?m'\<rparr>)"
    using h(3) by (auto simp: delete_node_def)
  moreover have "nx ?m' (last ch) = None" using D(6) by simp
  ultimately show ?thesis using D ho own h by (simp add: qinv_at_def holder_def)
qed

lemma qinv_at_move:
  assumes inv: "qinv_at s ch" and own: "owner s = Some c" and pc: "conss s c = Move n"
  shows "\<exists>v q. take_value (que s) n = Inr (v, q) \<and>
     qinv_at (ret_c c (Some v) (s\<lparr>que := q, recvd := recvd s @ [v]\<rparr>)) ch"
proof -
  let ?m = "mem (que s)"
  note D = qinv_atD [OF inv]
  have ho: "holder s = Move n" using own pc by (simp add: holder_def)
  then have n: "n = hd ch" using D(10) by simp
  with D(2) obtain ns where ch: "ch = n # ns" by (cases ch) auto
  obtain v pend where v: "vl ?m n = Some v" and p: "map (vl ?m) ns = map Some pend"
    and sr: "sent s = recvd s @ v # pend"
    using D(11) ho ch by (auto simp: val_inv_def)
  obtain nd where nd: "?m n = Some nd" using v by (auto simp: vl_def split: option.splits)
  with v have nv: "node_value nd = Some v" by (simp add: vl_def)
  let ?m' = "?m(n \<mapsto> nd\<lparr>node_value := None\<rparr>)"
  have nn: "n \<notin> set ns" using D(3) ch by simp
  have "nx ?m' a = nx ?m a" for a using nd by (simp add: nx_def)
  then have "nx ?m' = nx ?m" by auto
  then have "link_inv ?m' (link_of \<circ> prods s) ch" "nx ?m' (last ch) = None"
    using D(6,7) by (simp_all add: link_inv_def)
  moreover have "priv_inv ?m' (priv \<circ> prods s) (set ch)"
    using D(8) ho ch unfolding priv_inv_def by auto
  moreover have "val_inv ?m' ch False (sent s) (recvd s @ [v])"
  proof -
    have "map (vl ?m') ns = map Some pend" using p nn by (metis map_cong vl_upd(1))
    with sr ch show ?thesis by (auto simp: val_inv_def)
  qed
  moreover have "dom ?m' = set ch \<union> owned (priv \<circ> prods s)"
    using D(12) ho ch by auto
  moreover have "take_value (que s) n = Inr (v, (que s)\<lparr>mem := ?m'\<rparr>)"
    using nd nv by (simp add: take_value_def)
  ultimately show ?thesis using D ho own by (simp add: qinv_at_def holder_def ret_c_def)
qed

text \<open>A link read from the head stays true: only a missing link is ever written.\<close>

lemma qinv_at_load_next:
  assumes "qinv_at s ch"
  shows "load_next (que s) (hd ch) = Inr (nx (mem (que s)) (hd ch))"
proof -
  note D = qinv_atD [OF assms]
  have "hd ch \<in> dom (mem (que s))" using D(2,12) by simp
  then show ?thesis by (auto simp: load_next_def nx_def)
qed

lemma qinv_enqueue_step:
  assumes "qinv_at s ch" and "enqueue_step i sp s (prods s i) = Some s'"
  shows "\<exists>ch'. qinv_at s' ch'"
proof (cases "prods s i")
  case (PTail n v t)
  show ?thesis
  proof (cases t)
    case None
    with PTail assms qinv_at_rejected [of s ch i n v] show ?thesis by (auto simp: after_def)
  next
    case (Some tl)
    with PTail assms qinv_at_cas [of s ch i n v tl] show ?thesis
      by (auto split: if_splits intro!: qinv_at_set_p)
  qed
next
  case (PLink t n)
  with assms qinv_at_link [of s ch i t n] show ?thesis by (auto simp: after_def)
qed (use assms in \<open>auto intro!: qinv_at_set_p\<close>)

lemma qinv_take_step:
  assumes "qinv_at s ch" and "owner s = Some c" and "take_step c s (conss s c) = Some s'"
  shows "\<exists>ch'. qinv_at s' ch'"
proof (cases "conss s c")
  case (Take h n)
  with assms qinv_at_take [of s ch c h n] show ?thesis by auto
next
  case (Del h n)
  with assms qinv_at_del [of s ch c h n] show ?thesis by (auto simp: after_def)
next
  case (Move n)
  with assms qinv_at_move [of s ch c n] show ?thesis by (auto simp: after_def)
qed (use assms in auto)

lemma qinv_try_step:
  assumes inv: "qinv_at s ch" and own: "owner s = Some c" and st: "try_step c s (conss s c) = Some s'"
  shows "\<exists>ch'. qinv_at s' ch'"
proof (cases "conss s c")
  case THead
  with st qinv_atD(4) [OF inv] show ?thesis
    by (auto simp: load_head_def intro!: exI [of _ ch] qinv_at_set_c [OF inv own])
next
  case (TNext h)
  with own have "holder s = TNext h" by (simp add: holder_def)
  with qinv_atD(10) [OF inv] have h: "h = hd ch" by simp
  show ?thesis using TNext st qinv_at_load_next [OF inv] h
    by (auto simp: after_def ret_c_def split: option.splits
        intro!: exI [of _ ch] qinv_at_set_c [OF inv own] qinv_at_release [OF inv own])
qed (use st in auto)

lemma qinv_wait_step_locked:
  assumes inv: "qinv_at s ch" and own: "owner s = Some c"
    and st: "wait_step c s (conss s c) = Some s'"
  shows "qinv_at s' ch"
proof -
  have ci: "cons_inv (mem (que s)) ch (conss s c)"
    using qinv_atD(10) [OF inv] own by (simp add: holder_def)
  have cr: "critical (conss s c)" using qinv_atD(9) [OF inv] own by simp
  note set = qinv_at_set_c [OF inv own] and rel = qinv_at_release [OF inv own]
    and ln = qinv_at_load_next [OF inv]
  show ?thesis
  proof (cases "conss s c")
    case WHead
    with st qinv_atD(4) [OF inv] show ?thesis by (auto simp: load_head_def intro: set)
  next
    case (WTail h)
    with st ci show ?thesis by (auto intro: set)
  next
    case (WNext h t)
    with st ci ln show ?thesis by (auto simp: after_def intro!: set)
  next
    case (WLoop h t nxt)
    with st ci show ?thesis
      by (cases nxt; cases t) (auto simp: ret_c_def split: if_splits intro!: set rel)
  next
    case WHead2
    with st qinv_atD(4) [OF inv] show ?thesis by (auto simp: load_head_def intro: set)
  next
    case (WNext2 h)
    with st ci ln show ?thesis by (auto simp: after_def intro!: set)
  next
    case (WTail2 h nxt)
    with st ci show ?thesis by (auto intro!: set)
  qed (use st cr in auto)
qed

lemma qinv_wait_step_unlocked:
  assumes inv: "qinv_at s ch" and nc: "\<not> critical (conss s c)"
    and st: "wait_step c s (conss s c) = Some s'"
  shows "qinv_at s' ch"
proof (cases "conss s c")
  case (WBlocked t)
  with st nc show ?thesis by (auto split: if_splits intro!: qinv_at_outside [OF inv])
next
  case WRelock
  with st show ?thesis by (auto split: if_splits intro!: qinv_at_acquire [OF inv])
qed (use st nc in auto)

lemma qinv_wait_step:
  "qinv_at s ch \<Longrightarrow> wait_step c s (conss s c) = Some s' \<Longrightarrow> \<exists>ch'. qinv_at s' ch'"
  using qinv_wait_step_locked qinv_wait_step_unlocked qinv_atD(9) by blast

lemma consumer_step_cases:
  "consumer_step c s = Some s' \<Longrightarrow>
   critical (conss s c) \<and> take_step c s (conss s c) = Some s' \<or>
   critical (conss s c) \<and> try_step c s (conss s c) = Some s' \<or>
   wait_step c s (conss s c) = Some s'"
  by (cases "conss s c") (simp_all add: consumer_step_def)

lemma qinv_step: "qinv s \<Longrightarrow> qstep a s = Some s' \<Longrightarrow> qinv s'"
proof -
  assume "qinv s" and st: "qstep a s = Some s'"
  then obtain ch where inv: "qinv_at s ch" by (auto simp: qinv_def)
  from st qinv_atD(1) [OF inv] have st: "qact_step a s = Some s'" by (simp add: qstep_def)
  have "\<exists>ch'. qinv_at s' ch'"
  proof (cases a)
    case (PCall i v alloc)
    with st have idle: "p_idle (prods s i)" by (auto split: if_splits)
    then have "priv (prods s i) = None" "link_of (prods s i) = None" by (auto simp: p_idle_def)
    then have "qinv_at (set_p i (PRet False) s) ch" using inv by (intro qinv_at_set_p) simp_all
    with PCall st idle qinv_at_alloc [OF inv _ idle] show ?thesis
      by (auto split: option.splits if_splits)
  next
    case (PStep i sp)
    with st qinv_enqueue_step [OF inv] show ?thesis by simp
  next
    case (CTry c)
    with st inv show ?thesis by (auto split: if_splits intro!: exI [of _ ch] qinv_at_acquire)
  next
    case (CWait c)
    with st inv show ?thesis by (auto split: if_splits intro!: exI [of _ ch] qinv_at_acquire)
  next
    case (CStep c)
    with st have "consumer_step c s = Some s'" by simp
    from consumer_step_cases [OF this] show ?thesis
    proof (elim disjE conjE)
      assume "critical (conss s c)" and t: "take_step c s (conss s c) = Some s'"
      then show ?thesis using qinv_atD(9) [OF inv] qinv_take_step [OF inv] by blast
    next
      assume "critical (conss s c)" and t: "try_step c s (conss s c) = Some s'"
      then show ?thesis using qinv_atD(9) [OF inv] qinv_try_step [OF inv] by blast
    next
      assume "wait_step c s (conss s c) = Some s'"
      then show ?thesis by (rule qinv_wait_step [OF inv])
    qed
  next
    case (CTimeout c)
    with st inv show ?thesis
      by (auto split: cpc.splits intro!: exI [of _ ch] qinv_at_outside)
  next
    case Stop
    then have "qinv_at s' ch" using st inv by (auto simp only: qact_step.simps stop_def option.inject)
        (simp add: qinv_at_def)
    then show ?thesis by blast
  qed
  then show "qinv s'" by (simp add: qinv_def)
qed

interpretation qmachine: machine_inv qstep "qsys_init stub" qinv for stub
  by unfold_locales (auto intro: qinv_init qinv_step)

section \<open>What holds in every reachable state\<close>

text \<open>
  C1. Memory safety under every interleaving: no access of \<open>enqueue\<close>,
  \<open>try_dequeue\<close> or \<open>wait_dequeue\<close> touches a node that was deleted or reads a value
  that is not alive, although producers write the link of the old tail without a lock
  while consumers delete nodes.
\<close>

theorem queue_memory_safe: "reachable qstep (qsys_init stub) s \<Longrightarrow> bad s = None"
  by (drule qmachine.reachable_inv) (auto simp: qinv_def qinv_at_def)

definition quiescent :: "'a qsys \<Rightarrow> bool" where
  "quiescent s \<longleftrightarrow> (\<forall>i. p_idle (prods s i)) \<and> owner s = None"

lemma linked_nx:
  "ch \<noteq> [] \<Longrightarrow> set ch \<subseteq> dom m \<Longrightarrow>
   (\<And>k. Suc k < length ch \<Longrightarrow> nx m (ch ! k) = Some (ch ! Suc k)) \<Longrightarrow> nx m (last ch) = None \<Longrightarrow>
   linked m ch (map (vl m) ch)"
proof (induction m ch "map (vl m) ch" rule: linked.induct)
  case (2 m a)
  then obtain nd where "m a = Some nd" by auto
  with 2 show ?case by (cases nd) (simp add: nx_def vl_def)
next
  case (3 m a b ns)
  have "nx m a = Some b" using 3(4) [of 0] by simp
  moreover obtain nd where "m a = Some nd" using 3(3) by auto
  ultimately have "m a = Some \<lparr>node_next = Some b, node_value = vl m a\<rparr>"
    by (cases nd) (simp add: nx_def vl_def)
  moreover have "linked m (b # ns) (map (vl m) (b # ns))"
  proof (rule 3(1))
    fix k assume "Suc k < length (b # ns)"
    then show "nx m ((b # ns) ! k) = Some ((b # ns) ! Suc k)" using 3(4) [of "Suc k"] by simp
  qed (use 3(3,5) in auto)
  ultimately show ?case by simp
qed simp

lemma quiescent_holds:
  assumes inv: "qinv_at s ch" and q: "quiescent s"
  shows "\<exists>pend. sent s = recvd s @ pend \<and> holds (que s) pend"
proof -
  note D = qinv_atD [OF inv]
  have none: "priv (prods s i) = None" "link_of (prods s i) = None" for i
  proof -
    have "p_idle (prods s i)" using q by (simp add: quiescent_def)
    then show "priv (prods s i) = None" "link_of (prods s i) = None" by (auto simp: p_idle_def)
  qed
  have ho: "holder s = CIdle" using q by (simp add: quiescent_def holder_def)
  obtain pend where p: "map (vl (mem (que s))) ch = None # map Some pend" "sent s = recvd s @ pend"
    using D(11) ho by (auto simp: val_inv_def)
  have "linked (mem (que s)) ch (map (vl (mem (que s))) ch)"
    using D(2,6,12) link_invD(1) [OF D(7)] none by (intro linked_nx) (auto simp: )
  moreover have "dom (mem (que s)) = set ch" using D(12) ho none by (auto simp: owned_iff)
  ultimately have "rep_at (que s) ch pend" using D p by (simp add: rep_at_def)
  with p(2) show ?thesis by (auto simp: holds_def)
qed

text \<open>
  C2. First in, first out, nothing lost, nothing twice: in every reachable state the
  values received are a prefix of the values sent, in the order of the exchanges on the
  tail; and when no producer is inside \<open>enqueue\<close> and no consumer holds the lock, the
  queue is a linked list of exactly the values sent and not yet received.
\<close>

theorem queue_fifo:
  assumes "reachable qstep (qsys_init stub) s"
  shows "(\<exists>pend. sent s = recvd s @ pend) \<and>
         (quiescent s \<longrightarrow> holds (que s) (drop (length (recvd s)) (sent s)))"
proof -
  from qmachine.reachable_inv [OF assms] obtain ch where inv: "qinv_at s ch" by (auto simp: qinv_def)
  have "\<exists>pend. sent s = recvd s @ pend"
    using qinv_atD(11) [OF inv] by (auto simp: val_inv_def split: if_splits)
  moreover have "quiescent s \<Longrightarrow> holds (que s) (drop (length (recvd s)) (sent s))"
    using quiescent_holds [OF inv] by auto
  ultimately show ?thesis by blast
qed

text \<open>
  The destructor leaks nothing: run when the threads have left the queue, it
  destroys every value still queued and frees every node that was ever allocated and not
  yet freed, the stub included.
\<close>

theorem queue_destroy_no_leak:
  assumes "reachable qstep (qsys_init stub) s" and "quiescent s" and "length (sent s) < fuel"
  shows "\<exists>q'. destroy fuel (que s) = Some (Inr q') \<and> mem q' = Map.empty \<and> m_head q' = None"
proof -
  from qmachine.reachable_inv [OF assms(1)] obtain ch where inv: "qinv_at s ch" by (auto simp: qinv_def)
  from quiescent_holds [OF inv assms(2)] obtain pend where "sent s = recvd s @ pend" "holds (que s) pend"
    by auto
  with assms(3) show ?thesis by (intro destroy_frees_all [of _ pend]) auto
qed

section \<open>Stopping\<close>

lemma wait_step_frame:
  "wait_step c s pc = Some s' \<Longrightarrow> que s' = que s \<and> sent s' = sent s \<and> recvd s' = recvd s"
  by (cases "(c, s, pc)" rule: wait_step.cases)
     (auto simp: after_def load_head_def ret_c_def split: sum.splits option.splits if_splits)

lemma try_step_frame:
  "try_step c s pc = Some s' \<Longrightarrow> que s' = que s \<and> sent s' = sent s \<and> recvd s' = recvd s"
  by (cases "(c, s, pc)" rule: try_step.cases)
     (auto simp: after_def load_head_def ret_c_def split: sum.splits option.splits if_splits)

lemma take_step_frame:
  "take_step c s pc = Some s' \<Longrightarrow> m_tail (que s') = m_tail (que s) \<and> sent s' = sent s"
  by (cases "(c, s, pc)" rule: take_step.cases)
     (auto simp: after_def ret_c_def delete_node_def take_value_def split: sum.splits option.splits)

lemma stopped_step:
  assumes "m_tail (que s) = None" and "qstep a s = Some s'"
  shows "m_tail (que s') = None \<and> sent s' = sent s"
proof -
  have st: "qact_step a s = Some s'" using assms(2) by (simp add: qstep_def split: if_splits)
  show ?thesis
  proof (cases a)
    case (PStep i sp)
    with st assms(1) show ?thesis
      by (cases "(i, sp, s, prods s i)" rule: enqueue_step.cases)
         (auto simp: after_def take_value_def delete_node_def store_next_def
          split: sum.splits option.splits if_splits)
  next
    case (CStep c)
    with st have "consumer_step c s = Some s'" by simp
    from consumer_step_cases [OF this] assms(1) show ?thesis
      by (auto dest: take_step_frame try_step_frame wait_step_frame)
  qed (use st assms(1) in \<open>auto simp: stop_def alloc_node_def split: option.splits if_splits cpc.splits\<close>)
qed

text \<open>
  \<open>stop\<close> is final: once the tail is null it stays null, every later
  \<open>enqueue\<close> adds nothing, and a consumer blocked in \<open>wait_dequeue\<close> can leave its wait.
\<close>

theorem queue_stop_final:
  assumes "bad s = None" and "run qstep as (s\<lparr>que := stop (que s)\<rparr>) = Some s'"
  shows "m_tail (que s') = None \<and> sent s' = sent s \<and>
    (bad s' = None \<longrightarrow> conss s' c = WBlocked t \<longrightarrow> qstep (CStep c) s' = Some (set_c c WRelock s'))"
proof -
  have "m_tail (que r) = None \<Longrightarrow> run qstep as r = Some s' \<Longrightarrow> m_tail (que s') = None \<and> sent s' = sent r"
    for r by (induction as arbitrary: r) (auto split: option.splits dest: stopped_step)
  from this [OF _ assms(2)] show ?thesis
    by (simp add: stop_def qstep_def consumer_step_def)
qed

section \<open>The retry loop of \<open>wait_dequeue_helper\<close>\<close>

text \<open>
  A consumer that found the head without a successor while the tail had already moved:
  its loop reloads the tail and never the successor.
\<close>

definition spinning :: "nat \<Rightarrow> 'a qsys \<Rightarrow> bool" where
  "spinning c s \<longleftrightarrow> owner s = Some c \<and> m_tail (que s) \<noteq> None \<and> m_tail (que s) \<noteq> m_head (que s) \<and>
     (case conss s c of
        WLoop h t next \<Rightarrow> next = None \<and> t \<noteq> None \<and> t \<noteq> Some h
      | WTail2 h next \<Rightarrow> next = None
      | _ \<Rightarrow> False)"

lemma enqueue_step_frame:
  "enqueue_step i sp s pc = Some s' \<Longrightarrow> conss s' = conss s \<and> owner s' = owner s \<and> recvd s' = recvd s \<and>
     m_head (que s') = m_head (que s) \<and>
     (m_tail (que s') = m_tail (que s) \<or> (\<exists>n v. priv pc = Some (n, v) \<and> m_tail (que s') = Some n))"
  by (cases "(i, sp, s, pc)" rule: enqueue_step.cases)
     (auto simp: after_def take_value_def delete_node_def store_next_def
      split: sum.splits option.splits if_splits)

lemma spinning_enqueue:
  assumes inv: "qinv s" and sp: "spinning c s" and st: "enqueue_step i b s (prods s i) = Some s'"
  shows "spinning c s' \<and> recvd s' = recvd s"
proof -
  obtain ch where q: "qinv_at s ch" using inv by (auto simp: qinv_def)
  have "n \<noteq> hd ch" if "priv (prods s i) = Some (n, v)" for n v
    using priv_invD(1) [OF qinv_atD(8) [OF q], of i n v] qinv_atD(2) [OF q] that by auto
  with enqueue_step_frame [OF st] sp qinv_atD(4) [OF q] show ?thesis
    unfolding spinning_def by (auto split: cpc.splits)
qed

lemma spinning_consumer:
  assumes inv: "qinv s" and sp: "spinning c s" and st: "consumer_step d s = Some s'"
  shows "spinning c s' \<and> recvd s' = recvd s"
proof -
  obtain ch where q: "qinv_at s ch" using inv by (auto simp: qinv_def)
  have own: "owner s = Some c" using sp by (simp add: spinning_def)
  have ho: "holder s = conss s c" using own by (simp add: holder_def)
  show ?thesis
  proof (cases "d = c")
    case True
    then show ?thesis
      using sp st qinv_atD(4,10) [OF q] unfolding spinning_def ho consumer_step_def
      by (auto split: cpc.splits option.splits if_splits)
  next
    case False
    with own have "\<not> critical (conss s d)" using qinv_atD(9) [OF q] by simp
    with False own sp st show ?thesis unfolding spinning_def
      by (cases "conss s d") (auto simp: consumer_step_def split: if_splits)
  qed
qed

lemma spinning_step:
  assumes inv: "qinv s" and sp: "spinning c s" and st: "qstep a s = Some s'" and ns: "a \<noteq> Stop"
  shows "spinning c s' \<and> recvd s' = recvd s"
proof -
  have st': "qact_step a s = Some s'" using st by (simp add: qstep_def split: if_splits)
  show ?thesis
  proof (cases a)
    case (PCall i v alloc)
    with st' sp show ?thesis
      by (auto simp: spinning_def alloc_node_def split: if_splits option.splits)
  next
    case (PStep i b)
    with spinning_enqueue [OF inv sp] st' show ?thesis by simp
  next
    case (CStep d)
    with spinning_consumer [OF inv sp] st' show ?thesis by simp
  next
    case (CTimeout d)
    with st' sp show ?thesis by (cases "d = c") (auto simp: spinning_def split: cpc.splits)
  qed (use st' sp ns in \<open>auto simp: spinning_def split: if_splits\<close>)
qed

text \<open>
  A consumer of \<open>wait_dequeue\<close> that meets an insertion in flight never returns:
  once it has read the head's empty link while the tail was already another node, it
  keeps the lock and receives nothing in any continuation in which the queue is not
  stopped, even after the producer has linked its node.
\<close>

theorem wait_dequeue_livelock:
  assumes "reachable qstep (qsys_init stub) s" and "spinning c s"
    and "run qstep as s = Some s'" and "Stop \<notin> set as"
  shows "owner s' = Some c \<and> recvd s' = recvd s \<and> spinning c s'"
proof -
  have "qinv s" using qmachine.reachable_inv [OF assms(1)] .
  then have "spinning c s' \<and> recvd s' = recvd s" using assms(2-4)
  proof (induction as arbitrary: s)
    case (Cons a as)
    then obtain r where r: "qstep a s = Some r" "run qstep as r = Some s'"
      by (auto split: option.splits)
    from Cons.prems r(1) have "spinning c r \<and> recvd r = recvd s" by (intro spinning_step) auto
    with Cons r qinv_step [OF Cons.prems(1) r(1)] show ?case by auto
  qed simp
  then show ?thesis by (simp add: spinning_def)
qed

section \<open>Concrete runs\<close>

lemmas queue_eval = qstep_def qsys_init_def new_queue_def stub_node_def value_node_def alloc_node_def
  p_idle_def c_idle_def set_p_def set_c_def ret_c_def after_def load_head_def load_next_def
  store_next_def delete_node_def take_value_def consumer_step_def

text \<open>
  Two producers interleave: the second swings the tail first, the first links first; a
  consumer then takes one value.
\<close>

definition demo_acts :: "nat qact list" where
  "demo_acts = [PCall 0 7 (Some 1), PCall 1 8 (Some 2), PStep 0 False, PStep 1 False,
     PStep 1 False, PStep 0 False, PStep 0 False, PStep 0 False, PStep 1 False,
     PStep 0 False, PStep 1 False,
     CTry 5, CStep 5, CStep 5, CStep 5, CStep 5, CStep 5]"

lemma demo_run:
  "\<exists>s. run qstep demo_acts (qsys_init 0) = Some s \<and> sent s = [8, 7] \<and> recvd s = [8] \<and> quiescent s"
  by (simp add: demo_acts_def queue_eval quiescent_def)

theorem queue_memory_safe_witness:
  "\<exists>s :: nat qsys. reachable qstep (qsys_init 0) s \<and> recvd s = [8] \<and> bad s = None"
proof -
  obtain s where "run qstep demo_acts (qsys_init 0) = Some s" "recvd s = [8]"
    using demo_run by blast
  then have "reachable qstep (qsys_init 0) s" by auto
  with queue_memory_safe [OF this] \<open>recvd s = [8]\<close> show ?thesis by blast
qed

theorem queue_fifo_witness:
  "\<exists>s :: nat qsys. reachable qstep (qsys_init 0) s \<and> sent s = [8, 7] \<and> holds (que s) [7]"
proof -
  obtain s where s: "run qstep demo_acts (qsys_init 0) = Some s" "sent s = [8, 7]" "recvd s = [8]"
    "quiescent s" using demo_run by blast
  then have r: "reachable qstep (qsys_init 0) s" by auto
  with queue_fifo [OF this] s have "holds (que s) [7]" by simp
  with r s show ?thesis by blast
qed

theorem queue_destroy_no_leak_witness:
  "\<exists>(s :: nat qsys) q'. reachable qstep (qsys_init 0) s \<and> sent s = [8, 7] \<and>
     destroy 3 (que s) = Some (Inr q') \<and> mem q' = Map.empty"
proof -
  obtain s where s: "run qstep demo_acts (qsys_init 0) = Some s" "sent s = [8, 7]" "quiescent s"
    using demo_run by blast
  then have r: "reachable qstep (qsys_init 0) s" by auto
  with queue_destroy_no_leak [OF r s(3), of 3] s show ?thesis by fastforce
qed

lemma stop_run:
  "\<exists>s. run qstep [PCall 0 (7::nat) (Some 1), PStep 0 False, PStep 0 False]
     ((qsys_init 0)\<lparr>que := stop (que (qsys_init 0))\<rparr>) = Some s \<and> prods s 0 = PRet False"
  by (simp add: queue_eval stop_def)

theorem queue_stop_final_witness:
  "\<exists>s. run qstep [PCall 0 (7::nat) (Some 1), PStep 0 False, PStep 0 False]
     ((qsys_init 0)\<lparr>que := stop (que (qsys_init 0))\<rparr>) = Some s \<and> prods s 0 = PRet False \<and> sent s = []"
proof -
  obtain s where s: "run qstep [PCall 0 (7::nat) (Some 1), PStep 0 False, PStep 0 False]
     ((qsys_init 0)\<lparr>que := stop (que (qsys_init 0))\<rparr>) = Some s" "prods s 0 = PRet False"
    using stop_run by blast
  have "bad (qsys_init 0 :: nat qsys) = None" by (simp add: qsys_init_def)
  from queue_stop_final [OF this s(1)] have "sent s = []" by (simp add: qsys_init_def)
  with s show ?thesis by blast
qed

text \<open>The consumer reads the tail between a producer's exchange and its link.\<close>

definition spin_acts :: "nat qact list" where
  "spin_acts = [PCall 0 7 (Some 1), PStep 0 False, PStep 0 False,
     CWait 5, CStep 5, CStep 5, CStep 5]"

lemma spin_run:
  "\<exists>s. run qstep spin_acts (qsys_init 0) = Some s \<and> spinning 5 s \<and>
     (\<exists>s'. run qstep [PStep 0 False, PStep 0 False, CStep 5, CStep 5] s = Some s' \<and>
        prods s' 0 = PRet True \<and> sent s' = [7])"
  by (simp add: spin_acts_def queue_eval spinning_def)

theorem wait_dequeue_livelock_witness:
  "\<exists>s s' :: nat qsys. reachable qstep (qsys_init 0) s \<and> spinning 5 s \<and>
     run qstep [PStep 0 False, PStep 0 False, CStep 5, CStep 5] s = Some s' \<and>
     prods s' 0 = PRet True \<and> sent s' = [7] \<and> owner s' = Some 5 \<and> recvd s' = recvd s"
proof -
  obtain s s' where s: "run qstep spin_acts (qsys_init 0) = Some s" "spinning 5 s"
    "run qstep [PStep 0 False, PStep 0 False, CStep 5, CStep 5] s = Some s'"
    "prods s' 0 = PRet True" "sent s' = [7]" using spin_run by blast
  have r: "reachable qstep (qsys_init 0) s" using s(1) by auto
  from wait_dequeue_livelock [OF r s(2,3)] r s show ?thesis by auto
qed

text \<open>
  \<open>maybe_empty\<close> is not safe beside a consumer: between its read of the head and its
  read of that node's link a consumer can take the next value and delete the node.
\<close>

theorem maybe_empty_races:
  "\<exists>(s :: nat qsys) s' head. reachable qstep (qsys_init 0) s \<and> m_head (que s) = Some head \<and>
     run qstep [CTry 5, CStep 5, CStep 5, CStep 5, CStep 5] s = Some s' \<and>
     load_next (que s') head = Inl UseAfterFree"
proof -
  let ?a = "[PCall 0 (7::nat) (Some 1), PStep 0 False, PStep 0 False, PStep 0 False]"
  have "\<exists>s. run qstep ?a (qsys_init 0) = Some s \<and> m_head (que s) = Some 0 \<and>
     (\<exists>s'. run qstep [CTry 5, CStep 5, CStep 5, CStep 5, CStep 5] s = Some s' \<and>
     load_next (que s') 0 = Inl UseAfterFree)"
    by (simp add: queue_eval)
  then show ?thesis by blast
qed

end
