(* ===== verification/Semaphore.thy ===== *)
theory Semaphore
  imports Atomic_Queue
begin

text \<open>
  \<open>include/sync.hpp\<close>: \<open>CountingSemaphore\<close>, its three compare-and-swap loops, the
  machine of several threads that acquire and release through the waiter queue, and
  \<open>Mutex\<close>, the semaphore of one permit. A call of the queue is one step here;
  \<open>Semaphore_Queue\<close> takes the queue one access at a time.
\<close>

section \<open>The counter and its updates\<close>

text \<open>
  \<open>count\<close> is a C++ \<open>int\<close>: an update that leaves the range is undefined behaviour.
  \<open>waiters\<close> is \<open>unsigned\<close> and wraps.
\<close>

record counter =
  count :: int
  waiters :: u32

definition add_count :: "int \<Rightarrow> counter \<Rightarrow> fault + counter" where
  "add_count n c = (if int32_ok (count c + n) then Inr (c\<lparr>count := count c + n\<rparr>) else Inl SignedOverflow)"

definition need_wake :: "int \<Rightarrow> counter \<Rightarrow> u32" where
  "need_wake n c = (if n > 0 then min (word_of_int n) (waiters c) else 0)"

definition release_update :: "int \<Rightarrow> counter \<Rightarrow> fault + counter" where
  "release_update n c = bindE (add_count n c) (\<lambda>c'. Inr (c'\<lparr>waiters := waiters c' - need_wake n c\<rparr>))"

definition try_update :: "counter \<Rightarrow> fault + counter" where
  "try_update c = (if count c > 0 then add_count (-1) c else Inr c)"

definition need_wait :: "counter \<Rightarrow> bool" where
  "need_wait c \<longleftrightarrow> count c - 1 < 0"

definition acquire_update :: "counter \<Rightarrow> fault + counter" where
  "acquire_update c = bindE (add_count (-1) c)
     (\<lambda>c'. Inr (if need_wait c then c'\<lparr>waiters := waiters c' + 1\<rparr> else c'))"

text \<open>The loops themselves, over what the other threads do to the cell meanwhile.\<close>

definition release_loop :: "int \<Rightarrow> counter \<Rightarrow> counter \<Rightarrow> ((counter \<Rightarrow> counter) \<times> bool) list
    \<Rightarrow> (fault + counter \<times> counter \<times> u32) option" where
  "release_loop n expected m script = (case cas_loop (release_update n) expected m script of
     None \<Rightarrow> None
   | Some (Inl e) \<Rightarrow> Some (Inl e)
   | Some (Inr (old, new)) \<Rightarrow> Some (Inr (old, new, need_wake n old)))"

definition try_acquire_loop :: "counter \<Rightarrow> counter \<Rightarrow> ((counter \<Rightarrow> counter) \<times> bool) list
    \<Rightarrow> (fault + counter \<times> counter \<times> bool) option" where
  "try_acquire_loop expected m script = (case cas_loop try_update expected m script of
     None \<Rightarrow> None
   | Some (Inl e) \<Rightarrow> Some (Inl e)
   | Some (Inr (old, new)) \<Rightarrow> Some (Inr (old, new, count old > 0)))"

definition acquire_loop :: "counter \<Rightarrow> counter \<Rightarrow> ((counter \<Rightarrow> counter) \<times> bool) list
    \<Rightarrow> (fault + counter \<times> counter \<times> bool) option" where
  "acquire_loop expected m script = (case cas_loop acquire_update expected m script of
     None \<Rightarrow> None
   | Some (Inl e) \<Rightarrow> Some (Inl e)
   | Some (Inr (old, new)) \<Rightarrow> Some (Inr (old, new, need_wait old)))"

section \<open>The machine\<close>

text \<open>
  A thread is idle, has to enqueue a handle whose wait it has counted, or still has
  waiters to wake. The exchange that ends a loop is one action. \<open>grants\<close> counts the
  acquisitions that went through, \<open>permits\<close> the initial count and all releases;
  \<open>enqd\<close> and \<open>resumed\<close> log the handles queued and resumed, \<open>lost\<close> those whose
  node could not be allocated (\<open>acquire_helper\<close> ignores the result of \<open>enqueue\<close>).
\<close>

datatype spc = SIdle | SEnq handle | SWake u32

record sem =
  cnt :: counter
  wq :: "handle queue"
  thr :: "spc list"
  grants :: nat
  permits :: int
  enqd :: "handle list"
  resumed :: "handle list"
  lost :: "handle list"
  sem_bad :: "fault option"

definition sem_init :: "int \<Rightarrow> nat \<Rightarrow> addr \<Rightarrow> sem" where
  "sem_init init threads stub = \<lparr>cnt = \<lparr>count = init, waiters = 0\<rparr>, wq = new_queue stub,
     thr = replicate threads SIdle, grants = 0, permits = init, enqd = [], resumed = [], lost = [],
     sem_bad = None\<rparr>"

datatype sact =
    Release nat int | Acquire nat handle | TryAcquire nat
  | Enqueue nat "addr option" | Wake nat | WakeDone nat

definition idle_at :: "sem \<Rightarrow> nat \<Rightarrow> bool" where
  "idle_at s i \<longleftrightarrow> i < length (thr s) \<and> thr s ! i = SIdle"

definition set_t :: "nat \<Rightarrow> spc \<Rightarrow> sem \<Rightarrow> sem" where
  "set_t i pc s = s\<lparr>thr := (thr s)[i := pc]\<rparr>"

definition with_cnt :: "sem \<Rightarrow> fault + counter \<Rightarrow> (sem \<Rightarrow> sem) \<Rightarrow> sem" where
  "with_cnt s r k = (case r of Inl e \<Rightarrow> s\<lparr>sem_bad := Some e\<rparr> | Inr c \<Rightarrow> k (s\<lparr>cnt := c\<rparr>))"

fun sem_act :: "sact \<Rightarrow> sem \<Rightarrow> sem option" where
  "sem_act (Release i n) s =
     (if \<not> idle_at s i \<or> \<not> int32_ok n then None
      else Some (with_cnt s (release_update n (cnt s))
        (\<lambda>t. set_t i (SWake (need_wake n (cnt s))) (t\<lparr>permits := permits t + n\<rparr>))))"
| "sem_act (TryAcquire i) s =
     (if \<not> idle_at s i then None
      else Some (with_cnt s (try_update (cnt s))
        (\<lambda>t. if count (cnt s) > 0 then t\<lparr>grants := grants t + 1\<rparr> else t)))"
| "sem_act (Acquire i h) s =
     (if \<not> idle_at s i then None
      else Some (with_cnt s (acquire_update (cnt s))
        (\<lambda>t. if need_wait (cnt s) then set_t i (SEnq h) t else t\<lparr>grants := grants t + 1\<rparr>)))"
| "sem_act (Enqueue i alloc) s =
     (if \<not> i < length (thr s) then None else case thr s ! i of
        SEnq h \<Rightarrow>
          (if (case alloc of None \<Rightarrow> False | Some n \<Rightarrow> mem (wq s) n \<noteq> None) then None
           else case enqueue alloc h (wq s) of
             Inl e \<Rightarrow> Some (s\<lparr>sem_bad := Some e\<rparr>)
           | Inr (True, q) \<Rightarrow> Some (set_t i SIdle (s\<lparr>wq := q, enqd := enqd s @ [h]\<rparr>))
           | Inr (False, q) \<Rightarrow> Some (set_t i SIdle (s\<lparr>wq := q, lost := lost s @ [h]\<rparr>)))
      | _ \<Rightarrow> None)"
| "sem_act (Wake i) s =
     (if \<not> i < length (thr s) then None else case thr s ! i of
        SWake k \<Rightarrow>
          (if k = 0 then None else case wait_dequeue (wq s) of
             Inl e \<Rightarrow> Some (s\<lparr>sem_bad := Some e\<rparr>)
           | Inr (Returns (Some h) q) \<Rightarrow>
               Some (set_t i (SWake (k - 1)) (s\<lparr>wq := q, resumed := resumed s @ [h], grants := grants s + 1\<rparr>))
           | Inr (Returns None q) \<Rightarrow> Some (set_t i SIdle s)
           | Inr Blocks \<Rightarrow> None
           | Inr Spins \<Rightarrow> None)
      | _ \<Rightarrow> None)"
| "sem_act (WakeDone i) s =
     (if \<not> i < length (thr s) then None else case thr s ! i of
        SWake k \<Rightarrow> if k = 0 then Some (set_t i SIdle s) else None
      | _ \<Rightarrow> None)"

definition sem_step :: "sact \<Rightarrow> sem \<Rightarrow> sem option" where
  "sem_step a s = (if sem_bad s \<noteq> None then None else sem_act a s)"

section \<open>The invariant\<close>

fun wakes :: "spc \<Rightarrow> nat" where
  "wakes (SWake k) = unat k"
| "wakes pc = 0"

fun enqs :: "spc \<Rightarrow> nat" where
  "enqs (SEnq h) = 1"
| "enqs pc = 0"

text \<open>
  Every waiter that was counted is in the queue, about to be queued, or lost; a waiter
  no longer counted is owed a wake by some thread. The count is what the permits leave
  after the acquisitions that went through and those still waiting.
\<close>

definition sem_inv :: "sem \<Rightarrow> bool" where
  "sem_inv s \<longleftrightarrow> (\<exists>hs. running_holds (wq s) hs \<and>
     enqd s = resumed s @ hs \<and>
     unat (waiters (cnt s)) + sum_list (map wakes (thr s))
       = length hs + sum_list (map enqs (thr s)) + length (lost s) \<and>
     count (cnt s) = permits s - int (grants s)
       - int (length hs + sum_list (map enqs (thr s)) + length (lost s)) \<and>
     int32_ok (count (cnt s)) \<and>
     int (unat (waiters (cnt s))) \<le> max 0 (- count (cnt s)))"

text \<open>Overflow of the count is the only fault.\<close>

definition sem_ok :: "sem \<Rightarrow> bool" where
  "sem_ok s \<longleftrightarrow> sem_inv s \<and> (sem_bad s = None \<or> sem_bad s = Some SignedOverflow)"

lemma sem_inv_init: "int32_ok init \<Longrightarrow> sem_inv (sem_init init threads stub)"
  unfolding sem_inv_def
  by (rule exI [of _ "[]"]) (simp add: sem_init_def running_holds_new sum_map_zero)

section \<open>Arithmetic of the counter\<close>

text \<open>Unsigned values are read with \<open>unat\<close> throughout.\<close>

declare of_nat_unat [simp del]

lemma unat_of_int32: "0 \<le> n \<Longrightarrow> int32_ok n \<Longrightarrow> int (unat (word_of_int n :: u32)) = n"
  by (simp add: int32_ok_def unat_eq_nat_uint uint_word_of_int)

lemma unat_need_wake:
  assumes "int32_ok n"
  shows "int (unat (need_wake n c)) = max 0 (min n (int (unat (waiters c))))"
proof (cases "n > 0")
  case True
  with unat_of_int32 [of n] assms have n: "int (unat (word_of_int n :: u32)) = n" by simp
  show ?thesis
  proof (cases "word_of_int n \<le> waiters c")
    case True
    then have "unat (word_of_int n :: u32) \<le> unat (waiters c)" by (simp add: word_le_nat_alt)
    with True n \<open>n > 0\<close> show ?thesis by (simp add: need_wake_def min_def)
  next
    case False
    then have "unat (waiters c) < unat (word_of_int n :: u32)" by (simp add: word_le_nat_alt)
    with False n \<open>n > 0\<close> show ?thesis by (simp add: need_wake_def min_def)
  qed
qed (simp add: need_wake_def)

lemma unat_waiters_minus:
  "unat (waiters c - need_wake n c) = unat (waiters c) - unat (need_wake n c)"
proof -
  have "need_wake n c \<le> waiters c" by (simp add: need_wake_def)
  then show ?thesis by (rule unat_sub)
qed

lemma need_wake_le: "unat (need_wake n c) \<le> unat (waiters c)"
proof -
  have "need_wake n c \<le> waiters c" by (simp add: need_wake_def)
  then show ?thesis by (simp add: word_le_nat_alt)
qed

lemma unat_waiters_plus:
  "int (unat w) \<le> max 0 (- c) \<Longrightarrow> int32_ok c \<Longrightarrow> unat (w + 1 :: u32) = unat w + 1"
proof -
  assume "int (unat w) \<le> max 0 (- c)" "int32_ok c"
  then have "unat w + 1 < 2 ^ 32" by (auto simp: int32_ok_def max_def split: if_splits)
  then show ?thesis by (simp add: unat_word_ariths)
qed

text \<open>What the three updates write, when they do not overflow.\<close>

lemma release_update_Inr:
  "release_update n c = Inr c' \<longleftrightarrow> int32_ok (count c + n) \<and>
     c' = \<lparr>count = count c + n, waiters = waiters c - need_wake n c\<rparr>"
  by (cases c) (auto simp: release_update_def add_count_def)

lemma acquire_update_Inr:
  "acquire_update c = Inr c' \<longleftrightarrow> int32_ok (count c - 1) \<and>
     c' = \<lparr>count = count c - 1, waiters = (if need_wait c then waiters c + 1 else waiters c)\<rparr>"
  by (cases c) (auto simp: acquire_update_def add_count_def)

lemma try_update_Inr:
  "try_update c = Inr c' \<longleftrightarrow>
     (if count c > 0 then int32_ok (count c - 1) \<and> c' = c\<lparr>count := count c - 1\<rparr> else c' = c)"
  by (auto simp: try_update_def add_count_def)

section \<open>Every action keeps the invariant\<close>

lemma set_t_fields [simp]:
  "thr (set_t i pc s) = (thr s)[i := pc]" "cnt (set_t i pc s) = cnt s" "wq (set_t i pc s) = wq s"
  "grants (set_t i pc s) = grants s" "permits (set_t i pc s) = permits s"
  "enqd (set_t i pc s) = enqd s" "resumed (set_t i pc s) = resumed s" "lost (set_t i pc s) = lost s"
  "sem_bad (set_t i pc s) = sem_bad s"
  by (simp_all add: set_t_def)

text \<open>A thread that moves changes the two sums by its own share.\<close>

lemma thread_sums:
  "i < length ts \<Longrightarrow> sum_list (map wakes (ts[i := pc])) + wakes (ts ! i) = sum_list (map wakes ts) + wakes pc"
  "i < length ts \<Longrightarrow> sum_list (map enqs (ts[i := pc])) + enqs (ts ! i) = sum_list (map enqs ts) + enqs pc"
  by (erule sum_map_update)+

lemma sem_invE:
  assumes "sem_inv s"
  obtains hs where "running_holds (wq s) hs" and "enqd s = resumed s @ hs"
    and "unat (waiters (cnt s)) + sum_list (map wakes (thr s))
       = length hs + sum_list (map enqs (thr s)) + length (lost s)"
    and "count (cnt s) = permits s - int (grants s)
       - int (length hs + sum_list (map enqs (thr s)) + length (lost s))"
    and "int32_ok (count (cnt s))" and "int (unat (waiters (cnt s))) \<le> max 0 (- count (cnt s))"
  using assms by (auto simp: sem_inv_def)

lemma sem_inv_release:
  assumes inv: "sem_inv s" and idle: "idle_at s i" and n: "int32_ok n"
    and u: "release_update n (cnt s) = Inr c"
  shows "sem_inv (set_t i (SWake (need_wake n (cnt s))) (s\<lparr>cnt := c, permits := permits s + n\<rparr>))"
proof -
  let ?k = "need_wake n (cnt s)"
  obtain hs where I: "running_holds (wq s) hs" "enqd s = resumed s @ hs"
    "unat (waiters (cnt s)) + sum_list (map wakes (thr s))
       = length hs + sum_list (map enqs (thr s)) + length (lost s)"
    "count (cnt s) = permits s - int (grants s)
       - int (length hs + sum_list (map enqs (thr s)) + length (lost s))"
    "int32_ok (count (cnt s))" "int (unat (waiters (cnt s))) \<le> max 0 (- count (cnt s))"
    by (rule sem_invE [OF inv])
  have c: "int32_ok (count (cnt s) + n)" "count c = count (cnt s) + n"
    "unat (waiters c) = unat (waiters (cnt s)) - unat ?k"
    using u by (simp_all add: release_update_Inr unat_waiters_minus)
  have t: "i < length (thr s)" "thr s ! i = SIdle" using idle by (simp_all add: idle_at_def)
  have w: "sum_list (map wakes ((thr s)[i := SWake ?k])) = sum_list (map wakes (thr s)) + unat ?k"
    "sum_list (map enqs ((thr s)[i := SWake ?k])) = sum_list (map enqs (thr s))"
    using thread_sums [OF t(1), of "SWake ?k"] t(2) by simp_all
  have "int (unat (waiters c)) \<le> max 0 (- count c)"
    using I(6) c(2,3) unat_need_wake [OF n, of "cnt s"] need_wake_le [of n "cnt s"]
    by (simp add: of_nat_diff)
  with I c w need_wake_le [of n "cnt s"] show ?thesis
    unfolding sem_inv_def by (intro exI [of _ hs]) simp
qed

lemma sem_inv_acquire:
  assumes inv: "sem_inv s" and idle: "idle_at s i" and u: "acquire_update (cnt s) = Inr c"
  shows "if need_wait (cnt s) then sem_inv (set_t i (SEnq h) (s\<lparr>cnt := c\<rparr>))
         else sem_inv (s\<lparr>cnt := c, grants := grants s + 1\<rparr>)"
proof -
  obtain hs where I: "running_holds (wq s) hs" "enqd s = resumed s @ hs"
    "unat (waiters (cnt s)) + sum_list (map wakes (thr s))
       = length hs + sum_list (map enqs (thr s)) + length (lost s)"
    "count (cnt s) = permits s - int (grants s)
       - int (length hs + sum_list (map enqs (thr s)) + length (lost s))"
    "int32_ok (count (cnt s))" "int (unat (waiters (cnt s))) \<le> max 0 (- count (cnt s))"
    by (rule sem_invE [OF inv])
  have c: "int32_ok (count (cnt s) - 1)" "count c = count (cnt s) - 1"
    "waiters c = (if need_wait (cnt s) then waiters (cnt s) + 1 else waiters (cnt s))"
    using u by (simp_all add: acquire_update_Inr)
  have t: "i < length (thr s)" "thr s ! i = SIdle" using idle by (simp_all add: idle_at_def)
  have w: "sum_list (map wakes ((thr s)[i := SEnq h])) = sum_list (map wakes (thr s))"
    "sum_list (map enqs ((thr s)[i := SEnq h])) = sum_list (map enqs (thr s)) + 1"
    using thread_sums [OF t(1), of "SEnq h"] t(2) by simp_all
  have p: "unat (waiters (cnt s) + 1) = unat (waiters (cnt s)) + 1"
    by (rule unat_waiters_plus [OF I(6,5)])
  show ?thesis
  proof (cases "need_wait (cnt s)")
    case True
    with I c w p show ?thesis unfolding sem_inv_def by (simp add: need_wait_def)
  next
    case False
    with I c show ?thesis unfolding sem_inv_def by (simp add: need_wait_def)
  qed
qed

lemma sem_inv_try:
  assumes inv: "sem_inv s" and u: "try_update (cnt s) = Inr c"
  shows "if count (cnt s) > 0 then sem_inv (s\<lparr>cnt := c, grants := grants s + 1\<rparr>)
         else sem_inv (s\<lparr>cnt := c\<rparr>)"
  using inv u unfolding sem_inv_def try_update_Inr
  by (auto split: if_splits)

lemma sem_inv_enqueue:
  assumes inv: "sem_inv s" and t: "i < length (thr s)" "thr s ! i = SEnq h"
    and fresh: "mem (wq s) n = None"
  shows "\<exists>q. enqueue (Some n) h (wq s) = Inr (True, q) \<and>
     sem_inv (set_t i SIdle (s\<lparr>wq := q, enqd := enqd s @ [h]\<rparr>))"
proof -
  obtain hs where I: "running_holds (wq s) hs" "enqd s = resumed s @ hs"
    "unat (waiters (cnt s)) + sum_list (map wakes (thr s))
       = length hs + sum_list (map enqs (thr s)) + length (lost s)"
    "count (cnt s) = permits s - int (grants s)
       - int (length hs + sum_list (map enqs (thr s)) + length (lost s))"
    "int32_ok (count (cnt s))" "int (unat (waiters (cnt s))) \<le> max 0 (- count (cnt s))"
    by (rule sem_invE [OF inv])
  have w: "sum_list (map wakes ((thr s)[i := SIdle])) = sum_list (map wakes (thr s))"
    "sum_list (map enqs ((thr s)[i := SIdle])) + 1 = sum_list (map enqs (thr s))"
    using thread_sums [OF t(1), of SIdle] t(2) by simp_all
  obtain q where q: "enqueue (Some n) h (wq s) = Inr (True, q)" "running_holds q (hs @ [h])"
    using aq.enq_ok [OF I(1) fresh] by blast
  with I w have "sem_inv (set_t i SIdle (s\<lparr>wq := q, enqd := enqd s @ [h]\<rparr>))"
    unfolding sem_inv_def by (intro exI [of _ "hs @ [h]"]) simp
  with q show ?thesis by blast
qed

lemma sem_inv_enqueue_lost:
  assumes inv: "sem_inv s" and t: "i < length (thr s)" "thr s ! i = SEnq h"
  shows "sem_inv (set_t i SIdle (s\<lparr>lost := lost s @ [h]\<rparr>))"
proof -
  have w: "sum_list (map wakes ((thr s)[i := SIdle])) = sum_list (map wakes (thr s))"
    "sum_list (map enqs ((thr s)[i := SIdle])) + 1 = sum_list (map enqs (thr s))"
    using thread_sums [OF t(1), of SIdle] t(2) by simp_all
  with inv show ?thesis unfolding sem_inv_def by auto
qed

lemma sem_inv_wake:
  assumes inv: "sem_inv s" and t: "i < length (thr s)" "thr s ! i = SWake k" and k: "k \<noteq> 0"
    and d: "wait_dequeue (wq s) = Inr (Returns r q)"
  shows "\<exists>h. r = Some h \<and>
     sem_inv (set_t i (SWake (k - 1)) (s\<lparr>wq := q, resumed := resumed s @ [h], grants := grants s + 1\<rparr>))"
proof -
  obtain hs where I: "running_holds (wq s) hs" "enqd s = resumed s @ hs"
    "unat (waiters (cnt s)) + sum_list (map wakes (thr s))
       = length hs + sum_list (map enqs (thr s)) + length (lost s)"
    "count (cnt s) = permits s - int (grants s)
       - int (length hs + sum_list (map enqs (thr s)) + length (lost s))"
    "int32_ok (count (cnt s))" "int (unat (waiters (cnt s))) \<le> max 0 (- count (cnt s))"
    by (rule sem_invE [OF inv])
  obtain h hs' where h: "r = Some h" "hs = h # hs'" "running_holds q hs'"
    using aq.wait_Returns [OF I(1) d] by blast
  have "unat (k - 1) + 1 = unat k" using k by (simp add: unat_gt_0 unat_minus_one)
  then have w: "sum_list (map wakes ((thr s)[i := SWake (k - 1)])) + 1 = sum_list (map wakes (thr s))"
    "sum_list (map enqs ((thr s)[i := SWake (k - 1)])) = sum_list (map enqs (thr s))"
    using thread_sums [OF t(1), of "SWake (k - 1)"] t(2) by simp_all
  from I w h have "sem_inv (set_t i (SWake (k - 1))
      (s\<lparr>wq := q, resumed := resumed s @ [h], grants := grants s + 1\<rparr>))"
    unfolding sem_inv_def by (intro exI [of _ hs']) simp
  with h show ?thesis by blast
qed

lemma sem_inv_done:
  assumes inv: "sem_inv s" and t: "i < length (thr s)" "thr s ! i = SWake 0"
  shows "sem_inv (set_t i SIdle s)"
proof -
  have "sum_list (map wakes ((thr s)[i := SIdle])) = sum_list (map wakes (thr s))"
    "sum_list (map enqs ((thr s)[i := SIdle])) = sum_list (map enqs (thr s))"
    using thread_sums [OF t(1), of SIdle] t(2) by simp_all
  with inv show ?thesis unfolding sem_inv_def by simp
qed

lemma sem_inv_bad [simp]: "sem_inv (s\<lparr>sem_bad := b\<rparr>) = sem_inv s"
  by (simp add: sem_inv_def)

lemma add_count_Inl: "add_count n c = Inl e \<Longrightarrow> e = SignedOverflow"
  by (auto simp: add_count_def split: if_splits)

lemma updates_Inl:
  "release_update n c = Inl e \<Longrightarrow> e = SignedOverflow"
  "acquire_update c = Inl e \<Longrightarrow> e = SignedOverflow"
  "try_update c = Inl e \<Longrightarrow> e = SignedOverflow"
  by (auto simp: release_update_def acquire_update_def try_update_def add_count_def split: if_splits)

lemma sem_ok_enqueue:
  assumes ok: "sem_ok s" and st: "sem_act (Enqueue i alloc) s = Some s'"
  shows "sem_ok s'"
proof -
  have inv: "sem_inv s" using ok by (simp add: sem_ok_def)
  obtain h where t: "i < length (thr s)" "thr s ! i = SEnq h"
    using st by (auto split: if_splits spc.splits)
  show ?thesis
  proof (cases alloc)
    case None
    with st t ok sem_inv_enqueue_lost [OF inv t] show ?thesis
      by (auto simp: enqueue_alloc_failed sem_ok_def)
  next
    case (Some n)
    with st t have fresh: "mem (wq s) n = None" by (auto split: if_splits)
    from sem_inv_enqueue [OF inv t fresh] st t Some fresh ok show ?thesis
      by (auto simp: sem_ok_def)
  qed
qed

lemma sem_ok_wake:
  assumes ok: "sem_ok s" and st: "sem_act (Wake i) s = Some s'"
  shows "sem_ok s'"
proof -
  have inv: "sem_inv s" using ok by (simp add: sem_ok_def)
  obtain k where t: "i < length (thr s)" "thr s ! i = SWake k" and k: "k \<noteq> 0"
    using st by (auto split: if_splits spc.splits)
  obtain hs where q: "running_holds (wq s) hs" by (rule sem_invE [OF inv])
  have "\<exists>r. wait_dequeue (wq s) = Inr r" using aq.wait_not_fault [OF q] by (cases "wait_dequeue (wq s)") auto
  then obtain r where r: "wait_dequeue (wq s) = Inr r" by blast
  show ?thesis
  proof (cases r)
    case (Returns x q)
    with r have d: "wait_dequeue (wq s) = Inr (Returns x q)" by simp
    from sem_inv_wake [OF inv t k d] st t k d ok show ?thesis
      by (auto simp: sem_ok_def)
  qed (use st t k r in auto)
qed

lemma sem_ok_step: "sem_ok s \<Longrightarrow> sem_step a s = Some s' \<Longrightarrow> sem_ok s'"
proof -
  assume ok: "sem_ok s" and "sem_step a s = Some s'"
  then have st: "sem_act a s = Some s'" by (simp add: sem_step_def split: if_splits)
  have inv: "sem_inv s" using ok by (simp add: sem_ok_def)
  show "sem_ok s'"
  proof (cases a)
    case (Release i n)
    with st have "idle_at s i" "int32_ok n" by (auto split: if_splits)
    with Release st ok sem_inv_release [OF inv] show ?thesis
      by (auto simp: sem_ok_def with_cnt_def split: sum.splits dest: updates_Inl)
  next
    case (Acquire i h)
    with st have "idle_at s i" by (auto split: if_splits)
    with Acquire st ok sem_inv_acquire [OF inv this, of _ h] show ?thesis
      by (auto simp: sem_ok_def with_cnt_def split: sum.splits if_splits dest: updates_Inl)
  next
    case (TryAcquire i)
    with st ok sem_inv_try [OF inv] show ?thesis
      by (auto simp: sem_ok_def with_cnt_def split: sum.splits if_splits dest: updates_Inl)
  next
    case (Enqueue i alloc)
    with st ok show ?thesis by (simp only: sem_ok_enqueue)
  next
    case (Wake i)
    with st ok show ?thesis by (simp only: sem_ok_wake)
  next
    case (WakeDone i)
    with st ok sem_inv_done [OF inv, of i] show ?thesis
      by (auto simp: sem_ok_def split: if_splits spc.splits)
  qed
qed

lemma sem_ok_init: "int32_ok init \<Longrightarrow> sem_ok (sem_init init threads stub)"
  by (simp add: sem_ok_def sem_inv_init) (simp add: sem_init_def)

interpretation smachine: machine_inv sem_step "sem_init init threads stub" "\<lambda>s. int32_ok init \<longrightarrow> sem_ok s"
  for init threads stub
  by unfold_locales (auto intro: sem_ok_init sem_ok_step)

lemma reachable_sem_inv:
  "reachable sem_step (sem_init init threads stub) s \<Longrightarrow> int32_ok init \<Longrightarrow> sem_inv s"
  by (drule smachine.reachable_inv) (simp add: sem_ok_def)

section \<open>The loops\<close>

lemma release_loop_sound:
  assumes "release_loop n e m script = Some (Inr (old, new, k))"
  shows "(\<exists>j < length script. old = fold fst (take (Suc j) script) m) \<and> int32_ok (count old + n) \<and>
      new = \<lparr>count = count old + n, waiters = waiters old - k\<rparr> \<and> k = need_wake n old"
proof -
  have l: "cas_loop (release_update n) e m script = Some (Inr (old, new))" and "k = need_wake n old"
    using assms by (auto simp: release_loop_def split: option.splits sum.splits)
  with cas_loop_current [OF l] cas_loop_atomic [OF l] show ?thesis by (simp add: release_update_Inr)
qed

lemma try_acquire_loop_sound:
  assumes "try_acquire_loop e m script = Some (Inr (old, new, b))"
  shows "(\<exists>j < length script. old = fold fst (take (Suc j) script) m) \<and> b = (count old > 0) \<and>
      new = (if b then old\<lparr>count := count old - 1\<rparr> else old)"
proof -
  have l: "cas_loop try_update e m script = Some (Inr (old, new))" and "b = (count old > 0)"
    using assms by (auto simp: try_acquire_loop_def split: option.splits sum.splits)
  with cas_loop_current [OF l] cas_loop_atomic [OF l] show ?thesis by (simp add: try_update_Inr)
qed

lemma acquire_loop_sound:
  assumes "acquire_loop e m script = Some (Inr (old, new, b))"
  shows "(\<exists>j < length script. old = fold fst (take (Suc j) script) m) \<and> b = (count old \<le> 0) \<and>
      new = \<lparr>count = count old - 1, waiters = (if b then waiters old + 1 else waiters old)\<rparr>"
proof -
  have l: "cas_loop acquire_update e m script = Some (Inr (old, new))" and b: "b = need_wait old"
    using assms by (auto simp: acquire_loop_def split: option.splits sum.splits)
  from b have "b = (count old \<le> 0)" by (auto simp: need_wait_def)
  with b cas_loop_current [OF l] cas_loop_atomic [OF l] show ?thesis by (simp add: acquire_update_Inr)
qed

lemma loops_return:
  "(\<exists>r. release_loop n e m (script @ [(id, False), (id, False)]) = Some r) \<and>
   (\<exists>r. try_acquire_loop e m (script @ [(id, False), (id, False)]) = Some r) \<and>
   (\<exists>r. acquire_loop e m (script @ [(id, False), (id, False)]) = Some r)"
  using cas_loop_returns [of "release_update n" e m script] cas_loop_returns [of try_update e m script]
    cas_loop_returns [of acquire_update e m script]
  by (auto simp: release_loop_def try_acquire_loop_def acquire_loop_def split: sum.splits)

text \<open>
  The three retry loops are atomic and lock-free. Whatever the other threads do to
  the counter between the attempts and however often the weak exchange fails spuriously,
  a loop that ends has replaced the counter's current value by the update of that very
  value, its decision (how many to wake, whether it got a permit, whether it must wait)
  is the one for that value, and two attempts without interference end it.
\<close>

theorem sem_loops_atomic:
  "(release_loop n e m script = Some (Inr (old, new, k)) \<longrightarrow>
      (\<exists>j < length script. old = fold fst (take (Suc j) script) m) \<and> int32_ok (count old + n) \<and>
      new = \<lparr>count = count old + n, waiters = waiters old - k\<rparr> \<and> k = need_wake n old) \<and>
   (try_acquire_loop e m script = Some (Inr (old, new, b)) \<longrightarrow>
      (\<exists>j < length script. old = fold fst (take (Suc j) script) m) \<and> b = (count old > 0) \<and>
      new = (if b then old\<lparr>count := count old - 1\<rparr> else old)) \<and>
   (acquire_loop e m script = Some (Inr (old, new, b)) \<longrightarrow>
      (\<exists>j < length script. old = fold fst (take (Suc j) script) m) \<and> b = (count old \<le> 0) \<and>
      new = \<lparr>count = count old - 1, waiters = (if b then waiters old + 1 else waiters old)\<rparr>) \<and>
   (\<exists>r. release_loop n e m (script @ [(id, False), (id, False)]) = Some r) \<and>
   (\<exists>r. try_acquire_loop e m (script @ [(id, False), (id, False)]) = Some r) \<and>
   (\<exists>r. acquire_loop e m (script @ [(id, False), (id, False)]) = Some r)"
  using release_loop_sound [of n e m script old new k] try_acquire_loop_sound [of e m script old new b]
    acquire_loop_sound [of e m script old new b] loops_return [of n e m script] by blast

theorem sem_loops_atomic_witness:
  "\<exists>j < 2. (\<lparr>count = -1, waiters = 3\<rparr> :: counter) = fold fst (take (Suc j)
     [(\<lambda>c. c\<lparr>count := -1, waiters := 3\<rparr>, False), (id, False)]) \<lparr>count = 1, waiters = 0\<rparr>"
proof -
  have "release_loop 2 \<lparr>count = 1, waiters = 0\<rparr> \<lparr>count = 1, waiters = 0\<rparr>
      [(\<lambda>c. c\<lparr>count := -1, waiters := 3\<rparr>, False), (id, False)]
    = Some (Inr (\<lparr>count = -1, waiters = 3\<rparr>, \<lparr>count = 1, waiters = 1\<rparr>, 2))"
    by (simp add: release_loop_def release_update_def add_count_def int32_ok_def need_wake_def)
  from sem_loops_atomic [THEN conjunct1, THEN mp, OF this] show ?thesis
    by (simp only: list.size numeral_2_eq_2 One_nat_def add_0 add_Suc_right add_0_right)
qed

section \<open>Permits\<close>

text \<open>Without negative releases every waiter is accounted for by a missing permit.\<close>

definition exact :: "sem \<Rightarrow> bool" where
  "exact s \<longleftrightarrow> int (unat (waiters (cnt s))) = max 0 (- count (cnt s))"

fun nonneg_act :: "sact \<Rightarrow> bool" where
  "nonneg_act (Release i n) = (0 \<le> n)"
| "nonneg_act a = True"

lemma exact_step:
  assumes ok: "sem_ok s" and ex: "exact s" and st: "sem_step a s = Some s'" and nn: "nonneg_act a"
  shows "exact s'"
proof -
  have st: "sem_act a s = Some s'" using st by (simp add: sem_step_def split: if_splits)
  have inv: "sem_inv s" using ok by (simp add: sem_ok_def)
  show ?thesis
  proof (cases a)
    case (Release i n)
    show ?thesis
    proof (cases "release_update n (cnt s)")
      case (Inr c)
      with release_update_Inr [THEN iffD1, OF Inr] Release st nn ex unat_need_wake [of n "cnt s"]
        need_wake_le [of n "cnt s"] show ?thesis
        by (auto simp: exact_def with_cnt_def unat_waiters_minus of_nat_diff split: if_splits)
    next
      case (Inl e)
      with Release st ex show ?thesis by (auto simp: exact_def with_cnt_def split: if_splits)
    qed
  next
    case (Acquire i h)
    obtain hs where "int32_ok (count (cnt s))" "int (unat (waiters (cnt s))) \<le> max 0 (- count (cnt s))"
      by (rule sem_invE [OF inv])
    then have w: "unat (waiters (cnt s) + 1) = unat (waiters (cnt s)) + 1"
      by (intro unat_waiters_plus)
    show ?thesis
    proof (cases "acquire_update (cnt s)")
      case (Inr c)
      with acquire_update_Inr [THEN iffD1, OF Inr] Acquire st ex w show ?thesis
        by (auto simp: exact_def with_cnt_def need_wait_def split: if_splits)
    next
      case (Inl e)
      with Acquire st ex show ?thesis by (auto simp: exact_def with_cnt_def split: if_splits)
    qed
  next
    case (TryAcquire i)
    show ?thesis
    proof (cases "try_update (cnt s)")
      case (Inr c)
      with try_update_Inr [THEN iffD1, OF Inr] TryAcquire st ex show ?thesis
        by (auto simp: exact_def with_cnt_def split: if_splits)
    next
      case (Inl e)
      with TryAcquire st ex show ?thesis by (auto simp: exact_def with_cnt_def split: if_splits)
    qed
  qed (use st ex in \<open>auto simp: exact_def split: if_splits spc.splits sum.splits prod.splits
        bool.splits wait_result.splits option.splits\<close>)
qed

lemma exact_init: "0 \<le> init \<Longrightarrow> exact (sem_init init threads stub)"
  by (simp add: exact_def sem_init_def)

interpretation exact_machine: machine_inv_on sem_step nonneg_act "sem_init init threads stub"
    "\<lambda>s. int32_ok init \<and> 0 \<le> init \<longrightarrow> sem_ok s \<and> exact s"
  for init threads stub
  by unfold_locales (auto intro: sem_ok_init exact_init sem_ok_step exact_step)

text \<open>
  The books under every interleaving of acquire, release, enqueue and wake steps: the only
  fault is the overflow of the \<open>int\<close> count, which is exactly the initial count plus all
  releases less the acquisitions that went through and the waiters in the queue, on their way
  to it or lost; waiters are resumed in the order in which they were queued; and
  \<open>waiters\<close> never wraps.
\<close>

lemma sem_books:
  assumes "reachable sem_step (sem_init init threads stub) s" and "int32_ok init"
  shows "(sem_bad s = None \<or> sem_bad s = Some SignedOverflow) \<and> unat (waiters (cnt s)) \<le> 2 ^ 31 \<and>
    (\<exists>hs. running_holds (wq s) hs \<and> enqd s = resumed s @ hs \<and>
      unat (waiters (cnt s)) + sum_list (map wakes (thr s))
        = length hs + sum_list (map enqs (thr s)) + length (lost s) \<and>
      count (cnt s) = permits s - int (grants s)
        - int (length hs + sum_list (map enqs (thr s)) + length (lost s)))"
proof -
  have inv: "sem_inv s" and "sem_bad s = None \<or> sem_bad s = Some SignedOverflow"
    using smachine.reachable_inv [OF assms(1)] assms(2) by (simp_all add: sem_ok_def)
  moreover have "unat (waiters (cnt s)) \<le> 2 ^ 31"
    using inv by (auto simp: sem_inv_def int32_ok_def max_def split: if_splits)
  ultimately show ?thesis by (auto elim!: sem_invE)
qed

lemmas sem_eval = sem_step_def sem_init_def idle_at_def set_t_def with_cnt_def release_update_def
  acquire_update_def try_update_def add_count_def need_wake_def need_wait_def int32_ok_def
  enqueue_def wait_dequeue_def pop_front_def new_queue_def alloc_node_def take_value_def
  value_node_def stub_node_def store_next_def load_next_def delete_node_def Let_def

definition sem_demo :: "sact list" where
  "sem_demo = [Acquire 0 10, Acquire 1 11, Enqueue 1 (Some 5), Release 0 1, Wake 0, WakeDone 0]"

lemma sem_demo_runs:
  "\<exists>s. run sem_step sem_demo (sem_init 1 2 0) = Some s \<and> resumed s = [11] \<and> grants s = 2 \<and>
     permits s = 2 \<and> thr s = [SIdle, SIdle] \<and> lost s = [] \<and> count (cnt s) = 0"
  by (simp add: sem_demo_def sem_eval numeral_2_eq_2)

lemma sem_ok_exact_grants:
  assumes "sem_inv s" and "exact s"
  shows "int (grants s) + int (sum_list (map wakes (thr s))) \<le> permits s"
  using assms by (elim sem_invE) (auto simp: exact_def max_def split: if_splits)

text \<open>
  Mutual exclusion by permits: with an initial count that is not negative and releases
  of non-negative amounts, the acquisitions that have gone through, together with the
  wake-ups already promised to waiters, never exceed the initial count plus what was
  released.
\<close>

theorem semaphore_never_overcommits:
  assumes "run sem_step as (sem_init init threads stub) = Some s"
    and "int32_ok init" and "0 \<le> init" and "\<forall>a \<in> set as. nonneg_act a"
  shows "int (grants s) + int (sum_list (map wakes (thr s))) \<le> permits s"
proof -
  have "sem_ok s \<and> exact s"
    using exact_machine.init_run_inv_on [OF assms(1)] assms(2-4) by blast
  then show ?thesis by (auto simp: sem_ok_def intro: sem_ok_exact_grants)
qed

theorem semaphore_never_overcommits_witness:
  "\<exists>s. run sem_step sem_demo (sem_init 1 2 0) = Some s \<and> grants s = 2 \<and>
     int (grants s) + int (sum_list (map wakes (thr s))) \<le> permits s"
proof -
  obtain s where s: "run sem_step sem_demo (sem_init 1 2 0) = Some s" "grants s = 2"
    using sem_demo_runs by blast
  from semaphore_never_overcommits [OF s(1)] s(2) s(1) show ?thesis
    by (auto simp: int32_ok_def sem_demo_def)
qed

section \<open>No waiter is forgotten\<close>

text \<open>
  When every thread is out of \<open>acquire\<close> and \<open>release\<close> and no node allocation has failed,
  the coroutines left in the queue are as many as the count is below zero: a coroutine stays
  suspended only if every permit ever provided has been taken, and the counter's \<open>waiters\<close>
  field is the length of the queue.
\<close>

lemma sem_at_rest:
  assumes "run sem_step as (sem_init init threads stub) = Some s"
    and "int32_ok init" and "0 \<le> init" and "\<forall>a \<in> set as. nonneg_act a"
    and "\<forall>pc \<in> set (thr s). pc = SIdle" and "lost s = []"
  shows "\<exists>hs. running_holds (wq s) hs \<and> enqd s = resumed s @ hs \<and>
    length hs = unat (waiters (cnt s)) \<and> int (length hs) = max 0 (- count (cnt s)) \<and>
    (hs \<noteq> [] \<longrightarrow> int (grants s) = permits s)"
proof -
  have "sem_ok s \<and> exact s"
    using exact_machine.init_run_inv_on [OF assms(1)] assms(2-4) by blast
  then have inv: "sem_inv s" and ex: "exact s" by (simp_all add: sem_ok_def)
  have z: "sum_list (map wakes (thr s)) = 0" "sum_list (map enqs (thr s)) = 0"
    using assms(5) by (auto intro!: sum_map_zero)
  obtain hs where "running_holds (wq s) hs" "enqd s = resumed s @ hs"
    and w: "unat (waiters (cnt s)) = length hs" and c: "count (cnt s) = permits s - int (grants s) - int (length hs)"
    using sem_invE [OF inv] unfolding z assms(6) list.size by (metis add.right_neutral)
  moreover have "int (length hs) = max 0 (- count (cnt s))" using ex w by (simp add: exact_def)
  moreover from this c have "hs \<noteq> [] \<longrightarrow> int (grants s) = permits s"
    by (auto simp: max_def split: if_splits)
  ultimately show ?thesis by (intro exI [of _ hs]) simp
qed

lemma waker_progress_inv:
  assumes inv: "sem_inv s" and bad: "sem_bad s = None" and lost: "lost s = []"
    and t: "i < length (thr s)" "thr s ! i = SWake k" "k \<noteq> 0"
  shows "(\<exists>s' h. sem_step (Wake i) s = Some s' \<and> sem_bad s' = None \<and> resumed s' = resumed s @ [h]) \<or>
    (\<exists>j h s'. j < length (thr s) \<and> thr s ! j = SEnq h \<and>
       sem_step (Enqueue j None) s = Some s' \<and> (\<forall>n. mem (wq s) n = None \<longrightarrow>
         (\<exists>s''. sem_step (Enqueue j (Some n)) s = Some s'' \<and> sem_bad s'' = None \<and> enqd s'' = enqd s @ [h])))"
proof -
  obtain hs where h: "running_holds (wq s) hs" and w: "unat (waiters (cnt s)) + sum_list (map wakes (thr s))
      = length hs + sum_list (map enqs (thr s))"
    using sem_invE [OF inv] lost by (metis add.right_neutral list.size(3))
  show ?thesis
  proof (cases "hs = []")
    case False
    from aq.wait_enabled [OF h this] obtain x q where "wait_dequeue (wq s) = Inr (Returns (Some x) q)" by blast
    with t bad show ?thesis by (auto simp: sem_step_def)
  next
    case True
    have "0 < unat k" using t(3) by (simp add: unat_gt_0)
    then have "0 < sum_list (map wakes (thr s))"
      using nth_le_sum_map [OF t(1), of wakes] t(2) by simp
    with w True have "0 < sum_list (map enqs (thr s))" by simp
    then obtain j where j: "j < length (thr s)" "0 < enqs (thr s ! j)" using sum_map_pos by blast
    then obtain x where x: "thr s ! j = SEnq x" by (cases "thr s ! j") auto
    have "\<exists>s''. sem_step (Enqueue j (Some n)) s = Some s'' \<and> sem_bad s'' = None \<and> enqd s'' = enqd s @ [x]"
      if "mem (wq s) n = None" for n
      using aq.enq_ok [OF h that, of x] j(1) x bad that by (auto simp: sem_step_def)
    moreover have "\<exists>s'. sem_step (Enqueue j None) s = Some s'"
      using j(1) x bad by (simp add: sem_step_def enqueue_alloc_failed)
    ultimately show ?thesis using j(1) x by blast
  qed
qed

text \<open>
  A releaser that still owes a wake-up is blocked only by an acquirer that is on its
  way to the queue: as long as the machine has not faulted and no node allocation has
  failed, either its next wake-up is enabled and resumes a coroutine, or some thread has
  counted its wait and not yet enqueued its handle, and that thread can take its step.
\<close>

theorem waker_progress:
  assumes "reachable sem_step (sem_init init threads stub) s" and "int32_ok init"
    and "sem_bad s = None" and "lost s = []"
    and "i < length (thr s)" and "thr s ! i = SWake k" and "k \<noteq> 0"
  shows "(\<exists>s' h. sem_step (Wake i) s = Some s' \<and> sem_bad s' = None \<and> resumed s' = resumed s @ [h]) \<or>
    (\<exists>j h s'. j < length (thr s) \<and> thr s ! j = SEnq h \<and>
       sem_step (Enqueue j None) s = Some s' \<and> (\<forall>n. mem (wq s) n = None \<longrightarrow>
         (\<exists>s''. sem_step (Enqueue j (Some n)) s = Some s'' \<and> sem_bad s'' = None \<and> enqd s'' = enqd s @ [h])))"
  using waker_progress_inv [OF reachable_sem_inv [OF assms(1,2)] assms(3-7)] .

theorem waker_progress_witness:
  "\<exists>s. run sem_step [Acquire 0 10, Acquire 1 11, Release 0 1] (sem_init 1 2 0) = Some s \<and>
     thr s ! 0 = SWake 1 \<and> sem_step (Wake 0) s = None \<and> (\<exists>j h. thr s ! j = SEnq h)"
proof -
  obtain s where s: "run sem_step [Acquire 0 10, Acquire 1 11, Release 0 1] (sem_init 1 2 0) = Some s"
    and p: "sem_bad s = None" "lost s = []" "0 < length (thr s)" "thr s ! 0 = SWake 1"
      "sem_step (Wake 0) s = None"
    by (simp add: sem_eval numeral_2_eq_2)
  have "int32_ok 1" "(1 :: u32) \<noteq> 0" by (simp_all add: int32_ok_def)
  from waker_progress [OF reachable_run [OF s] this(1) p(1-4) this(2)] s p show ?thesis by auto
qed

section \<open>The lost waiter\<close>

text \<open>
  \<open>acquire_helper\<close> ignores the result of \<open>enqueue\<close>. When the node of a waiter
  cannot be allocated the coroutine stays suspended, counted in \<open>waiters\<close> and in no
  queue; the next \<open>release\<close> waits for it for ever: no action of any thread is left that
  could wake the releaser, and the handle is neither queued nor resumed.
\<close>

theorem lost_waiter_blocks_release:
  "\<exists>s. run sem_step [Acquire 0 10, Enqueue 0 None, Release 1 1] (sem_init 0 2 0) = Some s \<and>
     lost s = [10] \<and> resumed s = [] \<and> enqd s = [] \<and> thr s = [SIdle, SWake 1] \<and>
     sem_bad s = None \<and> sem_step (Wake 1) s = None \<and> sem_step (WakeDone 1) s = None"
  by (simp add: sem_eval numeral_2_eq_2)

section \<open>Destruction\<close>

text \<open>
  \<open>~CountingSemaphore\<close> destroys the coroutines that still wait, then the queue member
  destroys itself. The result lists the frames destroyed.
\<close>

fun sem_destroy_loop :: "nat \<Rightarrow> handle queue \<Rightarrow> (fault + handle list \<times> handle queue) option" where
  "sem_destroy_loop 0 q = None"
| "sem_destroy_loop (Suc fuel) q = (case try_dequeue q of
     Inl e \<Rightarrow> Some (Inl e)
   | Inr (None, q') \<Rightarrow> Some (Inr ([], q'))
   | Inr (Some h, q') \<Rightarrow> (case sem_destroy_loop fuel q' of
        Some (Inr (hs, r)) \<Rightarrow> Some (Inr (h # hs, r))
      | r \<Rightarrow> r))"

definition sem_destroy :: "nat \<Rightarrow> handle queue \<Rightarrow> (fault + handle list \<times> handle queue) option" where
  "sem_destroy fuel q = (case sem_destroy_loop fuel q of
     Some (Inr (hs, q)) \<Rightarrow> (case destroy fuel q of
        Some (Inr q') \<Rightarrow> Some (Inr (hs, q')) | Some (Inl e) \<Rightarrow> Some (Inl e) | None \<Rightarrow> None)
   | r \<Rightarrow> r)"

lemma sem_destroy_loop_holds:
  "running_holds q hs \<Longrightarrow> length hs < fuel \<Longrightarrow>
   \<exists>q'. sem_destroy_loop fuel q = Some (Inr (hs, q')) \<and> running_holds q' []"
proof (induction fuel arbitrary: q hs)
  case (Suc fuel)
  show ?case
  proof (cases hs)
    case Nil
    with Suc.prems aq.deq_empty [of q] show ?thesis by simp
  next
    case (Cons x xs)
    with Suc.prems aq.deq_ok [of q x xs] obtain q' where q': "try_dequeue q = Inr (Some x, q')" "running_holds q' xs"
      by blast
    with Suc.IH [OF q'(2)] Suc.prems(2) Cons show ?thesis by auto
  qed
qed simp

text \<open>
  Destroying a semaphore that no thread uses any more destroys the coroutines that are queued,
  each once and in queue order, and frees every node of the queue; a number of iterations larger
  than the queue is enough.
\<close>

lemma sem_destroy_holds:
  assumes "running_holds q hs" and "length hs < fuel"
  shows "\<exists>q'. sem_destroy fuel q = Some (Inr (hs, q')) \<and> mem q' = Map.empty"
proof -
  from sem_destroy_loop_holds [OF assms] obtain r where r: "sem_destroy_loop fuel q = Some (Inr (hs, r))"
    "running_holds r []" by blast
  from r(2) have "holds r []" by (simp add: running_holds_def)
  from destroy_frees_all [OF this, of fuel] assms(2) obtain q' where
    "destroy fuel r = Some (Inr q')" "mem q' = Map.empty" by auto
  with r(1) show ?thesis by (auto simp: sem_destroy_def)
qed

section \<open>Mutex\<close>

text \<open>
  \<open>Mutex\<close> is a semaphore of one permit: \<open>lock\<close>, \<open>try_lock\<close> and \<open>unlock\<close> are
  \<open>acquire\<close>, \<open>try_acquire\<close> and \<open>release(1)\<close>. The other actions are steps inside them.
\<close>

definition mutex_init :: "nat \<Rightarrow> addr \<Rightarrow> sem" where
  "mutex_init threads stub = sem_init 1 threads stub"

definition lock :: "nat \<Rightarrow> handle \<Rightarrow> sact" where "lock i h = Acquire i h"
definition try_lock :: "nat \<Rightarrow> sact" where "try_lock i = TryAcquire i"
definition unlock :: "nat \<Rightarrow> sact" where "unlock i = Release i 1"

fun mutex_act :: "sact \<Rightarrow> bool" where
  "mutex_act (Release i n) = (n = 1)"
| "mutex_act a = True"

fun is_unlock :: "sact \<Rightarrow> bool" where
  "is_unlock (Release i n) = True"
| "is_unlock a = False"

lemma permits_step:
  "sem_step a s = Some s' \<Longrightarrow> mutex_act a \<Longrightarrow>
   permits s' \<le> permits s + int (length (filter is_unlock [a]))"
  by (cases a) (auto simp: sem_step_def with_cnt_def set_t_def split: if_splits sum.splits spc.splits
      prod.splits bool.splits wait_result.splits option.splits)

lemma run_permits:
  "run sem_step as s = Some s' \<Longrightarrow> \<forall>a \<in> set as. mutex_act a \<Longrightarrow>
   permits s' \<le> permits s + int (length (filter is_unlock as))"
proof (induction as arbitrary: s)
  case (Cons a as)
  then obtain r where r: "sem_step a s = Some r" "run sem_step as r = Some s'"
    by (auto split: option.splits)
  with Cons.IH [OF r(2)] Cons.prems permits_step [OF r(1)] show ?case by auto
qed simp

lemma mutex_act_nonneg: "mutex_act a \<Longrightarrow> nonneg_act a"
  by (cases a) auto

text \<open>
  The lock has been handed out at most once more than it has been given back, the hand-overs
  that an unlock still owes counted in.
\<close>

lemma mutex_grants:
  assumes "run sem_step as (mutex_init threads stub) = Some s" and "\<forall>a \<in> set as. mutex_act a"
  shows "grants s + sum_list (map wakes (thr s)) \<le> 1 + length (filter is_unlock as)"
proof -
  have "sem_ok s \<and> exact s"
    using exact_machine.init_run_inv_on [of as 1 threads stub s] assms
    by (auto simp: mutex_init_def int32_ok_def intro: mutex_act_nonneg)
  then have "int (grants s) + int (sum_list (map wakes (thr s))) \<le> permits s"
    by (auto simp: sem_ok_def intro: sem_ok_exact_grants)
  moreover have "permits s \<le> 1 + int (length (filter is_unlock as))"
    using run_permits [OF assms] by (simp add: mutex_init_def) (simp add: sem_init_def)
  ultimately show ?thesis by linarith
qed

end
