(* ===== verification/Queue_Steps.thy ===== *)
theory Queue_Steps
  imports Queue_Concurrent
begin

text \<open>
  What one access of a caller does to the logs of the queue of \<open>container/queue.hpp\<close>: the facts
  that the clients of the concurrent queue share (the stress test, the waiter queue of the
  semaphores).
\<close>

section \<open>A producer inside \<open>enqueue\<close>\<close>

fun has_sent :: "'a ppc \<Rightarrow> bool" where
  "has_sent (PLink t n) = True" | "has_sent PNotify = True" | "has_sent (PRet b) = b" | "has_sent pc = False"

text \<open>A call that has not met a stopped queue and carries the value given.\<close>

fun carries :: "'a \<Rightarrow> 'a ppc \<Rightarrow> bool" where
  "carries v (PHave n w) = (w = v)" | "carries v (PTail n w t) = (w = v \<and> t \<noteq> None)"
| "carries v PIdle = False" | "carries v (PRet b) = b" | "carries v pc = True"

lemma enqueue_step_effect:
  assumes "enqueue_step i sp s (prods s i) = Some s'" and "bad s' = None" and "m_tail (que s) \<noteq> None"
    and "carries v (prods s i)"
  shows "carries v (prods s' i) \<and> (\<forall>j. j \<noteq> i \<longrightarrow> prods s' j = prods s j) \<and> conss s' = conss s \<and> owner s' = owner s \<and>
    recvd s' = recvd s \<and> m_tail (que s') \<noteq> None \<and>
    (sent s' = sent s \<and> has_sent (prods s' i) = has_sent (prods s i) \<or>
     sent s' = sent s @ [v] \<and> \<not> has_sent (prods s i) \<and> has_sent (prods s' i))"
  using assms
  by (cases "(i, sp, s, prods s i)" rule: enqueue_step.cases)
     (auto simp: after_def store_next_def split: sum.splits option.splits if_splits)

section \<open>A consumer inside \<open>try_dequeue\<close> or \<open>wait_dequeue\<close>\<close>

lemma wait_loop_step:
  "wait_step c s (WLoop h t next) = Some s' \<Longrightarrow>
   (\<exists>n. s' = set_c c (Take h n) s) \<or> s' = ret_c c None s \<or> s' = (set_c c (WBlocked h) s)\<lparr>owner := None\<rparr> \<or>
   s' = set_c c (WTail2 h None) s"
  by (cases "next") (auto split: option.splits if_splits)

lemma consumer_step_effect:
  assumes "consumer_step c s = Some s'" and "bad s' = None"
  shows "prods s' = prods s \<and> (\<forall>d. d \<noteq> c \<longrightarrow> conss s' d = conss s d) \<and> sent s' = sent s \<and>
    m_tail (que s') = m_tail (que s) \<and> \<not> c_idle (conss s c) \<and>
    (recvd s' = recvd s \<and> (\<forall>v. conss s' c \<noteq> CRet (Some v)) \<or>
     (\<exists>v. recvd s' = recvd s @ [v] \<and> conss s' c = CRet (Some v)))"
  using assms
  by (cases "conss s c")
     (auto simp: consumer_step_def after_def load_head_def ret_c_def delete_node_def take_value_def c_idle_def
       split: sum.splits option.splits if_splits dest!: wait_loop_step)

text \<open>
  A consumer inside \<open>wait_dequeue\<close> that has seen no null tail, the mark of a stopped queue: it
  cannot answer nothing.
\<close>

fun expecting :: "'a cpc \<Rightarrow> bool" where
  "expecting CIdle = False" | "expecting THead = False" | "expecting (TNext h) = False"
| "expecting (WNext h t) = (t \<noteq> None)" | "expecting (WLoop h t next) = (t \<noteq> None)"
| "expecting (CRet r) = (r \<noteq> None)" | "expecting pc = True"

lemma consumer_step_expecting:
  assumes "consumer_step c s = Some s'" and "bad s' = None" and "m_tail (que s) \<noteq> None" and "expecting (conss s c)"
  shows "expecting (conss s' c)"
proof (cases "conss s c")
  case (WLoop h t nxt)
  with assms show ?thesis
    by (cases nxt; cases t) (auto simp: consumer_step_def ret_c_def split: if_splits)
qed (use assms in \<open>auto simp: consumer_step_def after_def load_head_def ret_c_def
       split: sum.splits option.splits if_splits\<close>)

section \<open>Reachable queues\<close>

lemma not_bad: "reachable qstep (qsys_init stub) q \<Longrightarrow> bad q = None"
  by (drule qmachine.reachable_inv) (auto simp: qinv_def qinv_at_def)

lemma recvd_prefix: "reachable qstep (qsys_init stub) q \<Longrightarrow> \<exists>pend. sent q = recvd q @ pend"
  by (drule qmachine.reachable_inv) (auto simp: qinv_def qinv_at_def val_inv_def split: if_splits)

text \<open>What the consumer reads when no producer is between its exchange and its link.\<close>

lemma linked_second:
  assumes inv: "qinv_at q ch" and none: "\<And>i. link_of (prods q i) = None" and hand: "\<not> in_hand (holder q)"
    and snt: "sent q = recvd q @ v # pend"
  shows "\<exists>n. nx (mem (que q)) (hd ch) = Some n"
proof -
  note D = qinv_atD [OF inv]
  obtain h p where p: "map (vl (mem (que q))) ch = h # map Some p" "sent q = recvd q @ p"
    using D(11) hand by (auto simp: val_inv_def)
  with snt have "length ch = Suc (Suc (length pend))" by (metis append_eq_append_conv length_Cons length_map same_append_eq)
  then have "Suc 0 < length ch" by simp
  from link_invD(1) [OF D(7) this] none D(2) show ?thesis by (auto simp: hd_conv_nth)
qed

end
