(* ===== verification/Semaphore_Queue.thy ===== *)
theory Semaphore_Queue
  imports Semaphore Queue_Steps
begin

text \<open>
  \<open>sync.hpp\<close> over the real queue: the semaphore whose waiters go through the queue of
  \<open>Queue_Concurrent\<close> one access at a time, where \<open>Semaphore\<close> takes each call of the queue as one
  action. Every run of this machine is a run of that one, so what \<open>Semaphore\<close> proves of the
  counter and the handles holds here; what it cannot show, a wake-up that never returns, is the
  last section.
\<close>

section \<open>The machine\<close>

text \<open>
  A thread is idle, has counted a wait and is about to call \<open>enqueue\<close>, is inside \<open>enqueue\<close>, is at
  the head of the loop of \<open>release\<close> with the wakes still owed, or is inside \<open>wait_dequeue\<close> with
  the wakes owed after this one. Where it is inside the queue is the queue's own record.
  \<open>mpermits\<close> and \<open>mlost\<close> are the logs of \<open>Semaphore\<close>; \<open>mgrants\<close> counts the acquisitions that
  did not wait, and \<open>mresumed\<close> logs the handles as \<open>release\<close> resumes them.
\<close>

datatype mpc = MIdle | MSend handle | MIn handle | MWake u32 | MWait u32

record msem =
  mcnt :: counter
  mq :: "handle qsys"
  mthr :: "mpc list"
  mgrants :: nat
  mpermits :: int
  mresumed :: "handle list"
  mlost :: "handle list"
  mbad :: "fault option"

definition msem_init :: "int \<Rightarrow> nat \<Rightarrow> addr \<Rightarrow> msem" where
  "msem_init init threads stub = \<lparr>mcnt = \<lparr>count = init, waiters = 0\<rparr>, mq = qsys_init stub,
     mthr = replicate threads MIdle, mgrants = 0, mpermits = init, mresumed = [], mlost = [], mbad = None\<rparr>"

datatype mact =
    MRelease nat int | MAcquire nat handle | MTryAcquire nat
  | MSendCall nat "addr option" | MSendStep nat bool | MSendRet nat
  | MWaitCall nat | MWaitStep nat | MWaitRet nat | MWakeDone nat

definition at_pc :: "msem \<Rightarrow> nat \<Rightarrow> mpc option" where
  "at_pc s i = (if i < length (mthr s) then Some (mthr s ! i) else None)"

definition set_m :: "nat \<Rightarrow> mpc \<Rightarrow> msem \<Rightarrow> msem" where
  "set_m i pc s = s\<lparr>mthr := (mthr s)[i := pc]\<rparr>"

text \<open>The exchange that ends one of the three loops, and an access of the queue.\<close>

definition with_mcnt :: "msem \<Rightarrow> fault + counter \<Rightarrow> (msem \<Rightarrow> msem) \<Rightarrow> msem" where
  "with_mcnt s r k = (case r of Inl e \<Rightarrow> s\<lparr>mbad := Some e\<rparr> | Inr c \<Rightarrow> k (s\<lparr>mcnt := c\<rparr>))"

definition via_mq :: "handle qact \<Rightarrow> msem \<Rightarrow> msem option" where
  "via_mq a s = (case qstep a (mq s) of None \<Rightarrow> None | Some q \<Rightarrow> Some (s\<lparr>mq := q\<rparr>))"

text \<open>
  \<open>acquire_helper\<close> ignores the result of \<open>enqueue\<close>: a handle whose node could not be allocated
  is lost. \<open>release\<close> resumes what \<open>wait_dequeue\<close> answers, and returns when it answers nothing.
\<close>

fun msem_act :: "mact \<Rightarrow> msem \<Rightarrow> msem option" where
  "msem_act (MRelease i n) s =
     (if at_pc s i = Some MIdle \<and> int32_ok n
      then Some (with_mcnt s (release_update n (mcnt s))
        (\<lambda>t. set_m i (MWake (need_wake n (mcnt s))) (t\<lparr>mpermits := mpermits t + n\<rparr>)))
      else None)"
| "msem_act (MTryAcquire i) s =
     (if at_pc s i = Some MIdle
      then Some (with_mcnt s (try_update (mcnt s))
        (\<lambda>t. if count (mcnt s) > 0 then t\<lparr>mgrants := mgrants t + 1\<rparr> else t))
      else None)"
| "msem_act (MAcquire i h) s =
     (if at_pc s i = Some MIdle
      then Some (with_mcnt s (acquire_update (mcnt s))
        (\<lambda>t. if need_wait (mcnt s) then set_m i (MSend h) t else t\<lparr>mgrants := mgrants t + 1\<rparr>))
      else None)"
| "msem_act (MSendCall i alloc) s = (case at_pc s i of
     Some (MSend h) \<Rightarrow>
       map_option (\<lambda>t. set_m i (MIn h) (if alloc = None then t\<lparr>mlost := mlost t @ [h]\<rparr> else t))
         (via_mq (PCall i h alloc) s)
   | _ \<Rightarrow> None)"
| "msem_act (MSendStep i spurious) s = (case at_pc s i of
     Some (MIn h) \<Rightarrow> via_mq (PStep i spurious) s
   | _ \<Rightarrow> None)"
| "msem_act (MSendRet i) s = (case at_pc s i of
     Some (MIn h) \<Rightarrow> (case prods (mq s) i of PRet b \<Rightarrow> Some (set_m i MIdle s) | _ \<Rightarrow> None)
   | _ \<Rightarrow> None)"
| "msem_act (MWaitCall i) s = (case at_pc s i of
     Some (MWake k) \<Rightarrow> if k = 0 then None else map_option (set_m i (MWait (k - 1))) (via_mq (CWait i) s)
   | _ \<Rightarrow> None)"
| "msem_act (MWaitStep i) s = (case at_pc s i of
     Some (MWait k) \<Rightarrow> via_mq (CStep i) s
   | _ \<Rightarrow> None)"
| "msem_act (MWaitRet i) s = (case at_pc s i of
     Some (MWait k) \<Rightarrow> (case conss (mq s) i of
         CRet (Some h) \<Rightarrow> Some (set_m i (MWake k) (s\<lparr>mresumed := mresumed s @ [h]\<rparr>))
       | CRet None \<Rightarrow> Some (set_m i MIdle s)
       | _ \<Rightarrow> None)
   | _ \<Rightarrow> None)"
| "msem_act (MWakeDone i) s = (case at_pc s i of
     Some (MWake k) \<Rightarrow> if k = 0 then Some (set_m i MIdle s) else None
   | _ \<Rightarrow> None)"

definition msem_step :: "mact \<Rightarrow> msem \<Rightarrow> msem option" where
  "msem_step a s = (if mbad s \<noteq> None then None else msem_act a s)"

section \<open>The abstraction\<close>

text \<open>
  Where the thread is in \<open>Semaphore\<close>'s machine: a handle counts as queued from the exchange on
  the tail on, a wake-up as done when the value has been taken out.
\<close>

fun spc_of :: "mpc \<Rightarrow> handle ppc \<Rightarrow> handle cpc \<Rightarrow> spc" where
  "spc_of MIdle p c = SIdle"
| "spc_of (MSend h) p c = SEnq h"
| "spc_of (MIn h) p c = (if has_sent p \<or> p = PRet False then SIdle else SEnq h)"
| "spc_of (MWake k) p c = SWake k"
| "spc_of (MWait k) p c = (case c of CRet (Some h) \<Rightarrow> SWake k | _ \<Rightarrow> SWake (k + 1))"

text \<open>Where the queue has the thread fits where the semaphore has it.\<close>

fun mpc_ok :: "mpc \<Rightarrow> handle ppc \<Rightarrow> handle cpc \<Rightarrow> bool" where
  "mpc_ok (MIn h) p c = ((carries h p \<or> p = PRet False) \<and> c_idle c)"
| "mpc_ok (MWait k) p c = (p_idle p \<and> expecting c \<and> k + 1 \<noteq> 0)"
| "mpc_ok pc p c = (p_idle p \<and> c_idle c)"

text \<open>The handle that a thread has taken out and not yet resumed.\<close>

fun taken :: "mpc \<Rightarrow> handle cpc \<Rightarrow> handle multiset" where
  "taken (MWait k) (CRet (Some h)) = {#h#}"
| "taken pc c = {#}"

definition all_taken :: "msem \<Rightarrow> handle multiset" where
  "all_taken s = (\<Sum>i < length (mthr s). taken (mthr s ! i) (conss (mq s) i))"

definition threads_match :: "spc list \<Rightarrow> msem \<Rightarrow> bool" where
  "threads_match ts s \<longleftrightarrow> length ts = length (mthr s) \<and>
     (\<forall>i < length (mthr s). ts ! i = spc_of (mthr s ! i) (prods (mq s) i) (conss (mq s) i) \<and>
        mpc_ok (mthr s ! i) (prods (mq s) i) (conss (mq s) i)) \<and>
     (\<forall>i \<ge> length (mthr s). prods (mq s) i = PIdle \<and> conss (mq s) i = CIdle)"

definition msem_inv :: "addr \<Rightarrow> msem \<Rightarrow> bool" where
  "msem_inv stub s \<longleftrightarrow> reachable qstep (qsys_init stub) (mq s) \<and> m_tail (que (mq s)) \<noteq> None \<and>
     mset (recvd (mq s)) = mset (mresumed s) + all_taken s"

definition abstracts :: "sem \<Rightarrow> msem \<Rightarrow> bool" where
  "abstracts a s \<longleftrightarrow> cnt a = mcnt s \<and> enqd a = sent (mq s) \<and> resumed a = recvd (mq s) \<and>
     grants a = mgrants s + length (recvd (mq s)) \<and> permits a = mpermits s \<and> lost a = mlost s \<and>
     sem_bad a = mbad s \<and> threads_match (thr a) s"

text \<open>What the callers see of a run: the calls of \<open>release\<close>, \<open>acquire\<close>, \<open>try_acquire\<close>.\<close>

fun call_of :: "mact \<Rightarrow> sact list" where
  "call_of (MRelease i n) = [Release i n]"
| "call_of (MAcquire i h) = [Acquire i h]"
| "call_of (MTryAcquire i) = [TryAcquire i]"
| "call_of a = []"

fun is_call :: "sact \<Rightarrow> bool" where
  "is_call (Release i n) = True" | "is_call (Acquire i h) = True" | "is_call (TryAcquire i) = True"
| "is_call a = False"

lemma set_m_fields [simp]:
  "mthr (set_m i pc s) = (mthr s)[i := pc]" "mcnt (set_m i pc s) = mcnt s" "mq (set_m i pc s) = mq s"
  "mgrants (set_m i pc s) = mgrants s" "mpermits (set_m i pc s) = mpermits s"
  "mresumed (set_m i pc s) = mresumed s" "mlost (set_m i pc s) = mlost s" "mbad (set_m i pc s) = mbad s"
  by (simp_all add: set_m_def)

lemma via_mq_Some: "via_mq a s = Some s' \<longleftrightarrow> (\<exists>q. qstep a (mq s) = Some q \<and> s' = s\<lparr>mq := q\<rparr>)"
  by (auto simp: via_mq_def split: option.splits)

lemma at_pc_Some: "at_pc s i = Some pc \<longleftrightarrow> i < length (mthr s) \<and> mthr s ! i = pc"
  by (auto simp: at_pc_def)

text \<open>A thread that moves: what the rest must keep, and what it must establish itself.\<close>

lemma all_taken_cong:
  "mthr s' = mthr s \<Longrightarrow> conss (mq s') = conss (mq s) \<Longrightarrow> all_taken s' = all_taken s"
  by (simp add: all_taken_def)

lemma sum_update_at:
  fixes f g :: "nat \<Rightarrow> 'b :: comm_monoid_add"
  assumes "i < n" and "\<And>j. j \<noteq> i \<Longrightarrow> g j = f j"
  shows "(\<Sum>j<n. g j) + f i = (\<Sum>j<n. f j) + g i"
proof -
  have "(\<Sum>j<n. g j) = g i + (\<Sum>j\<in>{..<n} - {i}. g j)" using assms(1) by (intro sum.remove) auto
  moreover have "(\<Sum>j<n. f j) = f i + (\<Sum>j\<in>{..<n} - {i}. f j)" using assms(1) by (intro sum.remove) auto
  moreover have "(\<Sum>j\<in>{..<n} - {i}. g j) = (\<Sum>j\<in>{..<n} - {i}. f j)" using assms(2) by (intro sum.cong) auto
  ultimately show ?thesis by (simp add: ac_simps)
qed

lemma all_taken_update:
  assumes "i < length (mthr s)" and "mthr s' = (mthr s)[i := pc]"
    and "\<And>j. j \<noteq> i \<Longrightarrow> conss (mq s') j = conss (mq s) j"
  shows "all_taken s' + taken (mthr s ! i) (conss (mq s) i) = all_taken s + taken pc (conss (mq s') i)"
  using sum_update_at [OF assms(1), of "\<lambda>j. taken (mthr s' ! j) (conss (mq s') j)"
      "\<lambda>j. taken (mthr s ! j) (conss (mq s) j)"] assms
  by (simp add: all_taken_def)

lemma threads_match_update:
  assumes "threads_match ts s" and "i < length (mthr s)" and "mthr s' = (mthr s)[i := pc]"
    and "\<And>j. j \<noteq> i \<Longrightarrow> prods (mq s') j = prods (mq s) j" and "\<And>j. j \<noteq> i \<Longrightarrow> conss (mq s') j = conss (mq s) j"
    and "mpc_ok pc (prods (mq s') i) (conss (mq s') i)" and "t = spc_of pc (prods (mq s') i) (conss (mq s') i)"
  shows "threads_match (ts[i := t]) s'"
  using assms unfolding threads_match_def by (auto simp: nth_list_update)

lemma threads_match_stay:
  assumes "threads_match ts s" and "i < length (mthr s)" and "mthr s' = (mthr s)[i := pc]"
    and "\<And>j. j \<noteq> i \<Longrightarrow> prods (mq s') j = prods (mq s) j" and "\<And>j. j \<noteq> i \<Longrightarrow> conss (mq s') j = conss (mq s) j"
    and "mpc_ok pc (prods (mq s') i) (conss (mq s') i)"
    and "ts ! i = spc_of pc (prods (mq s') i) (conss (mq s') i)"
  shows "threads_match ts s'"
  using threads_match_update [OF assms] by simp

lemma threads_matchD:
  "threads_match ts s \<Longrightarrow> i < length (mthr s) \<Longrightarrow> i < length ts \<and>
   ts ! i = spc_of (mthr s ! i) (prods (mq s) i) (conss (mq s) i) \<and>
   mpc_ok (mthr s ! i) (prods (mq s) i) (conss (mq s) i)"
  by (simp add: threads_match_def)

section \<open>Every step is a step of \<open>Semaphore\<close>, or none\<close>

lemma running_holds_fresh: "running_holds q hs \<Longrightarrow> \<exists>n. mem q n = None"
proof -
  assume "running_holds q hs"
  then obtain ns where "dom (mem q) = set ns" by (auto simp: running_holds_def holds_def rep_at_def)
  then have "finite (dom (mem q))" by simp
  then have "\<exists>n. n \<notin> dom (mem q)" by (rule ex_new_if_finite [OF infinite_UNIV_nat])
  then show ?thesis by (auto simp: domIff)
qed

lemma sem_enqueue_enabled:
  assumes "sem_inv a" and "sem_bad a = None" and "i < length (thr a)" and "thr a ! i = SEnq h"
  shows "\<exists>n q. sem_step (Enqueue i (Some n)) a = Some (set_t i SIdle (a\<lparr>wq := q, enqd := enqd a @ [h]\<rparr>))"
proof -
  obtain hs where hs: "running_holds (wq a) hs" using assms(1) by (rule sem_invE)
  from running_holds_fresh [OF this] obtain n where n: "mem (wq a) n = None" by blast
  from aq.enq_ok [OF hs n, of h] obtain q where "enqueue (Some n) h (wq a) = Inr (True, q)" by blast
  with assms n show ?thesis by (intro exI [of _ n] exI [of _ q]) (simp add: sem_step_def)
qed

lemma sem_lose_enabled:
  assumes "sem_bad a = None" and "i < length (thr a)" and "thr a ! i = SEnq h"
  shows "sem_step (Enqueue i None) a = Some (set_t i SIdle (a\<lparr>lost := lost a @ [h]\<rparr>))"
  using assms by (simp add: sem_step_def enqueue_alloc_failed)

lemma sem_wake_enabled:
  assumes "sem_inv a" and "sem_bad a = None" and "i < length (thr a)" and "thr a ! i = SWake k" and "k \<noteq> 0"
    and "enqd a = resumed a @ h # hs"
  shows "\<exists>q. sem_step (Wake i) a =
    Some (set_t i (SWake (k - 1)) (a\<lparr>wq := q, resumed := resumed a @ [h], grants := grants a + 1\<rparr>))"
proof -
  obtain hs' where w: "running_holds (wq a) hs'" "enqd a = resumed a @ hs'" using assms(1) by (rule sem_invE)
  with assms(6) have hs': "hs' = h # hs" by simp
  from aq.wait_enabled [OF w(1)] hs' obtain x q where d: "wait_dequeue (wq a) = Inr (Returns (Some x) q)" by blast
  from aq.wait_Returns [OF w(1) d] hs' have "x = h" by auto
  with d assms show ?thesis by (intro exI [of _ q]) (simp add: sem_step_def)
qed

text \<open>What a step of the composed machine must provide.\<close>

definition simulated :: "addr \<Rightarrow> mact \<Rightarrow> sem \<Rightarrow> msem \<Rightarrow> bool" where
  "simulated stub m a s' \<longleftrightarrow> (\<exists>bs a'. run sem_step bs a = Some a' \<and> filter is_call bs = call_of m \<and>
     abstracts a' s' \<and> msem_inv stub s')"

lemma simulated_stay:
  "call_of m = [] \<Longrightarrow> abstracts a s' \<Longrightarrow> msem_inv stub s' \<Longrightarrow> simulated stub m a s'"
  unfolding simulated_def by (intro exI [of _ "[]"]) auto

lemma simulated_step:
  "sem_step b a = Some a' \<Longrightarrow> (if is_call b then [b] else []) = call_of m \<Longrightarrow> abstracts a' s' \<Longrightarrow>
   msem_inv stub s' \<Longrightarrow> simulated stub m a s'"
  unfolding simulated_def by (intro exI [of _ "[b]"]) auto

text \<open>The three loops do not touch the queue.\<close>

lemma msem_inv_frame:
  assumes "msem_inv stub s" and "i < length (mthr s)" and "mthr s' = (mthr s)[i := pc]" and "mq s' = mq s"
    and "mresumed s' = mresumed s" and "taken pc (conss (mq s) i) = taken (mthr s ! i) (conss (mq s) i)"
  shows "msem_inv stub s'"
  using all_taken_update [OF assms(2,3)] assms by (simp add: msem_inv_def)

lemma msem_inv_cong:
  "msem_inv stub s \<Longrightarrow> mthr s' = mthr s \<Longrightarrow> mq s' = mq s \<Longrightarrow> mresumed s' = mresumed s \<Longrightarrow> msem_inv stub s'"
  by (simp add: msem_inv_def all_taken_def)

lemma threads_match_cong: "threads_match ts s \<Longrightarrow> mthr s' = mthr s \<Longrightarrow> mq s' = mq s \<Longrightarrow> threads_match ts s'"
  by (simp add: threads_match_def)

lemma abstracts_idle:
  assumes "abstracts a s" and "at_pc s i = Some MIdle"
  shows "idle_at a i"
  using assms threads_matchD [of "thr a" s i] by (auto simp: abstracts_def at_pc_Some idle_at_def)

lemma sim_release:
  assumes ab: "abstracts a s" and inv: "msem_inv stub s" and "mbad s = None"
    and st: "msem_act (MRelease i n) s = Some s'"
  shows "simulated stub (MRelease i n) a s'"
proof -
  have pc: "at_pc s i = Some MIdle" "int32_ok n" using st by (auto split: if_splits)
  note idle = abstracts_idle [OF ab pc(1)]
  have i: "i < length (mthr s)" "mthr s ! i = MIdle" using pc(1) by (simp_all add: at_pc_Some)
  have A: "cnt a = mcnt s" "sem_bad a = None" "threads_match (thr a) s"
    using ab \<open>mbad s = None\<close> by (simp_all add: abstracts_def)
  have ok: "p_idle (prods (mq s) i)" "c_idle (conss (mq s) i)" using threads_matchD [OF A(3) i(1)] i(2) by simp_all
  show ?thesis
  proof (cases "release_update n (mcnt s)")
    case (Inl e)
    then have "s' = s\<lparr>mbad := Some e\<rparr>" using st pc by (simp add: with_mcnt_def)
    moreover have "sem_step (Release i n) a = Some (a\<lparr>sem_bad := Some e\<rparr>)"
      using A idle pc(2) Inl by (simp add: sem_step_def with_cnt_def)
    ultimately show ?thesis using ab inv
      by (intro simulated_step) (auto simp: abstracts_def intro: threads_match_cong msem_inv_cong)
  next
    case (Inr c)
    let ?k = "need_wake n (mcnt s)"
    have s': "s' = set_m i (MWake ?k) (s\<lparr>mcnt := c, mpermits := mpermits s + n\<rparr>)"
      using st pc Inr by (simp add: with_mcnt_def)
    have a': "sem_step (Release i n) a = Some (set_t i (SWake ?k) (a\<lparr>cnt := c, permits := permits a + n\<rparr>))"
      using A idle pc(2) Inr by (simp add: sem_step_def with_cnt_def)
    have "threads_match ((thr a)[i := SWake ?k]) s'"
      by (rule threads_match_update [OF A(3) i(1), of _ "MWake ?k"]) (use ok in \<open>simp_all add: s'\<close>)
    moreover have "msem_inv stub s'"
      by (rule msem_inv_frame [OF inv i(1), of _ "MWake ?k"]) (simp_all add: s' i)
    ultimately show ?thesis using ab
      by (intro simulated_step [OF a']) (simp_all add: abstracts_def s')
  qed
qed

lemma sim_acquire:
  assumes ab: "abstracts a s" and inv: "msem_inv stub s" and "mbad s = None"
    and st: "msem_act (MAcquire i h) s = Some s'"
  shows "simulated stub (MAcquire i h) a s'"
proof -
  have pc: "at_pc s i = Some MIdle" using st by (auto split: if_splits)
  note idle = abstracts_idle [OF ab pc]
  have i: "i < length (mthr s)" "mthr s ! i = MIdle" using pc by (simp_all add: at_pc_Some)
  have A: "cnt a = mcnt s" "sem_bad a = None" "threads_match (thr a) s"
    using ab \<open>mbad s = None\<close> by (simp_all add: abstracts_def)
  have ok: "p_idle (prods (mq s) i)" "c_idle (conss (mq s) i)" using threads_matchD [OF A(3) i(1)] i(2) by simp_all
  show ?thesis
  proof (cases "acquire_update (mcnt s)")
    case (Inl e)
    then have "s' = s\<lparr>mbad := Some e\<rparr>" using st pc by (simp add: with_mcnt_def)
    moreover have "sem_step (Acquire i h) a = Some (a\<lparr>sem_bad := Some e\<rparr>)"
      using A idle Inl by (simp add: sem_step_def with_cnt_def)
    ultimately show ?thesis using ab inv
      by (intro simulated_step) (auto simp: abstracts_def intro: threads_match_cong msem_inv_cong)
  next
    case (Inr c)
    show ?thesis
    proof (cases "need_wait (mcnt s)")
      case True
      have s': "s' = set_m i (MSend h) (s\<lparr>mcnt := c\<rparr>)" using st pc Inr True by (simp add: with_mcnt_def)
      have a': "sem_step (Acquire i h) a = Some (set_t i (SEnq h) (a\<lparr>cnt := c\<rparr>))"
        using A idle Inr True by (simp add: sem_step_def with_cnt_def)
      have "threads_match ((thr a)[i := SEnq h]) s'"
        by (rule threads_match_update [OF A(3) i(1), of _ "MSend h"]) (use ok in \<open>simp_all add: s'\<close>)
      moreover have "msem_inv stub s'"
        by (rule msem_inv_frame [OF inv i(1), of _ "MSend h"]) (simp_all add: s' i)
      ultimately show ?thesis using ab
        by (intro simulated_step [OF a']) (simp_all add: abstracts_def s')
    next
      case False
      have s': "s' = s\<lparr>mcnt := c, mgrants := mgrants s + 1\<rparr>" using st pc Inr False by (simp add: with_mcnt_def)
      have a': "sem_step (Acquire i h) a = Some (a\<lparr>cnt := c, grants := grants a + 1\<rparr>)"
        using A idle Inr False by (simp add: sem_step_def with_cnt_def)
      show ?thesis using ab inv
        by (intro simulated_step [OF a']) (auto simp: abstracts_def s' intro: threads_match_cong msem_inv_cong)
    qed
  qed
qed

lemma sim_try:
  assumes ab: "abstracts a s" and inv: "msem_inv stub s" and "mbad s = None"
    and st: "msem_act (MTryAcquire i) s = Some s'"
  shows "simulated stub (MTryAcquire i) a s'"
proof -
  have pc: "at_pc s i = Some MIdle" using st by (auto split: if_splits)
  note idle = abstracts_idle [OF ab pc]
  have A: "cnt a = mcnt s" "sem_bad a = None" using ab \<open>mbad s = None\<close> by (simp_all add: abstracts_def)
  have "\<exists>a'. sem_step (TryAcquire i) a = Some a' \<and> abstracts a' s'"
  proof (cases "try_update (mcnt s)")
    case (Inl e)
    then have "s' = s\<lparr>mbad := Some e\<rparr>" using st pc by (simp add: with_mcnt_def)
    with A idle Inl ab show ?thesis
      by (auto simp: sem_step_def with_cnt_def abstracts_def intro: threads_match_cong)
  next
    case (Inr c)
    then have "s' = (if count (mcnt s) > 0 then s\<lparr>mcnt := c, mgrants := mgrants s + 1\<rparr> else s\<lparr>mcnt := c\<rparr>)"
      using st pc by (auto simp: with_mcnt_def)
    with A idle Inr ab show ?thesis
      by (auto simp: sem_step_def with_cnt_def abstracts_def intro: threads_match_cong)
  qed
  moreover have "msem_inv stub s'" using inv st pc
    by (auto simp: with_mcnt_def split: sum.splits if_splits intro: msem_inv_cong)
  ultimately show ?thesis by (auto intro: simulated_step)
qed

text \<open>The steps inside \<open>enqueue\<close>: the exchange on the tail is the abstract enqueue.\<close>

lemma via_mq_inv:
  assumes "msem_inv stub s" and "qstep b (mq s) = Some q"
  shows "reachable qstep (qsys_init stub) q" and "bad q = None"
proof -
  show r: "reachable qstep (qsys_init stub) q"
    using assms by (auto simp: msem_inv_def intro: reachable_step)
  then show "bad q = None" by (rule not_bad)
qed

lemma msem_inv_update:
  assumes "msem_inv stub s" and "i < length (mthr s)" and "mthr s' = (mthr s)[i := pc]"
    and "reachable qstep (qsys_init stub) (mq s')" and "m_tail (que (mq s')) \<noteq> None"
    and "\<And>j. j \<noteq> i \<Longrightarrow> conss (mq s') j = conss (mq s) j"
    and "recvd (mq s') = recvd (mq s) @ xs" and "mresumed s' = mresumed s @ ys"
    and "mset xs + taken (mthr s ! i) (conss (mq s) i) = mset ys + taken pc (conss (mq s') i)"
  shows "msem_inv stub s'"
proof -
  have "all_taken s' + taken (mthr s ! i) (conss (mq s) i) = all_taken s + taken pc (conss (mq s') i)"
    by (rule all_taken_update [OF assms(2,3,6)])
  moreover have "mset (recvd (mq s)) = mset (mresumed s) + all_taken s" using assms(1) by (simp add: msem_inv_def)
  moreover have "mset (recvd (mq s')) + taken (mthr s ! i) (conss (mq s) i) =
      mset (recvd (mq s)) + (mset ys + taken pc (conss (mq s') i))"
    using assms(7,9) by (simp add: add.assoc)
  ultimately have "mset (recvd (mq s')) + taken (mthr s ! i) (conss (mq s) i) =
      mset (mresumed s') + (all_taken s' + taken (mthr s ! i) (conss (mq s) i))"
    using assms(8) by (simp add: ac_simps)
  then have "mset (recvd (mq s')) = mset (mresumed s') + all_taken s'" by (simp add: add.assoc [symmetric])
  with assms(4,5) show ?thesis by (simp add: msem_inv_def)
qed

lemma sim_send_call:
  assumes ab: "abstracts a s" and inv: "msem_inv stub s" and "mbad s = None"
    and st: "msem_act (MSendCall i alloc) s = Some s'"
  shows "simulated stub (MSendCall i alloc) a s'"
proof -
  obtain h q where i: "i < length (mthr s)" "mthr s ! i = MSend h" and q: "qstep (PCall i h alloc) (mq s) = Some q"
    and s': "s' = set_m i (MIn h) (if alloc = None then s\<lparr>mq := q, mlost := mlost s @ [h]\<rparr> else s\<lparr>mq := q\<rparr>)"
    using st by (auto simp: at_pc_Some via_mq_Some split: option.splits mpc.splits)
  have A: "sem_bad a = None" "threads_match (thr a) s" using ab \<open>mbad s = None\<close> by (simp_all add: abstracts_def)
  have T: "p_idle (prods (mq s) i)" "c_idle (conss (mq s) i)" "i < length (thr a)" "thr a ! i = SEnq h"
    using threads_matchD [OF A(2) i(1)] i(2) by simp_all
  have t: "m_tail (que (mq s)) \<noteq> None" using inv by (simp add: msem_inv_def)
  note Q = via_mq_inv [OF inv q]
  show ?thesis
  proof (cases alloc)
    case None
    then have q': "q = set_p i (PRet False) (mq s)" using q by (simp add: qstep_def split: if_splits)
    have m: "threads_match ((thr a)[i := SIdle]) s'"
      by (rule threads_match_update [OF A(2) i(1), of _ "MIn h"]) (use T None in \<open>simp_all add: s' q'\<close>)
    have "msem_inv stub s'"
      by (rule msem_inv_update [OF inv i(1), of _ "MIn h" "[]" "[]"])
        (use Q t None in \<open>simp_all add: s' q' i\<close>)
    with m ab show ?thesis
      by (intro simulated_step [OF sem_lose_enabled [OF A(1) T(3,4)]]) (simp_all add: abstracts_def s' None q')
  next
    case (Some n)
    then have q': "q = set_p i (PHave n h) (mq s\<lparr>que := alloc_node n h (que (mq s))\<rparr>)"
      using q by (simp add: qstep_def split: if_splits)
    have m: "threads_match (thr a) s'"
      by (rule threads_match_stay [OF A(2) i(1), of _ "MIn h"]) (use T Some in \<open>simp_all add: s' q'\<close>)
    have "msem_inv stub s'"
      by (rule msem_inv_update [OF inv i(1), of _ "MIn h" "[]" "[]"])
        (use Q t Some in \<open>simp_all add: s' q' i alloc_node_def\<close>)
    with m ab show ?thesis
      by (intro simulated_stay) (simp_all add: abstracts_def s' Some q')
  qed
qed

lemma sim_send_step:
  assumes ab: "abstracts a s" and inv: "msem_inv stub s" and sinv: "sem_inv a" and "mbad s = None"
    and st: "msem_act (MSendStep i sp) s = Some s'"
  shows "simulated stub (MSendStep i sp) a s'"
proof -
  obtain h q where i: "i < length (mthr s)" "mthr s ! i = MIn h" and q: "qstep (PStep i sp) (mq s) = Some q"
    and s': "s' = s\<lparr>mq := q\<rparr>"
    using st by (auto simp: at_pc_Some via_mq_Some split: option.splits mpc.splits)
  have A: "sem_bad a = None" "threads_match (thr a) s" using ab \<open>mbad s = None\<close> by (simp_all add: abstracts_def)
  have t: "m_tail (que (mq s)) \<noteq> None" using inv by (simp add: msem_inv_def)
  note Q = via_mq_inv [OF inv q]
  have e: "enqueue_step i sp (mq s) (prods (mq s) i) = Some q" using q by (simp add: qstep_def split: if_splits)
  then have np: "prods (mq s) i \<noteq> PRet False" by auto
  have T: "carries h (prods (mq s) i)" "c_idle (conss (mq s) i)" "i < length (thr a)"
    "thr a ! i = (if has_sent (prods (mq s) i) then SIdle else SEnq h)"
    using threads_matchD [OF A(2) i(1)] i(2) np by simp_all
  note E = enqueue_step_effect [OF e Q(2) t T(1)]
  have np': "prods q i \<noteq> PRet False" using E by auto
  have sm: "mthr s' = (mthr s)[i := MIn h]" using list_update_id [of "mthr s" i] i by (simp add: s')
  have I: "msem_inv stub s'"
    by (rule msem_inv_update [OF inv i(1) sm, of "[]" "[]"]) (use Q E in \<open>simp_all add: s' i\<close>)
  have M: "threads_match ((thr a)[i := t]) s'" if "t = (if has_sent (prods q i) then SIdle else SEnq h)" for t
    by (rule threads_match_update [OF A(2) i(1) sm]) (use T E np' that in \<open>simp_all add: s'\<close>)
  show ?thesis
  proof (cases "sent q = sent (mq s)")
    case True
    with E have "has_sent (prods q i) = has_sent (prods (mq s) i)" by auto
    with T(4) have "thr a ! i = (if has_sent (prods q i) then SIdle else SEnq h)" by simp
    from M [OF this] have "threads_match (thr a) s'" by (simp only: list_update_id)
    with True ab E I show ?thesis by (intro simulated_stay) (simp_all add: abstracts_def s')
  next
    case False
    with E have S: "sent q = sent (mq s) @ [h]" "\<not> has_sent (prods (mq s) i)" "has_sent (prods q i)" by auto
    with T(4) have "thr a ! i = SEnq h" by simp
    from sem_enqueue_enabled [OF sinv A(1) T(3) this] obtain n w where
      b: "sem_step (Enqueue i (Some n)) a = Some (set_t i SIdle (a\<lparr>wq := w, enqd := enqd a @ [h]\<rparr>))" by blast
    have "threads_match ((thr a)[i := SIdle]) s'" using M [of SIdle] S(3) by simp
    with S ab E I show ?thesis by (intro simulated_step [OF b]) (simp_all add: abstracts_def s')
  qed
qed

lemma sim_send_ret:
  assumes ab: "abstracts a s" and inv: "msem_inv stub s" and "mbad s = None"
    and st: "msem_act (MSendRet i) s = Some s'"
  shows "simulated stub (MSendRet i) a s'"
proof -
  obtain h b where i: "i < length (mthr s)" "mthr s ! i = MIn h" and p: "prods (mq s) i = PRet b"
    and s': "s' = set_m i MIdle s"
    using st by (auto simp: at_pc_Some split: option.splits mpc.splits ppc.splits)
  have A: "threads_match (thr a) s" using ab by (simp add: abstracts_def)
  have "threads_match (thr a) s'"
    by (rule threads_match_stay [OF A i(1), of _ MIdle])
      (use threads_matchD [OF A i(1)] i(2) p in \<open>auto simp: s' p_idle_def split: if_splits\<close>)
  moreover have "msem_inv stub s'" by (rule msem_inv_frame [OF inv i(1), of _ MIdle]) (simp_all add: s' i)
  ultimately show ?thesis using ab by (intro simulated_stay) (simp_all add: abstracts_def s')
qed

text \<open>The steps inside \<open>wait_dequeue\<close>: taking the value out is the abstract wake-up.\<close>

lemma sim_wait_call:
  assumes ab: "abstracts a s" and inv: "msem_inv stub s" and "mbad s = None"
    and st: "msem_act (MWaitCall i) s = Some s'"
  shows "simulated stub (MWaitCall i) a s'"
proof -
  obtain k q where i: "i < length (mthr s)" "mthr s ! i = MWake k" and k: "k \<noteq> 0"
    and q: "qstep (CWait i) (mq s) = Some q" and s': "s' = set_m i (MWait (k - 1)) (s\<lparr>mq := q\<rparr>)"
    using st by (auto simp: at_pc_Some via_mq_Some split: option.splits mpc.splits if_splits)
  have A: "threads_match (thr a) s" using ab by (simp add: abstracts_def)
  have t: "m_tail (que (mq s)) \<noteq> None" using inv by (simp add: msem_inv_def)
  note Q = via_mq_inv [OF inv q]
  have q': "q = (set_c i WHead (mq s))\<lparr>owner := Some i\<rparr>" using q by (simp add: qstep_def split: if_splits)
  have "threads_match (thr a) s'"
    by (rule threads_match_stay [OF A i(1), of _ "MWait (k - 1)"])
      (use threads_matchD [OF A i(1)] i(2) k in \<open>simp_all add: s' q'\<close>)
  moreover have "msem_inv stub s'"
    by (rule msem_inv_update [OF inv i(1), of _ "MWait (k - 1)" "[]" "[]"]) (use Q t in \<open>simp_all add: s' q' i\<close>)
  ultimately show ?thesis using ab by (intro simulated_stay) (simp_all add: abstracts_def s' q')
qed

lemma spc_of_waiting: "(\<forall>v. c \<noteq> CRet (Some v)) \<Longrightarrow> spc_of (MWait k) p c = SWake (k + 1)"
  by (auto split: cpc.splits option.splits)

lemma taken_none: "(\<forall>v. c \<noteq> CRet (Some v)) \<Longrightarrow> taken pc c = {#}"
  by (cases "(pc, c)" rule: taken.cases) auto

lemma sim_wait_step:
  assumes ab: "abstracts a s" and inv: "msem_inv stub s" and sinv: "sem_inv a" and "mbad s = None"
    and st: "msem_act (MWaitStep i) s = Some s'"
  shows "simulated stub (MWaitStep i) a s'"
proof -
  obtain k q where i: "i < length (mthr s)" "mthr s ! i = MWait k"
    and q: "qstep (CStep i) (mq s) = Some q" and s': "s' = s\<lparr>mq := q\<rparr>"
    using st by (auto simp: at_pc_Some via_mq_Some split: option.splits mpc.splits)
  have A: "sem_bad a = None" "threads_match (thr a) s" using ab \<open>mbad s = None\<close> by (simp_all add: abstracts_def)
  have t: "m_tail (que (mq s)) \<noteq> None" using inv by (simp add: msem_inv_def)
  note Q = via_mq_inv [OF inv q]
  have e: "consumer_step i (mq s) = Some q" using q by (simp add: qstep_def split: if_splits)
  note E = consumer_step_effect [OF e Q(2)]
  have nr: "\<forall>v. conss (mq s) i \<noteq> CRet (Some v)" using E by (auto simp: c_idle_def)
  have T: "p_idle (prods (mq s) i)" "expecting (conss (mq s) i)" "k + 1 \<noteq> 0" "i < length (thr a)" "thr a ! i = SWake (k + 1)"
    using threads_matchD [OF A(2) i(1)] i(2) spc_of_waiting [OF nr] by simp_all
  have ex: "expecting (conss q i)" by (rule consumer_step_expecting [OF e Q(2) t T(2)])
  have sm: "mthr s' = (mthr s)[i := MWait k]" using list_update_id [of "mthr s" i] i by (simp add: s')
  have M: "threads_match ((thr a)[i := t]) s'" if "t = spc_of (MWait k) (prods q i) (conss q i)" for t
    by (rule threads_match_update [OF A(2) i(1) sm]) (use T(1,3) E ex that in \<open>simp_all add: s'\<close>)
  from E consider "recvd q = recvd (mq s)" "\<forall>v. conss q i \<noteq> CRet (Some v)"
    | v where "recvd q = recvd (mq s) @ [v]" "conss q i = CRet (Some v)" by blast
  then show ?thesis
  proof cases
    case 1
    have "thr a ! i = spc_of (MWait k) (prods q i) (conss q i)" using T(5) spc_of_waiting [OF 1(2)] by simp
    from M [OF this] have "threads_match (thr a) s'" by (simp only: list_update_id)
    moreover have "msem_inv stub s'"
      by (rule msem_inv_update [OF inv i(1) sm, of "[]" "[]"])
        (use Q t E 1 taken_none [OF nr] taken_none [OF 1(2)] in \<open>simp_all add: s' i\<close>)
    ultimately show ?thesis using ab E 1 by (intro simulated_stay) (simp_all add: abstracts_def s')
  next
    case 2
    obtain pend where "sent q = recvd q @ pend" using recvd_prefix [OF Q(1)] by blast
    with E 2 ab have "enqd a = resumed a @ v # pend" by (simp add: abstracts_def)
    from sem_wake_enabled [OF sinv A(1) T(4,5,3) this] obtain w where
      b: "sem_step (Wake i) a =
        Some (set_t i (SWake k) (a\<lparr>wq := w, resumed := resumed a @ [v], grants := grants a + 1\<rparr>))" by auto
    have m: "threads_match ((thr a)[i := SWake k]) s'" using M [of "SWake k"] 2 by simp
    have I: "msem_inv stub s'"
      by (rule msem_inv_update [OF inv i(1) sm, of "[v]" "[]"])
        (use Q t E 2 taken_none [OF nr] in \<open>simp_all add: s' i\<close>)
    show ?thesis using ab E 2 m I by (intro simulated_step [OF b]) (simp_all add: abstracts_def s')
  qed
qed

lemma sim_wait_ret:
  assumes ab: "abstracts a s" and inv: "msem_inv stub s" and "mbad s = None"
    and st: "msem_act (MWaitRet i) s = Some s'"
  shows "simulated stub (MWaitRet i) a s'"
proof -
  have A: "threads_match (thr a) s" using ab by (simp add: abstracts_def)
  obtain k r where i: "i < length (mthr s)" "mthr s ! i = MWait k" and r: "conss (mq s) i = CRet r"
    using st by (auto simp: at_pc_Some split: option.splits mpc.splits cpc.splits)
  with threads_matchD [OF A i(1)] obtain h where h: "r = Some h" by auto
  have s': "s' = set_m i (MWake k) (s\<lparr>mresumed := mresumed s @ [h]\<rparr>)"
    using st i r h by (simp add: at_pc_def)
  have I: "reachable qstep (qsys_init stub) (mq s)" "m_tail (que (mq s)) \<noteq> None" using inv by (simp_all add: msem_inv_def)
  have "threads_match (thr a) s'"
    by (rule threads_match_stay [OF A i(1), of _ "MWake k"])
      (use threads_matchD [OF A i(1)] i(2) r h in \<open>simp_all add: s' c_idle_def\<close>)
  moreover have "msem_inv stub s'"
    by (rule msem_inv_update [OF inv i(1), of _ "MWake k" "[]" "[h]"]) (use I r h in \<open>simp_all add: s' i\<close>)
  ultimately show ?thesis using ab by (intro simulated_stay) (simp_all add: abstracts_def s')
qed

lemma sim_wake_done:
  assumes ab: "abstracts a s" and inv: "msem_inv stub s" and "mbad s = None"
    and st: "msem_act (MWakeDone i) s = Some s'"
  shows "simulated stub (MWakeDone i) a s'"
proof -
  have i: "i < length (mthr s)" "mthr s ! i = MWake 0" and s': "s' = set_m i MIdle s"
    using st by (auto simp: at_pc_Some split: option.splits mpc.splits if_splits)
  have A: "sem_bad a = None" "threads_match (thr a) s" using ab \<open>mbad s = None\<close> by (simp_all add: abstracts_def)
  have T: "p_idle (prods (mq s) i)" "c_idle (conss (mq s) i)" "i < length (thr a)" "thr a ! i = SWake 0"
    using threads_matchD [OF A(2) i(1)] i(2) by simp_all
  have m: "threads_match ((thr a)[i := SIdle]) s'"
    by (rule threads_match_update [OF A(2) i(1), of _ MIdle]) (use T in \<open>simp_all add: s'\<close>)
  have b: "sem_step (WakeDone i) a = Some (set_t i SIdle a)" using A T by (simp add: sem_step_def)
  have "msem_inv stub s'" by (rule msem_inv_frame [OF inv i(1), of _ MIdle]) (simp_all add: s' i)
  with m ab show ?thesis by (intro simulated_step [OF b]) (simp_all add: abstracts_def s')
qed

lemma msim_step:
  assumes "abstracts a s" and "msem_inv stub s" and "sem_inv a" and "msem_step m s = Some s'"
  shows "simulated stub m a s'"
proof -
  have "mbad s = None" and st: "msem_act m s = Some s'" using assms(4) by (simp_all add: msem_step_def split: if_splits)
  note I = assms(1,2) this(1)
  show ?thesis
    using st sim_release [OF I] sim_acquire [OF I] sim_try [OF I] sim_send_call [OF I]
      sim_send_step [OF I(1,2) assms(3) I(3)] sim_send_ret [OF I] sim_wait_call [OF I]
      sim_wait_step [OF I(1,2) assms(3) I(3)] sim_wait_ret [OF I] sim_wake_done [OF I]
    by (cases m) (simp_all only:)
qed

section \<open>Every run is a run of \<open>Semaphore\<close>\<close>

lemma abstracts_init: "abstracts (sem_init init threads stub) (msem_init init threads stub)"
  by (simp add: abstracts_def sem_init_def msem_init_def qsys_init_def threads_match_def p_idle_def c_idle_def)

lemma msem_inv_init: "msem_inv stub (msem_init init threads stub)"
  by (simp add: msem_inv_def msem_init_def all_taken_def) (simp add: qsys_init_def new_queue_def)

lemma projected:
  assumes "int32_ok init"
  shows "run msem_step as (msem_init init threads stub) = Some s \<Longrightarrow>
    \<exists>bs a. run sem_step bs (sem_init init threads stub) = Some a \<and>
      filter is_call bs = concat (map call_of as) \<and> abstracts a s \<and> msem_inv stub s"
proof (induction as arbitrary: s rule: rev_induct)
  case Nil
  then show ?case
    using abstracts_init msem_inv_init by (intro exI [of _ "[]"]) auto
next
  case (snoc m as)
  then obtain r where r: "run msem_step as (msem_init init threads stub) = Some r" "msem_step m r = Some s"
    by (auto simp: run_append split: option.splits)
  with snoc.IH obtain bs a where a: "run sem_step bs (sem_init init threads stub) = Some a"
    "filter is_call bs = concat (map call_of as)" "abstracts a r" "msem_inv stub r" by blast
  have "sem_inv a" using a(1) assms by (intro reachable_sem_inv) auto
  from msim_step [OF a(3,4) this r(2)] obtain cs a' where "run sem_step cs a = Some a'"
    "filter is_call cs = call_of m" "abstracts a' s" "msem_inv stub s" by (auto simp: simulated_def)
  with a show ?case by (intro exI [of _ "bs @ cs"] exI [of _ a']) (simp add: run_append)
qed

definition mspcs :: "msem \<Rightarrow> spc list" where
  "mspcs s = map (\<lambda>i. spc_of (mthr s ! i) (prods (mq s) i) (conss (mq s) i)) [0..<length (mthr s)]"

lemma threads_match_mspcs: "threads_match ts s \<Longrightarrow> ts = mspcs s"
  by (rule nth_equalityI) (simp_all add: threads_match_def mspcs_def)

lemma reachable_projected:
  assumes "reachable msem_step (msem_init init threads stub) s" and "int32_ok init"
  obtains a where "reachable sem_step (sem_init init threads stub) a" and "abstracts a s" and "msem_inv stub s"
    and "thr a = mspcs s"
proof -
  obtain as where "run msem_step as (msem_init init threads stub) = Some s" using assms(1) by (auto simp: reachable_def)
  from projected [OF assms(2) this] obtain bs a where "run sem_step bs (sem_init init threads stub) = Some a"
    "abstracts a s" "msem_inv stub s" by blast
  moreover from this have "thr a = mspcs s" by (intro threads_match_mspcs) (simp add: abstracts_def)
  ultimately show thesis by (intro that) auto
qed

text \<open>
  C6. The queue calls of the semaphore may be taken as single steps. Every run of the semaphore over
  the queue of atomic accesses, with the accesses of all threads interleaved, is a run of the
  machine in which \<open>enqueue\<close> and \<open>wait_dequeue\<close> are one action each, with the same calls of
  \<open>acquire\<close>, \<open>try_acquire\<close> and \<open>release\<close> in the same order, and it leaves the same counter, the
  same permits, acquisitions and losses, and the same handles queued and taken out in the same order.
\<close>

theorem semaphore_queue_refines:
  assumes "run msem_step as (msem_init init threads stub) = Some s" and "int32_ok init"
  shows "\<exists>bs a. run sem_step bs (sem_init init threads stub) = Some a \<and>
    filter is_call bs = concat (map call_of as) \<and> cnt a = mcnt s \<and> permits a = mpermits s \<and>
    grants a = mgrants s + length (recvd (mq s)) \<and> enqd a = sent (mq s) \<and> resumed a = recvd (mq s) \<and>
    lost a = mlost s \<and> sem_bad a = mbad s \<and> thr a = mspcs s"
  using projected [OF assms(2,1)] threads_match_mspcs unfolding abstracts_def by blast

text \<open>
  C37. The semaphore keeps its books under every interleaving of the atomic accesses of any number
  of threads in \<open>acquire\<close>, \<open>try_acquire\<close>, \<open>release\<close> and the waiter queue. No access reads freed
  memory or dereferences null, and the only fault is the overflow of the \<open>int\<close> count; the count is
  exactly the initial count plus all releases less the acquisitions that went through and the
  waiters queued, on their way to the queue or lost; \<open>waiters\<close> never wraps; and the handles taken
  out of the queue are the oldest queued, each resumed at most once.
\<close>

theorem semaphore_accounting:
  assumes "reachable msem_step (msem_init init threads stub) s" and "int32_ok init"
  shows "bad (mq s) = None \<and> (mbad s = None \<or> mbad s = Some SignedOverflow) \<and>
    unat (waiters (mcnt s)) \<le> 2 ^ 31 \<and>
    (\<exists>pend. sent (mq s) = recvd (mq s) @ pend \<and> mset (recvd (mq s)) = mset (mresumed s) + all_taken s \<and>
      unat (waiters (mcnt s)) + sum_list (map wakes (mspcs s))
        = length pend + sum_list (map enqs (mspcs s)) + length (mlost s) \<and>
      count (mcnt s) = mpermits s - int (mgrants s + length (recvd (mq s)))
        - int (length pend + sum_list (map enqs (mspcs s)) + length (mlost s)))"
proof -
  obtain a where a: "reachable sem_step (sem_init init threads stub) a" "abstracts a s" "msem_inv stub s"
    "thr a = mspcs s" using reachable_projected [OF assms] .
  note A = a(2) [unfolded abstracts_def] and B = sem_books [OF a(1) assms(2), unfolded a(4)]
  obtain hs where "sent (mq s) = recvd (mq s) @ hs"
    "unat (waiters (mcnt s)) + sum_list (map wakes (mspcs s))
        = length hs + sum_list (map enqs (mspcs s)) + length (mlost s)"
    "count (mcnt s) = mpermits s - int (mgrants s + length (recvd (mq s)))
        - int (length hs + sum_list (map enqs (mspcs s)) + length (mlost s))"
    using A B by metis
  moreover have "mbad s = None \<or> mbad s = Some SignedOverflow" "unat (waiters (mcnt s)) \<le> 2 ^ 31"
    using A B by metis+
  moreover have "bad (mq s) = None" "mset (recvd (mq s)) = mset (mresumed s) + all_taken s"
    using a(3) by (auto simp: msem_inv_def intro: not_bad)
  ultimately show ?thesis by blast
qed

text \<open>
  C4. Mutual exclusion. In every interleaving of the accesses of \<open>lock\<close>, \<open>try_lock\<close> and \<open>unlock\<close>
  by any number of threads, the lock has been handed out at most once more than \<open>unlock\<close> was
  called: if every unlock is by a holder, at most one holder exists at any time.
\<close>

theorem mutex_exclusion:
  assumes "run msem_step as (msem_init 1 threads stub) = Some s"
    and "\<forall>c \<in> set (concat (map call_of as)). mutex_act c"
  shows "mgrants s + length (mresumed s) \<le> 1 + length (filter is_unlock (concat (map call_of as)))"
proof -
  have "int32_ok 1" by (simp add: int32_ok_def)
  from projected [OF this assms(1)] obtain bs a where a: "run sem_step bs (mutex_init threads stub) = Some a"
    "filter is_call bs = concat (map call_of as)" "abstracts a s" "msem_inv stub s" unfolding mutex_init_def by blast
  have "mutex_act b" if "b \<in> set bs" for b
  proof (cases "is_call b")
    case True
    with that have "b \<in> set (filter is_call bs)" by simp
    then have "b \<in> set (concat (map call_of as))" by (simp only: a(2))
    with assms(2) show ?thesis by blast
  qed (cases b; simp)
  with mutex_grants [OF a(1)] have "grants a \<le> 1 + length (filter is_unlock bs)" by force
  moreover have "filter is_unlock bs = filter is_unlock (filter is_call bs)"
    by (induction bs) (auto elim!: is_unlock.elims)
  moreover have "length (mresumed s) \<le> length (recvd (mq s))"
  proof -
    have "mset (recvd (mq s)) = mset (mresumed s) + all_taken s" using a(4) by (simp add: msem_inv_def)
    then have "size (mset (recvd (mq s))) = size (mset (mresumed s)) + size (all_taken s)" by simp
    then show ?thesis by simp
  qed
  ultimately show ?thesis using a(2,3) by (simp add: abstracts_def)
qed

section \<open>No waiter is forgotten\<close>

lemma all_taken_empty:
  assumes "\<And>i. i < length (mthr s) \<Longrightarrow> taken (mthr s ! i) (conss (mq s) i) = {#}"
  shows "all_taken s = {#}"
  unfolding all_taken_def by (rule sum.neutral) (use assms in auto)

lemma idle_taken: "\<forall>pc \<in> set (mthr s). pc = MIdle \<Longrightarrow> all_taken s = {#}"
  by (rule all_taken_empty) (simp add: all_set_conv_all_nth)

lemma idle_mspcs: "\<forall>pc \<in> set (mthr s). pc = MIdle \<Longrightarrow> \<forall>pc \<in> set (mspcs s). pc = SIdle"
  by (auto simp: mspcs_def all_set_conv_all_nth)

text \<open>
  C5. No lost wake-up. When every thread is out of \<open>acquire\<close> and \<open>release\<close> and no node allocation
  has failed, the coroutines that wait are as many as the count is below zero: a coroutine
  stays suspended only if every permit ever provided has been taken; every other handle that
  was queued has been resumed, once; and the field \<open>waiters\<close> is the length of the queue.
\<close>

theorem semaphore_no_lost_wakeup:
  assumes "run msem_step as (msem_init init threads stub) = Some s"
    and "int32_ok init" and "0 \<le> init" and "\<forall>c \<in> set (concat (map call_of as)). nonneg_act c"
    and "\<forall>pc \<in> set (mthr s). pc = MIdle" and "mlost s = []"
  shows "\<exists>pend. sent (mq s) = recvd (mq s) @ pend \<and> mset (mresumed s) = mset (recvd (mq s)) \<and>
    length pend = unat (waiters (mcnt s)) \<and> int (length pend) = max 0 (- count (mcnt s)) \<and>
    (pend \<noteq> [] \<longrightarrow> int (mgrants s + length (mresumed s)) = mpermits s)"
proof -
  from projected [OF assms(2,1)] obtain bs a where a: "run sem_step bs (sem_init init threads stub) = Some a"
    "filter is_call bs = concat (map call_of as)" "abstracts a s" "msem_inv stub s" by blast
  note A = a(3) [unfolded abstracts_def]
  have "nonneg_act b" if "b \<in> set bs" for b
  proof (cases "is_call b")
    case True
    with that have "b \<in> set (filter is_call bs)" by simp
    then have "b \<in> set (concat (map call_of as))" by (simp only: a(2))
    with assms(4) show ?thesis by blast
  qed (cases b; simp)
  moreover have "\<forall>pc \<in> set (thr a). pc = SIdle"
    using idle_mspcs [OF assms(5)] threads_match_mspcs A by metis
  moreover have "lost a = []" using A assms(6) by simp
  ultimately obtain hs where hs: "enqd a = resumed a @ hs" "length hs = unat (waiters (cnt a))"
    "int (length hs) = max 0 (- count (cnt a))" "hs \<noteq> [] \<longrightarrow> int (grants a) = permits a"
    using sem_at_rest [OF a(1) assms(2,3)] by blast
  have m: "mset (recvd (mq s)) = mset (mresumed s)" using a(4) idle_taken [OF assms(5)] by (simp add: msem_inv_def)
  then have "length (recvd (mq s)) = length (mresumed s)" by (rule mset_eq_length)
  with hs m A show ?thesis by (intro exI [of _ hs]) simp
qed

text \<open>When no thread is in a call, none is inside the queue.\<close>

lemma idle_quiescent:
  assumes "threads_match ts s" and "msem_inv stub s" and "\<forall>pc \<in> set (mthr s). pc = MIdle"
  shows "quiescent (mq s)"
proof -
  have T: "p_idle (prods (mq s) i) \<and> c_idle (conss (mq s) i)" for i
    using assms(1,3) unfolding threads_match_def all_set_conv_all_nth
    by (cases "i < length (mthr s)") (auto simp: p_idle_def c_idle_def)
  obtain ch where "qinv_at (mq s) ch"
    using assms(2) qmachine.reachable_inv unfolding msem_inv_def qinv_def by blast
  then have "critical (conss (mq s) c) \<longleftrightarrow> owner (mq s) = Some c" for c by (rule qinv_atD(9))
  moreover have "\<not> critical (conss (mq s) c)" for c
    using T [of c] by (cases "conss (mq s) c") (auto simp: c_idle_def)
  ultimately have "owner (mq s) = None" by (metis option.exhaust)
  with T show ?thesis by (simp add: quiescent_def)
qed

text \<open>
  \<open>~CountingSemaphore\<close>, run when no thread is in a call, destroys exactly the coroutines that
  were queued and not resumed, each once and in queue order, and frees every node of the queue.
\<close>

theorem semaphore_destructor:
  assumes "reachable msem_step (msem_init init threads stub) s" and "int32_ok init"
    and "\<forall>pc \<in> set (mthr s). pc = MIdle" and "length (sent (mq s)) < fuel"
  shows "\<exists>hs q. sem_destroy fuel (que (mq s)) = Some (Inr (hs, q)) \<and> mem q = Map.empty \<and>
    sent (mq s) = recvd (mq s) @ hs \<and> mset (sent (mq s)) = mset (mresumed s) + mset hs"
proof -
  obtain a where a: "abstracts a s" "msem_inv stub s" using reachable_projected [OF assms(1,2)] .
  then have "quiescent (mq s)" by (intro idle_quiescent [of "thr a", OF _ _ assms(3)]) (simp_all add: abstracts_def)
  moreover obtain ch where "qinv_at (mq s) ch"
    using a(2) qmachine.reachable_inv unfolding msem_inv_def qinv_def by blast
  ultimately obtain hs where hs: "sent (mq s) = recvd (mq s) @ hs" "holds (que (mq s)) hs"
    using quiescent_holds by blast
  have "running_holds (que (mq s)) hs" using hs(2) a(2) by (simp add: running_holds_def msem_inv_def)
  moreover have "length hs < fuel" using hs(1) assms(4) by simp
  ultimately obtain q where "sem_destroy fuel (que (mq s)) = Some (Inr (hs, q))" "mem q = Map.empty"
    using sem_destroy_holds by blast
  moreover have "mset (recvd (mq s)) = mset (mresumed s)"
    using a(2) idle_taken [OF assms(3)] by (simp add: msem_inv_def)
  ultimately show ?thesis using hs(1) by (intro exI [of _ hs] exI [of _ q]) simp
qed

section \<open>A wake-up that runs alone returns\<close>

lemma solo_wait:
  assumes r: "reachable qstep (qsys_init stub) q" and p: "\<And>i. p_idle (prods q i)" and own: "owner q = None"
    and ci: "c_idle (conss q c)" and snt: "sent q = recvd q @ v # pend"
  shows "\<exists>q'. run qstep (CWait c # replicate 7 (CStep c)) q = Some q' \<and> conss q' = (conss q)(c := CRet (Some v)) \<and>
    prods q' = prods q \<and> sent q' = sent q \<and> recvd q' = recvd q @ [v] \<and> owner q' = None"
proof -
  define x where "x pc = (set_c c pc q)\<lparr>owner := Some c\<rparr>" for pc
  obtain ch where inv: "qinv_at q ch" using qmachine.reachable_inv [OF r] by (auto simp: qinv_def)
  note D = qinv_atD [OF inv]
  have none: "link_of (prods q i) = None" for i using p [of i] by (auto simp: p_idle_def)
  have "holder q = CIdle" using own by (simp add: holder_def)
  with linked_second [OF inv none _ snt] obtain n where n: "nx (mem (que q)) (hd ch) = Some n" by auto
  have X: "set_c c pc (x pc') = x pc" "conss (x pc) c = pc" "que (x pc) = que q" "owner (x pc) = Some c"
    "bad (x pc) = None" for pc pc' using D(1) by (simp_all add: x_def set_c_def)
  have s0: "qstep (CWait c) q = Some (x WHead)" using ci own D(1) by (simp add: qstep_def x_def)
  have st: "qstep (CStep c) (x pc) = wait_step c (x pc) pc" if "wait_step c (x pc) pc \<noteq> None" for pc
    using that by (cases pc) (simp_all add: qstep_def consumer_step_def X)
  have s: "qstep (CStep c) (x WHead) = Some (x (WTail (hd ch)))"
    using D(4) by (subst st) (simp_all add: X load_head_def)
  have s': "qstep (CStep c) (x (WTail (hd ch))) = Some (x (WNext (hd ch) (m_tail (que q))))"
    by (subst st) (simp_all add: X)
  have s'': "qstep (CStep c) (x (WNext (hd ch) (m_tail (que q)))) = Some (x (WLoop (hd ch) (m_tail (que q)) (Some n)))"
    using qinv_at_load_next [OF inv] n by (subst st) (simp_all add: X after_def)
  have s3: "qstep (CStep c) (x (WLoop (hd ch) (m_tail (que q)) (Some n))) = Some (x (Take (hd ch) n))"
    by (subst st) (simp_all add: X)
  have "qinv (x (Take (hd ch) n))"
    using qmachine.reachable_inv [OF r] by (rule qinv_step [OF qinv_step [OF qinv_step [OF qinv_step [OF qinv_step [OF _ s0] s] s'] s''] s3])
  then obtain c1 where i1: "qinv_at (x (Take (hd ch) n)) c1" by (auto simp: qinv_def)
  define y where "y = set_c c (Del (hd ch) n) ((x (Take (hd ch) n))\<lparr>que := (que q)\<lparr>m_head := Some n\<rparr>\<rparr>)"
  have i2: "qinv_at y (tl c1)" using qinv_at_take [OF i1 X(4,2)] by (simp add: y_def X)
  have Y: "conss y = (conss q)(c := Del (hd ch) n)" "owner y = Some c" "prods y = prods q" "sent y = sent q"
    "recvd y = recvd q" by (simp_all add: y_def x_def)
  then have yc: "conss y c = Del (hd ch) n" by simp
  from qinv_at_del [OF i2 Y(2) yc] obtain q2 where q2: "delete_node (que y) (hd ch) = Inr q2"
    "qinv_at (set_c c (Move n) (y\<lparr>que := q2\<rparr>)) (tl c1)" by blast
  define z where "z = set_c c (Move n) (y\<lparr>que := q2\<rparr>)"
  have Z: "conss z = (conss q)(c := Move n)" "owner z = Some c" "prods z = prods q" "sent z = sent q"
    "recvd z = recvd q" by (simp_all add: z_def Y)
  then have zc: "conss z c = Move n" by simp
  from qinv_at_move [OF q2(2) [folded z_def] Z(2) zc] obtain w q3 where q3: "take_value (que z) n = Inr (w, q3)"
    "qinv_at (ret_c c (Some w) (z\<lparr>que := q3, recvd := recvd z @ [w]\<rparr>)) (tl c1)" by blast
  have "bad y = None" "bad z = None" using qinv_atD(1) [OF i2] qinv_atD(1) [OF q2(2)] by (simp_all add: z_def)
  then have t: "qstep (CStep c) (x (Take (hd ch) n)) = Some y" "qstep (CStep c) y = Some z"
    "qstep (CStep c) z = Some (ret_c c (Some w) (z\<lparr>que := q3, recvd := recvd z @ [w]\<rparr>))"
    using q2(1) q3(1) yc zc by (simp_all add: qstep_def consumer_step_def X y_def z_def after_def)
  have "\<exists>pend'. sent q = (recvd q @ [w]) @ pend'"
    using qinv_atD(11) [OF q3(2)] Z by (auto simp: val_inv_def ret_c_def split: if_splits)
  then have "w = v" using snt by auto
  with s0 s s' s'' s3 t Z show ?thesis by (simp add: eval_nat_numeral ret_c_def)
qed

lemma lift_wait_steps:
  "run qstep (replicate m (CStep i)) (mq s) = Some q \<Longrightarrow> at_pc s i = Some (MWait k) \<Longrightarrow> mbad s = None \<Longrightarrow>
   run msem_step (replicate m (MWaitStep i)) s = Some (s\<lparr>mq := q\<rparr>)"
proof (induction m arbitrary: s)
  case (Suc m)
  then obtain r where r: "qstep (CStep i) (mq s) = Some r" "run qstep (replicate m (CStep i)) r = Some q"
    by (auto split: option.splits)
  have "run msem_step (replicate m (MWaitStep i)) (s\<lparr>mq := r\<rparr>) = Some (s\<lparr>mq := r, mq := q\<rparr>)"
    by (rule Suc.IH) (use r Suc.prems in \<open>simp_all add: at_pc_Some\<close>)
  moreover have "msem_step (MWaitStep i) s = Some (s\<lparr>mq := r\<rparr>)"
    using r(1) Suc.prems by (simp add: msem_step_def via_mq_def)
  ultimately show ?case by simp
qed simp

definition one_wake :: "nat \<Rightarrow> mact list" where
  "one_wake i = MWaitCall i # replicate 7 (MWaitStep i) @ [MWaitRet i]"

text \<open>No thread but \<open>i\<close> is inside a call of the queue, or about to make one of \<open>enqueue\<close>.\<close>

definition alone :: "nat \<Rightarrow> msem \<Rightarrow> bool" where
  "alone i s \<longleftrightarrow> (\<forall>j < length (mthr s). j \<noteq> i \<longrightarrow> (case mthr s ! j of MIdle \<Rightarrow> True | MWake k \<Rightarrow> True | _ \<Rightarrow> False))"

lemma alone_outside:
  assumes tm: "threads_match ts s" and inv: "msem_inv stub s" and i: "at_pc s i = Some (MWake k)" and al: "alone i s"
  shows "(\<forall>j. p_idle (prods (mq s) j)) \<and> (\<forall>j. c_idle (conss (mq s) j)) \<and> owner (mq s) = None \<and> all_taken s = {#} \<and>
    sum_list (map enqs (mspcs s)) = 0"
proof -
  have out: "mthr s ! j = MIdle \<or> (\<exists>w. mthr s ! j = MWake w)" if "j < length (mthr s)" for j
    using al i that by (cases "mthr s ! j"; cases "j = i") (auto simp: alone_def at_pc_Some split: mpc.splits)
  have T: "p_idle (prods (mq s) j) \<and> c_idle (conss (mq s) j)" for j
  proof (cases "j < length (mthr s)")
    case True
    with threads_matchD [OF tm True] out [OF True] show ?thesis by auto
  next
    case False
    with tm show ?thesis by (simp add: threads_match_def p_idle_def c_idle_def)
  qed
  obtain ch where "qinv_at (mq s) ch"
    using inv qmachine.reachable_inv unfolding msem_inv_def qinv_def by blast
  then have "critical (conss (mq s) c) \<longleftrightarrow> owner (mq s) = Some c" for c by (rule qinv_atD(9))
  moreover have "\<not> critical (conss (mq s) c)" for c
    using T [of c] by (cases "conss (mq s) c") (auto simp: c_idle_def)
  ultimately have "owner (mq s) = None" by (metis option.exhaust)
  moreover have "all_taken s = {#}"
  proof (rule all_taken_empty)
    fix j assume "j < length (mthr s)"
    from out [OF this] show "taken (mthr s ! j) (conss (mq s) j) = {#}" by auto
  qed
  moreover have "sum_list (map enqs (mspcs s)) = 0"
    by (rule sum_map_zero) (use out in \<open>fastforce simp: mspcs_def\<close>)
  ultimately show ?thesis using T by blast
qed

lemma solo_wake:
  assumes r: "reachable msem_step (msem_init init threads stub) s" and ok: "int32_ok init"
    and b: "mbad s = None" "mlost s = []" and i: "at_pc s i = Some (MWake k)" and k: "k \<noteq> 0" and al: "alone i s"
  shows "\<exists>v pend s'. sent (mq s) = recvd (mq s) @ v # pend \<and> run msem_step (one_wake i) s = Some s' \<and>
    at_pc s' i = Some (MWake (k - 1)) \<and> mresumed s' = mresumed s @ [v] \<and> alone i s' \<and> mbad s' = None \<and> mlost s' = [] \<and>
    sent (mq s') = sent (mq s) \<and> recvd (mq s') = recvd (mq s) @ [v]"
proof -
  obtain a where a: "reachable sem_step (sem_init init threads stub) a" "abstracts a s" "msem_inv stub s"
    "thr a = mspcs s" using reachable_projected [OF r ok] .
  have tm: "threads_match (thr a) s" using a(2) by (simp add: abstracts_def)
  note O = alone_outside [OF tm a(3) i al]
  have im: "i < length (mthr s)" "mthr s ! i = MWake k" using i by (simp_all add: at_pc_Some)
  obtain hs where hs: "enqd a = resumed a @ hs" "unat (waiters (cnt a)) + sum_list (map wakes (mspcs s)) = length hs"
    using sem_invE [OF reachable_sem_inv [OF a(1) ok]] a(2,4) O b(2) unfolding abstracts_def
    by (metis add.right_neutral list.size(3))
  have "0 < unat k" using k by (simp add: unat_gt_0)
  moreover have "wakes (mspcs s ! i) = unat k" "i < length (mspcs s)" using im by (simp_all add: mspcs_def)
  then have "unat k \<le> sum_list (map wakes (mspcs s))" using nth_le_sum_map [of i "mspcs s" wakes] by simp
  ultimately have "0 < length hs" using hs(2) by linarith
  then obtain v pend where "hs = v # pend" by (cases hs) auto
  with hs(1) a(2) have snt: "sent (mq s) = recvd (mq s) @ v # pend" unfolding abstracts_def by metis
  have rq: "reachable qstep (qsys_init stub) (mq s)" using a(3) by (simp add: msem_inv_def)
  obtain q where q: "run qstep (CWait i # replicate 7 (CStep i)) (mq s) = Some q"
    "conss q i = CRet (Some v)" "sent q = sent (mq s)" "recvd q = recvd (mq s) @ [v]"
    using solo_wait [OF rq _ _ _ snt, of i] O by fastforce
  then obtain q1 where q1: "qstep (CWait i) (mq s) = Some q1" "run qstep (replicate 7 (CStep i)) q1 = Some q"
    by (auto split: option.splits simp del: replicate.simps)
  define s1 where "s1 = set_m i (MWait (k - 1)) (s\<lparr>mq := q1\<rparr>)"
  define s2 where "s2 = s1\<lparr>mq := q\<rparr>"
  define s3 where "s3 = set_m i (MWake (k - 1)) (s2\<lparr>mresumed := mresumed s2 @ [v]\<rparr>)"
  have "msem_step (MWaitCall i) s = Some s1" using i k b q1(1) by (simp add: msem_step_def via_mq_def s1_def)
  moreover have "run msem_step (replicate 7 (MWaitStep i)) s1 = Some s2"
    unfolding s2_def by (rule lift_wait_steps) (use q1(2) im b in \<open>simp_all add: s1_def at_pc_def\<close>)
  moreover have "msem_step (MWaitRet i) s2 = Some s3"
    using q(2) im b by (simp add: msem_step_def s1_def s2_def s3_def at_pc_def)
  ultimately have "run msem_step (one_wake i) s = Some s3"
    by (simp add: one_wake_def run_append del: replicate.simps)
  moreover have "at_pc s3 i = Some (MWake (k - 1))" "alone i s3"
    using im al by (auto simp: s3_def s2_def s1_def at_pc_def alone_def)
  ultimately show ?thesis using snt q b by (intro exI [of _ v] exI [of _ pend] exI [of _ s3]) (simp add: s3_def s2_def s1_def)
qed


section \<open>A wake-up that never returns\<close>

text \<open>A step touches only the thread that takes it, and the queue only through one of its accesses.\<close>

fun mact_thread :: "mact \<Rightarrow> nat" where
  "mact_thread (MRelease i n) = i" | "mact_thread (MAcquire i h) = i" | "mact_thread (MTryAcquire i) = i"
| "mact_thread (MSendCall i alloc) = i" | "mact_thread (MSendStep i sp) = i" | "mact_thread (MSendRet i) = i"
| "mact_thread (MWaitCall i) = i" | "mact_thread (MWaitStep i) = i" | "mact_thread (MWaitRet i) = i"
| "mact_thread (MWakeDone i) = i"

lemma at_pc_set_m: "j \<noteq> i \<Longrightarrow> at_pc (set_m i pc s) j = at_pc s j"
  by (simp add: at_pc_def)

lemma at_pc_updates [simp]:
  "at_pc (s\<lparr>mq := q\<rparr>) j = at_pc s j" "at_pc (s\<lparr>mcnt := c\<rparr>) j = at_pc s j" "at_pc (s\<lparr>mbad := b\<rparr>) j = at_pc s j" "at_pc (s\<lparr>mgrants := g\<rparr>) j = at_pc s j" "at_pc (s\<lparr>mpermits := p\<rparr>) j = at_pc s j"
  "at_pc (s\<lparr>mlost := l\<rparr>) j = at_pc s j" "at_pc (s\<lparr>mresumed := l\<rparr>) j = at_pc s j"
  by (simp_all add: at_pc_def)

lemma msem_step_frame:
  assumes "msem_step a s = Some s'"
  shows "(mq s' = mq s \<or> (\<exists>b. b \<noteq> Stop \<and> qstep b (mq s) = Some (mq s'))) \<and>
    (\<forall>j. j \<noteq> mact_thread a \<longrightarrow> at_pc s' j = at_pc s j)"
proof -
  have st: "msem_act a s = Some s'" using assms by (simp add: msem_step_def split: if_splits)
  show ?thesis
  proof (cases a)
    case (MRelease i n)
    with st have "s' = with_mcnt s (release_update n (mcnt s))
        (\<lambda>t. set_m i (MWake (need_wake n (mcnt s))) (t\<lparr>mpermits := mpermits t + n\<rparr>))" by (simp split: if_splits)
    with MRelease show ?thesis by (auto simp: with_mcnt_def at_pc_set_m split: sum.splits)
  next
    case (MAcquire i h)
    with st have "s' = with_mcnt s (acquire_update (mcnt s))
        (\<lambda>t. if need_wait (mcnt s) then set_m i (MSend h) t else t\<lparr>mgrants := mgrants t + 1\<rparr>)" by (simp split: if_splits)
    with MAcquire show ?thesis by (auto simp: with_mcnt_def at_pc_set_m split: sum.splits)
  next
    case (MTryAcquire i)
    with st have "s' = with_mcnt s (try_update (mcnt s))
        (\<lambda>t. if count (mcnt s) > 0 then t\<lparr>mgrants := mgrants t + 1\<rparr> else t)" by (simp split: if_splits)
    with MTryAcquire show ?thesis by (auto simp: with_mcnt_def split: sum.splits)
  next
    case (MSendCall i alloc)
    with st obtain h q where "qstep (PCall i h alloc) (mq s) = Some q"
      "s' = set_m i (MIn h) (if alloc = None then s\<lparr>mq := q, mlost := mlost s @ [h]\<rparr> else s\<lparr>mq := q\<rparr>)"
      by (auto simp: via_mq_Some split: option.splits mpc.splits)
    with MSendCall show ?thesis by (auto simp: at_pc_set_m)
  next
    case (MWaitCall i)
    with st obtain k q where "qstep (CWait i) (mq s) = Some q" "s' = set_m i (MWait (k - 1)) (s\<lparr>mq := q\<rparr>)"
      by (auto simp: via_mq_Some split: option.splits mpc.splits if_splits)
    with MWaitCall show ?thesis by (auto simp: at_pc_set_m)
  next
    case (MSendStep i sp)
    with st show ?thesis by (auto simp: via_mq_Some split: option.splits mpc.splits)
  next
    case (MWaitStep i)
    with st show ?thesis by (auto simp: via_mq_Some split: option.splits mpc.splits)
  next
    case (MSendRet i)
    with st show ?thesis by (auto simp: at_pc_set_m split: option.splits mpc.splits ppc.splits)
  next
    case (MWaitRet i)
    with st show ?thesis by (auto simp: at_pc_set_m split: option.splits mpc.splits cpc.splits)
  next
    case (MWakeDone i)
    with st show ?thesis by (auto simp: at_pc_set_m split: option.splits mpc.splits if_splits)
  qed
qed

lemma msem_step_waits:
  assumes "msem_step a s = Some s'" and "at_pc s i = Some (MWait k)" and "\<forall>r. conss (mq s) i \<noteq> CRet r"
  shows "at_pc s' i = Some (MWait k)"
proof (cases "mact_thread a = i")
  case True
  have "msem_act a s = Some s'" using assms(1) by (simp add: msem_step_def split: if_splits)
  with True assms(2,3) show ?thesis by (cases a) (auto simp: via_mq_Some split: cpc.splits)
next
  case False
  with msem_step_frame [OF assms(1)] assms(2) show ?thesis by simp
qed

text \<open>
  A wake-up caught between a waiter's exchange and its link never returns. Once a thread in
  \<open>release\<close> (or in \<open>Mutex::unlock\<close>) has read the head's empty link while the tail had already
  moved to the waiter's node, then in every continuation it is still inside \<open>wait_dequeue\<close>, it
  holds the semaphore's mutex, no handle is taken out of the queue any more, and no other
  thread can start a wake-up.
\<close>

theorem release_livelock:
  assumes "reachable msem_step (msem_init init threads stub) s" and "int32_ok init"
    and "at_pc s i = Some (MWait k)" and "spinning i (mq s)" and "run msem_step as s = Some s'"
  shows "at_pc s' i = Some (MWait k) \<and> owner (mq s') = Some i \<and> recvd (mq s') = recvd (mq s) \<and>
    (\<forall>j. msem_step (MWaitCall j) s' = None)"
proof -
  obtain a where "msem_inv stub s" using reachable_projected [OF assms(1,2)] .
  then have "qinv (mq s)" using qmachine.reachable_inv by (auto simp: msem_inv_def)
  then have "at_pc s' i = Some (MWait k) \<and> spinning i (mq s') \<and> recvd (mq s') = recvd (mq s)"
    using assms(3-5)
  proof (induction as arbitrary: s)
    case (Cons b as)
    then obtain r where r: "msem_step b s = Some r" "run msem_step as r = Some s'" by (auto split: option.splits)
    have "\<forall>x. conss (mq s) i \<noteq> CRet x" using Cons.prems(3) by (auto simp: spinning_def)
    then have "at_pc r i = Some (MWait k)" using msem_step_waits r(1) Cons.prems(2) by blast
    moreover have "qinv (mq r) \<and> spinning i (mq r) \<and> recvd (mq r) = recvd (mq s)"
      using msem_step_frame [OF r(1)] Cons.prems(1,3) spinning_step qinv_step by metis
    ultimately show ?case using Cons.IH [of r] r(2) by simp
  qed simp
  moreover from this have "msem_step (MWaitCall j) s' = None" for j
    by (auto simp: msem_step_def via_mq_def qstep_def spinning_def split: option.splits mpc.splits)
  ultimately show ?thesis by (simp add: spinning_def)
qed

section \<open>Concrete runs\<close>

lemmas msem_eval = msem_step_def msem_init_def at_pc_def set_m_def with_mcnt_def via_mq_def queue_eval
  release_update_def acquire_update_def try_update_def add_count_def need_wake_def need_wait_def int32_ok_def

text \<open>
  Two threads and a mutex: the first locks, the second waits, the first unlocks and
  resumes the second, and finds the lock taken when it tries it again.
\<close>

definition mutex_demo :: "mact list" where
  "mutex_demo = [MAcquire 0 10, MAcquire 1 11, MSendCall 1 (Some 5)] @ replicate 4 (MSendStep 1 False) @
     [MSendRet 1, MRelease 0 1] @ one_wake 0 @ [MWakeDone 0, MTryAcquire 0]"

lemma mutex_demo_run:
  "\<exists>s. run msem_step mutex_demo (msem_init 1 2 0) = Some s \<and> mgrants s = 1 \<and> mresumed s = [11] \<and>
     sent (mq s) = [11] \<and> recvd (mq s) = [11] \<and> mthr s = [MIdle, MIdle] \<and> mlost s = [] \<and> count (mcnt s) = 0 \<and>
     mpermits s = 2"
  by (simp add: mutex_demo_def one_wake_def eval_nat_numeral msem_eval)

lemma mutex_demo_calls: "concat (map call_of mutex_demo) = [lock 0 10, lock 1 11, unlock 0, try_lock 0]"
  by (simp add: mutex_demo_def one_wake_def eval_nat_numeral lock_def unlock_def try_lock_def)

theorem semaphore_queue_refines_witness:
  "\<exists>bs a. run sem_step bs (sem_init 1 2 0) = Some a \<and>
     filter is_call bs = [lock 0 10, lock 1 11, unlock 0, try_lock 0] \<and> resumed a = [11] \<and> grants a = 2"
proof -
  obtain s where s: "run msem_step mutex_demo (msem_init 1 2 0) = Some s" "mgrants s = 1" "recvd (mq s) = [11]"
    using mutex_demo_run by blast
  have "int32_ok 1" by (simp add: int32_ok_def)
  from semaphore_queue_refines [OF s(1) this] obtain bs a where "run sem_step bs (sem_init 1 2 0) = Some a"
    "filter is_call bs = concat (map call_of mutex_demo)" "resumed a = recvd (mq s)"
    "grants a = mgrants s + length (recvd (mq s))" by blast
  with s mutex_demo_calls show ?thesis by (intro exI [of _ bs] exI [of _ a]) simp
qed

theorem semaphore_accounting_witness:
  "\<exists>s. run msem_step mutex_demo (msem_init 1 2 0) = Some s \<and> mresumed s = [11] \<and> bad (mq s) = None \<and>
     unat (waiters (mcnt s)) \<le> 2 ^ 31 \<and> (\<exists>pend. sent (mq s) = recvd (mq s) @ pend)"
proof -
  obtain s where s: "run msem_step mutex_demo (msem_init 1 2 0) = Some s" "mresumed s = [11]"
    using mutex_demo_run by blast
  have "int32_ok 1" by (simp add: int32_ok_def)
  from semaphore_accounting [OF reachable_run [OF s(1)] this] s show ?thesis by blast
qed

theorem mutex_exclusion_witness:
  "\<exists>s. run msem_step mutex_demo (msem_init 1 2 0) = Some s \<and> mgrants s + length (mresumed s) = 2 \<and>
     mgrants s + length (mresumed s) \<le> 1 + length (filter is_unlock (concat (map call_of mutex_demo)))"
proof -
  obtain s where s: "run msem_step mutex_demo (msem_init 1 2 0) = Some s" "mgrants s = 1" "mresumed s = [11]"
    using mutex_demo_run by blast
  have "\<forall>c \<in> set (concat (map call_of mutex_demo)). mutex_act c"
    unfolding mutex_demo_calls by (simp add: lock_def unlock_def try_lock_def)
  from mutex_exclusion [OF s(1) this] s show ?thesis by simp
qed

theorem semaphore_no_lost_wakeup_witness:
  "\<exists>s pend. run msem_step mutex_demo (msem_init 1 2 0) = Some s \<and> sent (mq s) = recvd (mq s) @ pend \<and>
     mset (mresumed s) = mset (recvd (mq s)) \<and> int (length pend) = max 0 (- count (mcnt s))"
proof -
  obtain s where s: "run msem_step mutex_demo (msem_init 1 2 0) = Some s"
    and t: "mthr s = [MIdle, MIdle]" "mlost s = []" using mutex_demo_run by blast
  have c: "\<forall>c \<in> set (concat (map call_of mutex_demo)). nonneg_act c"
    unfolding mutex_demo_calls by (simp add: lock_def unlock_def try_lock_def)
  have "\<exists>pend. sent (mq s) = recvd (mq s) @ pend \<and> mset (mresumed s) = mset (recvd (mq s)) \<and>
    length pend = unat (waiters (mcnt s)) \<and> int (length pend) = max 0 (- count (mcnt s)) \<and>
    (pend \<noteq> [] \<longrightarrow> int (mgrants s + length (mresumed s)) = mpermits s)"
    by (rule semaphore_no_lost_wakeup [OF s _ _ c]) (simp_all add: t int32_ok_def)
  with s show ?thesis by blast
qed

text \<open>A semaphore without permits, destroyed while a coroutine waits.\<close>

definition waiting_demo :: "mact list" where
  "waiting_demo = [MAcquire 0 10, MSendCall 0 (Some 5)] @ replicate 4 (MSendStep 0 False) @ [MSendRet 0]"

lemma waiting_demo_run:
  "\<exists>s. run msem_step waiting_demo (msem_init 0 2 0) = Some s \<and> mresumed s = [] \<and>
     sent (mq s) = [10] \<and> recvd (mq s) = [] \<and> mthr s = [MIdle, MIdle]"
  by (simp add: waiting_demo_def eval_nat_numeral msem_eval)

theorem semaphore_destructor_witness:
  "\<exists>s q. run msem_step waiting_demo (msem_init 0 2 0) = Some s \<and>
     sem_destroy 2 (que (mq s)) = Some (Inr ([10], q)) \<and> mem q = Map.empty"
proof -
  obtain s where s: "run msem_step waiting_demo (msem_init 0 2 0) = Some s"
    and p: "sent (mq s) = [10]" "recvd (mq s) = []" "mthr s = [MIdle, MIdle]" using waiting_demo_run by blast
  have "\<exists>hs q. sem_destroy 2 (que (mq s)) = Some (Inr (hs, q)) \<and> mem q = Map.empty \<and>
    sent (mq s) = recvd (mq s) @ hs \<and> mset (sent (mq s)) = mset (mresumed s) + mset hs"
    by (rule semaphore_destructor [OF reachable_run [OF s]]) (simp_all add: p int32_ok_def)
  with s p show ?thesis by auto
qed

text \<open>The release of one permit to the coroutine that waits.\<close>

lemma releasing_run:
  "\<exists>s. run msem_step (waiting_demo @ [MRelease 1 1]) (msem_init 0 2 0) = Some s \<and> mbad s = None \<and> mlost s = [] \<and>
     at_pc s 1 = Some (MWake 1) \<and> alone 1 s \<and> sent (mq s) = [10] \<and> recvd (mq s) = [] \<and> mresumed s = []"
  by (simp add: waiting_demo_def eval_nat_numeral msem_eval alone_def All_less_Suc)


text \<open>
  The unlock that meets the waiter between its exchange and its link: the waiter then links its
  node and leaves, and the unlock goes on spinning.
\<close>

definition caught_demo :: "mact list" where
  "caught_demo = [MAcquire 0 10, MAcquire 1 11, MSendCall 1 (Some 5)] @ replicate 2 (MSendStep 1 False) @
     [MRelease 0 1, MWaitCall 0] @ replicate 3 (MWaitStep 0)"

definition after_caught :: "mact list" where
  "after_caught = replicate 2 (MSendStep 1 False) @ [MSendRet 1] @ replicate 2 (MWaitStep 0)"

lemma caught_run:
  "\<exists>s. run msem_step caught_demo (msem_init 1 2 0) = Some s \<and> at_pc s 0 = Some (MWait 0) \<and> spinning 0 (mq s) \<and>
     recvd (mq s) = [] \<and> (\<exists>s'. run msem_step after_caught s = Some s' \<and> at_pc s' 1 = Some MIdle \<and> sent (mq s') = [11])"
  by (simp add: caught_demo_def after_caught_def eval_nat_numeral msem_eval spinning_def)

theorem release_livelock_witness:
  "\<exists>s s'. run msem_step caught_demo (msem_init 1 2 0) = Some s \<and> run msem_step after_caught s = Some s' \<and>
     at_pc s' 1 = Some MIdle \<and> sent (mq s') = [11] \<and> recvd (mq s') = [] \<and> at_pc s' 0 = Some (MWait 0) \<and>
     owner (mq s') = Some 0"
proof -
  obtain s s' where s: "run msem_step caught_demo (msem_init 1 2 0) = Some s" "at_pc s 0 = Some (MWait 0)"
    "spinning 0 (mq s)" "recvd (mq s) = []" and s': "run msem_step after_caught s = Some s'"
    "at_pc s' 1 = Some MIdle" "sent (mq s') = [11]" using caught_run by (elim exE conjE) blast
  have "int32_ok 1" by (simp add: int32_ok_def)
  from release_livelock [OF reachable_run [OF s(1)] this s(2,3) s'(1)] s s' show ?thesis by auto
qed

end
