(* ===== verification/Ref_Ptr.thy ===== *)
theory Ref_Ptr
  imports Prelude
begin

text \<open>
  \<open>include/ptr/intrusive_ptr.hpp\<close> and \<open>include/ptr/rc_ptr.hpp\<close>: the two intrusive
  reference counters, \<open>intrusive_ptr\<close> with its casts, and \<open>rc_ptr\<close> over \<open>RcBox\<close>.
  All share one interface, the locale \<open>refcount\<close>.
\<close>

section \<open>Counted objects\<close>

text \<open>
  The heap maps the address of a live object to its count and value; the deleter removes
  the address, and a later access is \<open>UseAfterFree\<close>. Pointer variables are a list of
  \<open>m_ptr\<close> values; a variable whose lifetime has ended keeps a null slot.
\<close>

record 'v obj =
  ref_count :: u64
  payload :: 'v

type_synonym 'v heap = "addr \<Rightarrow> 'v obj option"

record 'v store =
  heap :: "'v heap"
  vars :: "addr option list"

definition access :: "addr \<Rightarrow> 'v heap \<Rightarrow> fault + 'v obj" where
  "access p h = (case h p of None \<Rightarrow> Inl UseAfterFree | Some ob \<Rightarrow> Inr ob)"

text \<open>\<open>intrusive_ref_counter\<close>: a plain \<open>unsigned long\<close>.\<close>

definition add_ref :: "addr \<Rightarrow> 'v heap \<Rightarrow> fault + 'v heap" where
  "add_ref p h = bindE (access p h) (\<lambda>ob. Inr (h(p \<mapsto> ob\<lparr>ref_count := ref_count ob + 1\<rparr>)))"

definition release_ref :: "addr \<Rightarrow> 'v heap \<Rightarrow> fault + 'v heap" where
  "release_ref p h = bindE (access p h) (\<lambda>ob.
     let c = ref_count ob - 1; h' = h(p \<mapsto> ob\<lparr>ref_count := c\<rparr>)
     in Inr (if c = 0 then h'(p := None) else h'))"

text \<open>\<open>intrusive_ref_counter_mt\<close> and \<open>rc_ptr\<close>: \<open>fetch_add\<close> and \<open>fetch_sub\<close>.\<close>

definition fetch_add :: "addr \<Rightarrow> u64 \<Rightarrow> 'v heap \<Rightarrow> fault + u64 \<times> 'v heap" where
  "fetch_add p n h = bindE (access p h) (\<lambda>ob.
     Inr (ref_count ob, h(p \<mapsto> ob\<lparr>ref_count := ref_count ob + n\<rparr>)))"

definition fetch_sub :: "addr \<Rightarrow> u64 \<Rightarrow> 'v heap \<Rightarrow> fault + u64 \<times> 'v heap" where
  "fetch_sub p n h = bindE (access p h) (\<lambda>ob.
     Inr (ref_count ob, h(p \<mapsto> ob\<lparr>ref_count := ref_count ob - n\<rparr>)))"

definition add_ref_mt :: "addr \<Rightarrow> 'v heap \<Rightarrow> fault + 'v heap" where
  "add_ref_mt p h = bindE (fetch_add p 1 h) (\<lambda>(old, h'). Inr h')"

definition release_mt :: "addr \<Rightarrow> 'v heap \<Rightarrow> fault + 'v heap" where
  "release_mt p h = bindE (fetch_sub p 1 h) (\<lambda>(old, h'). Inr (if old = 1 then h'(p := None) else h'))"

section \<open>The interface\<close>

text \<open>
  \<open>counted h M\<close>: every pointer in the multiset \<open>M\<close> is to a live object and every
  live object's count is the number of pointers to it. \<open>refs_ok\<close> adds that no object
  lives without a pointer.
\<close>

definition counted :: "'v heap \<Rightarrow> addr option multiset \<Rightarrow> bool" where
  "counted h M \<longleftrightarrow> (\<forall>p. case h p of None \<Rightarrow> Some p \<notin># M | Some ob \<Rightarrow> unat (ref_count ob) = count M (Some p))"

definition refs_ok :: "'v heap \<Rightarrow> addr option multiset \<Rightarrow> bool" where
  "refs_ok h M \<longleftrightarrow> counted h M \<and> (\<forall>p. h p \<noteq> None \<longrightarrow> Some p \<in># M)"

lemma counted_live: "counted h M \<Longrightarrow> Some p \<in># M \<Longrightarrow> \<exists>ob. h p = Some ob"
  unfolding counted_def by (cases "h p") (auto dest: spec [of _ p])

lemma counted_at: "counted h M \<Longrightarrow> h p = Some ob \<Longrightarrow> unat (ref_count ob) = count M (Some p)"
  unfolding counted_def by (drule spec [of _ p]) simp

lemma counted_dead: "counted h M \<Longrightarrow> h p = None \<Longrightarrow> Some p \<notin># M"
  unfolding counted_def by (drule spec [of _ p]) simp

lemma countedI:
  "(\<And>p. h p = None \<Longrightarrow> Some p \<notin># M) \<Longrightarrow>
   (\<And>p ob. h p = Some ob \<Longrightarrow> unat (ref_count ob) = count M (Some p)) \<Longrightarrow> counted h M"
  unfolding counted_def by (simp split: option.split)

lemma counted_None [simp]: "counted h (add_mset None M) \<longleftrightarrow> counted h M"
  unfolding counted_def by (simp split: option.split)

lemma refs_ok_None [simp]: "refs_ok h (add_mset None M) \<longleftrightarrow> refs_ok h M"
  by (simp add: refs_ok_def)

lemma refs_ok_empty [simp]: "refs_ok Map.empty {#}"
  by (simp add: refs_ok_def counted_def)

locale refcount =
  fixes inc :: "addr \<Rightarrow> 'v heap \<Rightarrow> fault + 'v heap"
    and dec :: "addr \<Rightarrow> 'v heap \<Rightarrow> fault + 'v heap"
  assumes inc_live: "h p = Some ob \<Longrightarrow> inc p h = Inr (h(p \<mapsto> ob\<lparr>ref_count := ref_count ob + 1\<rparr>))"
    and dec_shared: "h p = Some ob \<Longrightarrow> ref_count ob \<noteq> 1 \<Longrightarrow>
      dec p h = Inr (h(p \<mapsto> ob\<lparr>ref_count := ref_count ob - 1\<rparr>))"
    and dec_last: "h p = Some ob \<Longrightarrow> ref_count ob = 1 \<Longrightarrow> dec p h = Inr (h(p := None))"
begin

lemma inc_counted:
  assumes "counted h M" and "h p = Some ob" and "count M (Some p) < 2 ^ 64 - 1"
  shows "\<exists>h'. inc p h = Inr h' \<and> counted h' (add_mset (Some p) M) \<and> dom h' = dom h"
proof -
  have c: "unat (ref_count ob) = count M (Some p)" using counted_at [of h M p ob] assms(1,2) by simp
  then have "unat (ref_count ob + 1) = Suc (count M (Some p))"
    using assms(3) by (simp add: unat_word_ariths)
  moreover have "counted (h(p \<mapsto> ob\<lparr>ref_count := ref_count ob + 1\<rparr>)) (add_mset (Some p) M)"
    using calculation counted_at [OF assms(1)] counted_dead [OF assms(1)]
    by (intro countedI) (auto split: if_splits)
  ultimately show ?thesis using inc_live [of h p ob] assms(2) by (auto simp: dom_def)
qed

lemma inc_refs_ok:
  assumes "refs_ok h M" and "h p = Some ob" and "count M (Some p) < 2 ^ 64 - 1"
  shows "\<exists>h'. inc p h = Inr h' \<and> refs_ok h' (add_mset (Some p) M)"
  using inc_counted [of h M p ob] assms by (force simp: refs_ok_def)

lemma dec_counted:
  assumes "counted h (add_mset (Some p) M)"
  shows "\<exists>h'. dec p h = Inr h' \<and> counted h' M \<and> dom h' = dom h - (if Some p \<in># M then {} else {p})"
proof -
  obtain ob where ob: "h p = Some ob" using counted_live [OF assms, of p] by auto
  have c: "unat (ref_count ob) = Suc (count M (Some p))" using counted_at [of h _ p ob] assms ob by simp
  have fr: "count (add_mset (Some p) M) (Some q) = count M (Some q)" if "q \<noteq> p" for q
    using that by simp
  show ?thesis
  proof (cases "ref_count ob = 1")
    case True
    then have n: "Some p \<notin># M" using c by (simp add: count_eq_zero_iff)
    moreover have "counted (h(p := None)) M"
      using counted_at [OF assms] counted_dead [OF assms] n fr
      by (intro countedI) (auto split: if_splits)
    ultimately show ?thesis using dec_last [of h p ob] ob True by (auto simp: dom_def)
  next
    case False
    then have "unat (ref_count ob) \<noteq> 1" by (simp add: word_unat_eq_iff)
    then have m: "Some p \<in># M" using c by (auto simp: count_eq_zero_iff)
    have "unat (ref_count ob - 1) = count M (Some p)" using c unat_minus_one [of "ref_count ob"] by fastforce
    then have "counted (h(p \<mapsto> ob\<lparr>ref_count := ref_count ob - 1\<rparr>)) M"
      using counted_at [OF assms] counted_dead [OF assms] fr
      by (intro countedI) (auto split: if_splits)
    with dec_shared [of h p ob] False m ob show ?thesis by (auto simp: dom_def)
  qed
qed

lemma dec_refs_ok:
  assumes "refs_ok h (add_mset (Some p) M)"
  shows "\<exists>h'. dec p h = Inr h' \<and> refs_ok h' M \<and> (h' p = None \<longleftrightarrow> Some p \<notin># M)"
proof -
  from assms have "counted h (add_mset (Some p) M)" and own: "\<forall>q. h q \<noteq> None \<longrightarrow> q = p \<or> Some q \<in># M"
    by (auto simp: refs_ok_def)
  from dec_counted [OF this(1)] obtain h' where h': "dec p h = Inr h'" "counted h' M"
    "dom h' = dom h - (if Some p \<in># M then {} else {p})" by blast
  have "\<forall>q. h' q \<noteq> None \<longrightarrow> Some q \<in># M" using h'(3) own by (auto simp: dom_def set_eq_iff split: if_splits)
  moreover have "h' p = None \<longleftrightarrow> Some p \<notin># M"
    using h'(2) calculation counted_live by fastforce
  ultimately show ?thesis using h' by (auto simp: refs_ok_def)
qed

end

lemma access_live [simp]: "h p = Some ob \<Longrightarrow> access p h = Inr ob"
  by (simp add: access_def)

interpretation st_count: refcount add_ref release_ref
  by unfold_locales (simp_all add: add_ref_def release_ref_def Let_def fun_upd_idem)

interpretation mt_count: refcount add_ref_mt release_mt
  by unfold_locales (simp_all add: add_ref_mt_def release_mt_def fetch_add_def fetch_sub_def)

section \<open>\<open>intrusive_ptr\<close>\<close>

text \<open>
  \<open>add\<close> and \<open>rel\<close> are the \<open>intrusive_ptr_add_ref\<close> and \<open>intrusive_ptr_release\<close>
  that argument-dependent lookup finds for \<open>T\<close>. A constructor appends the new variable.
\<close>

definition on_ptr :: "(addr \<Rightarrow> 'v heap \<Rightarrow> fault + 'v heap) \<Rightarrow> addr option \<Rightarrow> 'v heap \<Rightarrow> fault + 'v heap" where
  "on_ptr f p h = (case p of None \<Rightarrow> Inr h | Some a \<Rightarrow> f a h)"

definition ip_default :: "'v store \<Rightarrow> 'v store" where
  "ip_default s = s\<lparr>vars := vars s @ [None]\<rparr>"

definition ip_ctor_raw where
  "ip_ctor_raw add p s = bindE (on_ptr add p (heap s)) (\<lambda>h. Inr (s\<lparr>heap := h, vars := vars s @ [p]\<rparr>))"

definition ip_get :: "nat \<Rightarrow> 'v store \<Rightarrow> addr option" where
  "ip_get j s = vars s ! j"

definition ip_ctor_copy where
  "ip_ctor_copy add j s = ip_ctor_raw add (vars s ! j) s"

definition ip_ctor_conv_copy where
  "ip_ctor_conv_copy add j s = ip_ctor_raw add (ip_get j s) s"

definition ip_ctor_move :: "nat \<Rightarrow> 'v store \<Rightarrow> 'v store" where
  "ip_ctor_move j s = s\<lparr>vars := (vars s)[j := None] @ [vars s ! j]\<rparr>"

definition ip_dtor where
  "ip_dtor rel i s = bindE (on_ptr rel (vars s ! i) (heap s))
     (\<lambda>h. Inr (s\<lparr>heap := h, vars := (vars s)[i := None]\<rparr>))"

definition ip_swap :: "nat \<Rightarrow> nat \<Rightarrow> 'v store \<Rightarrow> 'v store" where
  "ip_swap i j s = s\<lparr>vars := (vars s)[i := vars s ! j, j := vars s ! i]\<rparr>"

text \<open>The temporary of a full expression is destroyed and its storage ends.\<close>

definition end_temp where
  "end_temp rel s = bindE (ip_dtor rel (length (vars s) - 1) s) (\<lambda>t. Inr (t\<lparr>vars := butlast (vars t)\<rparr>))"

definition ip_assign_raw where
  "ip_assign_raw add rel i rhs s = bindE (ip_ctor_raw add rhs s)
     (\<lambda>t. end_temp rel (ip_swap (length (vars t) - 1) i t))"

definition ip_reset where
  "ip_reset rel i s = (let t = ip_default s in end_temp rel (ip_swap (length (vars t) - 1) i t))"

definition ip_reset_raw where
  "ip_reset_raw add rel i rhs s = bindE (ip_ctor_raw add rhs s)
     (\<lambda>t. end_temp rel (ip_swap (length (vars t) - 1) i t))"

text \<open>The converting move constructor: takes the pointer, then resets the source.\<close>

definition ip_ctor_conv_move where
  "ip_ctor_conv_move rel j s = ip_reset rel j (s\<lparr>vars := vars s @ [ip_get j s]\<rparr>)"

definition ip_deref :: "nat \<Rightarrow> 'v store \<Rightarrow> fault + 'v" where
  "ip_deref j s = (case vars s ! j of
     None \<Rightarrow> Inl NullDeref
   | Some p \<Rightarrow> bindE (access p (heap s)) (\<lambda>ob. Inr (payload ob)))"

definition ip_eq :: "nat \<Rightarrow> nat \<Rightarrow> 'v store \<Rightarrow> bool" where
  "ip_eq i j s \<longleftrightarrow> ip_get i s = ip_get j s"

text \<open>\<open>dynamic_cast\<close> gives the object or null; \<open>is_dyn\<close> is the type test.\<close>

definition static_pointer_cast where
  "static_pointer_cast add j s = ip_ctor_raw add (ip_get j s) s"

definition dynamic_pointer_cast where
  "dynamic_pointer_cast add is_dyn j s = ip_ctor_raw add
     (case ip_get j s of None \<Rightarrow> None | Some p \<Rightarrow> if is_dyn p then Some p else None) s"

definition make_intrusive where
  "make_intrusive add a v s =
     ip_ctor_raw add (Some a) (s\<lparr>heap := (heap s)(a \<mapsto> \<lparr>ref_count = 0, payload = v\<rparr>)\<rparr>)"

subsection \<open>Programs over smart pointers\<close>

datatype 'v ip_act =
    IpDefault | IpRaw "addr option" | IpCopy nat | IpConvCopy nat | IpMove nat | IpConvMove nat
  | IpDtor nat | IpAssignRaw nat "addr option" | IpReset nat | IpResetRaw nat "addr option"
  | IpSwap nat nat | IpStaticCast nat | IpDynCast nat "addr \<Rightarrow> bool" | IpMake addr 'v

fun ip_exec where
  "ip_exec add rel IpDefault s = Inr (ip_default s)"
| "ip_exec add rel (IpRaw p) s = ip_ctor_raw add p s"
| "ip_exec add rel (IpCopy j) s = ip_ctor_copy add j s"
| "ip_exec add rel (IpConvCopy j) s = ip_ctor_conv_copy add j s"
| "ip_exec add rel (IpMove j) s = Inr (ip_ctor_move j s)"
| "ip_exec add rel (IpConvMove j) s = ip_ctor_conv_move rel j s"
| "ip_exec add rel (IpDtor i) s = ip_dtor rel i s"
| "ip_exec add rel (IpAssignRaw i p) s = ip_assign_raw add rel i p s"
| "ip_exec add rel (IpReset i) s = ip_reset rel i s"
| "ip_exec add rel (IpResetRaw i p) s = ip_reset_raw add rel i p s"
| "ip_exec add rel (IpSwap i j) s = Inr (ip_swap i j s)"
| "ip_exec add rel (IpStaticCast j) s = static_pointer_cast add j s"
| "ip_exec add rel (IpDynCast j d) s = dynamic_pointer_cast add d j s"
| "ip_exec add rel (IpMake a v) s = make_intrusive add a v s"

text \<open>
  What a C++ program can write: variables that exist, raw pointers to live objects, fresh
  addresses from \<open>new\<close>, and fewer than \<open>2 ^ 64\<close> pointers.
\<close>

definition raw_ok :: "addr option \<Rightarrow> 'v store \<Rightarrow> bool" where
  "raw_ok p s \<longleftrightarrow> (case p of None \<Rightarrow> True | Some a \<Rightarrow> heap s a \<noteq> None)"

lemma raw_ok_vars [simp]: "raw_ok p (s\<lparr>vars := vs\<rparr>) = raw_ok p s"
  by (cases p) (simp_all add: raw_ok_def)

fun ip_enabled :: "'v ip_act \<Rightarrow> 'v store \<Rightarrow> bool" where
  "ip_enabled IpDefault s = True"
| "ip_enabled (IpRaw p) s = raw_ok p s"
| "ip_enabled (IpCopy j) s = (j < length (vars s))"
| "ip_enabled (IpConvCopy j) s = (j < length (vars s))"
| "ip_enabled (IpMove j) s = (j < length (vars s))"
| "ip_enabled (IpConvMove j) s = (j < length (vars s))"
| "ip_enabled (IpDtor i) s = (i < length (vars s))"
| "ip_enabled (IpAssignRaw i p) s = (i < length (vars s) \<and> raw_ok p s)"
| "ip_enabled (IpReset i) s = (i < length (vars s))"
| "ip_enabled (IpResetRaw i p) s = (i < length (vars s) \<and> raw_ok p s)"
| "ip_enabled (IpSwap i j) s = (i < length (vars s) \<and> j < length (vars s))"
| "ip_enabled (IpStaticCast j) s = (j < length (vars s))"
| "ip_enabled (IpDynCast j d) s = (j < length (vars s))"
| "ip_enabled (IpMake a v) s = (heap s a = None)"

definition ip_step where
  "ip_step add rel a r = (case r of
     Inl e \<Rightarrow> None
   | Inr s \<Rightarrow> if length (vars s) < 2 ^ 64 - 2 \<and> ip_enabled a s then Some (ip_exec add rel a s) else None)"

definition empty_store :: "'v store" where
  "empty_store = \<lparr>heap = Map.empty, vars = []\<rparr>"

definition store_ok :: "fault + 'v store \<Rightarrow> bool" where
  "store_ok r \<longleftrightarrow> (\<exists>s. r = Inr s \<and> refs_ok (heap s) (mset (vars s)))"

fun not_conv_move :: "'v ip_act \<Rightarrow> bool" where
  "not_conv_move (IpConvMove j) = False"
| "not_conv_move a = True"

lemma mset_set_None:
  "i < length vs \<Longrightarrow> refs_ok h (mset (vs[i := None])) \<longleftrightarrow> refs_ok h (mset vs - {#vs ! i#})"
  by (simp add: mset_update)

lemma mset_split: "i < length vs \<Longrightarrow> mset vs = add_mset (vs ! i) (mset vs - {#vs ! i#})"
  by simp

lemma mset_swap_nth: "i < length vs \<Longrightarrow> j < length vs \<Longrightarrow> mset (vs[i := vs ! j, j := vs ! i]) = mset vs"
  by (metis mset_swap)

context refcount
begin

lemma ctor_raw_ok:
  assumes "refs_ok (heap s) (mset (vars s))" and "length (vars s) < 2 ^ 64 - 1" and "raw_ok p s"
  shows "\<exists>t. ip_ctor_raw inc p s = Inr t \<and> refs_ok (heap t) (mset (vars t)) \<and> vars t = vars s @ [p]"
proof (cases p)
  case None
  with assms(1) show ?thesis by (simp add: ip_ctor_raw_def on_ptr_def)
next
  case (Some a)
  with assms(3) obtain ob where "heap s a = Some ob" by (auto simp: raw_ok_def)
  moreover have "count (mset (vars s)) (Some a) < 2 ^ 64 - 1"
    using assms(2) count_le_length [of "vars s" "Some a"] by (simp add: count_mset)
  ultimately show ?thesis using inc_refs_ok [of "heap s" _ a ob] assms(1) Some
    by (fastforce simp: ip_ctor_raw_def on_ptr_def)
qed

lemma dtor_ok:
  assumes "refs_ok (heap s) (mset (vars s))" and "i < length (vars s)"
  shows "\<exists>t. ip_dtor dec i s = Inr t \<and> refs_ok (heap t) (mset (vars t)) \<and> vars t = (vars s)[i := None]"
proof (cases "vars s ! i")
  case None
  with assms show ?thesis by (simp add: ip_dtor_def on_ptr_def) (metis list_update_id)
next
  case (Some a)
  with assms have "refs_ok (heap s) (add_mset (Some a) (mset (vars s) - {#Some a#}))"
    using mset_split [OF assms(2)] by simp
  from dec_refs_ok [OF this] Some assms(2) show ?thesis
    by (auto simp: ip_dtor_def on_ptr_def mset_set_None)
qed

lemma end_temp_ok:
  assumes "refs_ok (heap s) (mset (vars s))" and "vars s \<noteq> []"
  shows "\<exists>t. end_temp dec s = Inr t \<and> refs_ok (heap t) (mset (vars t)) \<and> vars t = butlast (vars s)"
proof -
  from assms(2) obtain vs x where vs: "vars s = vs @ [x]" by (cases "vars s" rule: rev_cases) auto
  from dtor_ok [OF assms(1), of "length vs"] vs obtain t where
    "ip_dtor dec (length vs) s = Inr t" "refs_ok (heap t) (mset (vars t))" "vars t = vs @ [None]"
    by auto
  with vs show ?thesis by (auto simp: end_temp_def)
qed

lemma swap_refs_ok:
  "refs_ok (heap s) (mset (vars s)) \<Longrightarrow> i < length (vars s) \<Longrightarrow> j < length (vars s) \<Longrightarrow>
   refs_ok (heap (ip_swap i j s)) (mset (vars (ip_swap i j s)))"
  by (simp add: ip_swap_def mset_swap_nth)

lemma swap_temp_ok:
  assumes "refs_ok (heap t) (mset (vars t))" and "vars t = vs @ [x]" and "i < length vs"
  shows "\<exists>u. end_temp dec (ip_swap (length (vars t) - 1) i t) = Inr u \<and>
    refs_ok (heap u) (mset (vars u)) \<and> vars u = vs[i := x]"
proof -
  let ?w = "ip_swap (length (vars t) - 1) i t"
  have "refs_ok (heap ?w) (mset (vars ?w))" using assms by (intro swap_refs_ok) simp_all
  moreover have "vars ?w = vs[i := x] @ [vs ! i]"
    using assms(2,3) by (simp add: ip_swap_def nth_append list_update_append)
  ultimately show ?thesis using end_temp_ok [of ?w] by simp
qed

lemma assign_raw_ok:
  assumes "refs_ok (heap s) (mset (vars s))" and "length (vars s) < 2 ^ 64 - 1" and "raw_ok p s"
    and "i < length (vars s)"
  shows "\<exists>t. ip_assign_raw inc dec i p s = Inr t \<and> refs_ok (heap t) (mset (vars t)) \<and> vars t = (vars s)[i := p]"
proof -
  obtain t where "ip_ctor_raw inc p s = Inr t" "refs_ok (heap t) (mset (vars t))" "vars t = vars s @ [p]"
    using ctor_raw_ok [OF assms(1-3)] by blast
  with swap_temp_ok [of t "vars s" p i] assms(4) show ?thesis by (simp add: ip_assign_raw_def)
qed

lemma reset_ok:
  assumes "refs_ok (heap s) (mset (vars s))" and "i < length (vars s)"
  shows "\<exists>t. ip_reset dec i s = Inr t \<and> refs_ok (heap t) (mset (vars t)) \<and> vars t = (vars s)[i := None]"
proof -
  have "refs_ok (heap (ip_default s)) (mset (vars (ip_default s)))" "vars (ip_default s) = vars s @ [None]"
    using assms(1) by (simp_all add: ip_default_def)
  from swap_temp_ok [OF this assms(2)] show ?thesis by (simp add: ip_reset_def Let_def)
qed

lemma make_ok:
  assumes "refs_ok (heap s) (mset (vars s))" and "heap s a = None"
  shows "\<exists>t. make_intrusive inc a v s = Inr t \<and> refs_ok (heap t) (mset (vars t)) \<and> vars t = vars s @ [Some a]"
proof -
  let ?h = "(heap s)(a \<mapsto> \<lparr>ref_count = 0, payload = v\<rparr>)"
  have c: "counted (heap s) (mset (vars s))" using assms(1) by (simp add: refs_ok_def)
  have n: "Some a \<notin># mset (vars s)" using counted_dead [OF c assms(2)] .
  have "counted ?h (mset (vars s))"
    using counted_at [OF c] counted_dead [OF c] n by (intro countedI) (auto split: if_splits simp: count_eq_zero_iff)
  moreover have "count (mset (vars s)) (Some a) < 2 ^ 64 - 1" using n by (simp only: not_in_iff, simp)
  ultimately obtain h' where h': "inc a ?h = Inr h'"
    "counted h' (add_mset (Some a) (mset (vars s)))" "dom h' = dom ?h"
    using inc_counted [of ?h "mset (vars s)" a "\<lparr>ref_count = 0, payload = v\<rparr>"] by auto
  have "\<forall>q. h' q \<noteq> None \<longrightarrow> Some q \<in># add_mset (Some a) (mset (vars s))"
    using h'(3) assms(1) by (auto simp: refs_ok_def dom_def set_eq_iff)
  with h' show ?thesis by (auto simp: make_intrusive_def ip_ctor_raw_def on_ptr_def refs_ok_def)
qed

lemma move_ok:
  "refs_ok (heap s) (mset (vars s)) \<Longrightarrow> j < length (vars s) \<Longrightarrow>
   refs_ok (heap (ip_ctor_move j s)) (mset (vars (ip_ctor_move j s)))"
  using mset_split [of j "vars s"]
  by (simp add: ip_ctor_move_def mset_update add_mset_commute [of "vars s ! j" None])

lemma var_raw_ok: "refs_ok (heap s) (mset (vars s)) \<Longrightarrow> j < length (vars s) \<Longrightarrow> raw_ok (vars s ! j) s"
  using counted_live [of "heap s" "mset (vars s)"]
  by (cases "vars s ! j") (auto simp: raw_ok_def refs_ok_def dest: nth_mem)

lemma dyn_raw_ok:
  "raw_ok p s \<Longrightarrow> raw_ok (case p of None \<Rightarrow> None | Some a \<Rightarrow> if d a then Some a else None) s"
  by (cases p) (simp_all add: raw_ok_def)

lemma ip_exec_ok:
  assumes ok: "refs_ok (heap s) (mset (vars s))" and len: "length (vars s) < 2 ^ 64 - 2"
    and en: "ip_enabled a s" and nc: "not_conv_move a"
  shows "\<exists>t. ip_exec inc dec a s = Inr t \<and> refs_ok (heap t) (mset (vars t))"
proof -
  have len': "length (vars s) < 2 ^ 64 - 1" using len by simp
  note ctor = ctor_raw_ok [OF ok len'] note var = var_raw_ok [OF ok]
  show ?thesis
  proof (cases a)
    case IpDefault
    with ok show ?thesis by (simp add: ip_default_def)
  next
    case (IpRaw p)
    with ctor [of p] en show ?thesis by auto
  next
    case (IpCopy j)
    with ctor [OF var] en show ?thesis by (auto simp: ip_ctor_copy_def)
  next
    case (IpConvCopy j)
    with ctor [OF var] en show ?thesis by (auto simp: ip_ctor_conv_copy_def ip_get_def)
  next
    case (IpMove j)
    with move_ok [OF ok] en show ?thesis by simp
  next
    case (IpDtor i)
    with dtor_ok [OF ok] en show ?thesis by auto
  next
    case (IpAssignRaw i p)
    with assign_raw_ok [OF ok len'] en show ?thesis by (auto simp: numeral_eq_Suc)
  next
    case (IpReset i)
    with reset_ok [OF ok] en show ?thesis by auto
  next
    case (IpResetRaw i p)
    moreover have "ip_reset_raw = (\<lambda>inc :: addr \<Rightarrow> 'v heap \<Rightarrow> fault + 'v heap. ip_assign_raw inc)"
      by (intro ext) (simp add: ip_reset_raw_def ip_assign_raw_def)
    ultimately show ?thesis using assign_raw_ok [OF ok len'] en by auto
  next
    case (IpSwap i j)
    with swap_refs_ok [OF ok] en show ?thesis by auto
  next
    case (IpStaticCast j)
    with ctor [OF var] en show ?thesis by (auto simp: static_pointer_cast_def ip_get_def)
  next
    case (IpDynCast j d)
    with ctor [OF dyn_raw_ok [OF var]] en show ?thesis by (auto simp: dynamic_pointer_cast_def ip_get_def)
  next
    case (IpMake p v)
    with make_ok [OF ok] en show ?thesis by auto
  qed (use nc in simp)
qed

lemma ip_step_ok:
  assumes "store_ok r" and "not_conv_move a" and "ip_step inc dec a r = Some r'"
  shows "store_ok r'"
proof -
  obtain s where s: "r = Inr s" "refs_ok (heap s) (mset (vars s))" using assms(1) by (auto simp: store_ok_def)
  with assms(3) have "length (vars s) < 2 ^ 64 - 2" "ip_enabled a s" "r' = ip_exec inc dec a s"
    by (auto simp: ip_step_def split: if_splits)
  with ip_exec_ok [OF s(2) this(1,2) assms(2)] show ?thesis by (auto simp: store_ok_def)
qed

end

lemma store_ok_empty: "store_ok (Inr empty_store)"
  by (simp add: store_ok_def empty_store_def)

interpretation ip_st: machine_inv_on "ip_step add_ref release_ref" not_conv_move "Inr empty_store" store_ok
  by unfold_locales (auto intro: store_ok_empty st_count.ip_step_ok)

interpretation ip_mt: machine_inv_on "ip_step add_ref_mt release_mt" not_conv_move "Inr empty_store" store_ok
  by unfold_locales (auto intro: store_ok_empty mt_count.ip_step_ok)

lemma store_ok_content:
  assumes "store_ok r"
  shows "\<exists>s. r = Inr s \<and> (\<forall>p. heap s p = None \<longleftrightarrow> Some p \<notin> set (vars s)) \<and>
    (\<forall>p ob. heap s p = Some ob \<longrightarrow> unat (ref_count ob) = count_list (vars s) (Some p))"
proof -
  obtain s where "r = Inr s" and c: "counted (heap s) (mset (vars s))"
    and o: "\<forall>p. heap s p \<noteq> None \<longrightarrow> Some p \<in># mset (vars s)"
    using assms by (auto simp: store_ok_def refs_ok_def)
  moreover have "heap s p = None \<longleftrightarrow> Some p \<notin> set (vars s)" for p
    using counted_dead [OF c, of p] o by fastforce
  moreover have "unat (ref_count ob) = count_list (vars s) (Some p)" if "heap s p = Some ob" for p ob
    using counted_at [OF c, of p ob] that by (simp add: count_mset)
  ultimately show ?thesis by blast
qed

text \<open>
  The plain and the atomic reference counter are the same counter: for every object
  and heap they add and release alike, deleter call and faults included.
\<close>

theorem counters_agree:
  "add_ref_mt p h = add_ref p h \<and> release_mt p h = release_ref p h"
  by (cases "h p") (auto simp: add_ref_def add_ref_mt_def release_ref_def release_mt_def fetch_add_def
      fetch_sub_def access_def Let_def fun_upd_idem)


lemmas ip_eval = ip_step_def ip_default_def ip_ctor_raw_def ip_ctor_copy_def ip_ctor_conv_copy_def
  ip_get_def ip_ctor_move_def ip_dtor_def ip_swap_def end_temp_def ip_assign_raw_def ip_reset_def
  ip_reset_raw_def ip_ctor_conv_move_def static_pointer_cast_def dynamic_pointer_cast_def
  make_intrusive_def on_ptr_def access_def add_ref_def release_ref_def empty_store_def raw_ok_def Let_def

definition ip_demo :: "nat ip_act list" where
  "ip_demo = [IpMake 7 42, IpCopy 0, IpMove 1, IpReset 0, IpDefault, IpSwap 3 2]"

lemma ip_demo_runs:
  "\<exists>s. run (ip_step add_ref release_ref) ip_demo (Inr empty_store) = Some (Inr s) \<and>
     vars s = [None, None, None, Some 7] \<and> heap s = [7 \<mapsto> \<lparr>ref_count = 1, payload = 42\<rparr>]"
  by (simp add: ip_demo_def ip_eval)


text \<open>
  The converting move constructor leaves a dangling pointer. It copies the raw
  pointer without counting it and then releases the source: when the source was the only
  pointer to an object, the object is deleted while the new variable points to it, and the
  next use of the new variable is a use after free.
\<close>

theorem conv_move_dangles:
  assumes "run (ip_step add_ref release_ref) as (Inr empty_store) = Some (Inr s)"
    and "\<forall>a \<in> set as. not_conv_move a"
    and "j < length (vars s)" and "vars s ! j = Some p" and "count_list (vars s) (Some p) = 1"
  shows "\<exists>t. ip_exec add_ref release_ref (IpConvMove j) s = Inr t \<and> vars t = (vars s)[j := None] @ [Some p] \<and>
    heap t p = None \<and> ip_deref (length (vars s)) t = Inl UseAfterFree"
proof -
  obtain ob where ob: "heap s p = Some ob" "unat (ref_count ob) = 1"
    using store_ok_content [OF ip_st.init_run_inv_on [OF assms(1,2)]] assms(3-5) nth_mem [OF assms(3)]
    by fastforce
  then have "ref_count ob = 1" by (metis unsigned_1 word_unat_eq_iff)
  with ob(1) assms(3,4) show ?thesis
    by (simp add: ip_eval ip_deref_def nth_append list_update_append butlast_append)
qed

theorem conv_move_dangles_witness:
  "\<exists>s t. run (ip_step add_ref release_ref) [IpMake 7 (42::nat)] (Inr empty_store) = Some (Inr s) \<and>
     ip_exec add_ref release_ref (IpConvMove 0) s = Inr t \<and> ip_deref 1 t = Inl UseAfterFree"
proof -
  obtain s where s: "run (ip_step add_ref release_ref) [IpMake 7 (42::nat)] (Inr empty_store) = Some (Inr s)"
    "vars s = [Some 7]" by (simp add: ip_eval)
  from conv_move_dangles [OF s(1), of 0 7] s show ?thesis by auto
qed

section \<open>\<open>rc_ptr\<close>\<close>

text \<open>The object is an \<open>RcBox\<close>, created with a count of one.\<close>

definition rc_inc :: "nat \<Rightarrow> 'v store \<Rightarrow> fault + 'v store" where
  "rc_inc i s = (case vars s ! i of
     None \<Rightarrow> Inr s
   | Some p \<Rightarrow> bindE (fetch_add p 1 (heap s)) (\<lambda>(old, h). Inr (s\<lparr>heap := h\<rparr>)))"

definition rc_dec :: "nat \<Rightarrow> 'v store \<Rightarrow> fault + 'v store" where
  "rc_dec i s = bindE
     (case vars s ! i of
        None \<Rightarrow> Inr s
      | Some p \<Rightarrow> bindE (fetch_sub p 1 (heap s))
          (\<lambda>(old, h). Inr (s\<lparr>heap := (if old = 1 then h(p := None) else h)\<rparr>)))
     (\<lambda>t. Inr (t\<lparr>vars := (vars t)[i := None]\<rparr>))"

definition rc_default :: "'v store \<Rightarrow> 'v store" where
  "rc_default s = s\<lparr>vars := vars s @ [None]\<rparr>"

definition rc_copy :: "nat \<Rightarrow> 'v store \<Rightarrow> fault + 'v store" where
  "rc_copy j s = rc_inc (length (vars s)) (s\<lparr>vars := vars s @ [vars s ! j]\<rparr>)"

definition rc_move :: "nat \<Rightarrow> 'v store \<Rightarrow> 'v store" where
  "rc_move j s = s\<lparr>vars := (vars s)[j := None] @ [vars s ! j]\<rparr>"

definition rc_assign_copy :: "nat \<Rightarrow> nat \<Rightarrow> 'v store \<Rightarrow> fault + 'v store" where
  "rc_assign_copy i j s =
     (if i \<noteq> j then bindE (rc_dec i s) (\<lambda>t. rc_inc i (t\<lparr>vars := (vars t)[i := vars t ! j]\<rparr>)) else Inr s)"

definition rc_assign_move :: "nat \<Rightarrow> nat \<Rightarrow> 'v store \<Rightarrow> fault + 'v store" where
  "rc_assign_move i j s =
     (if i \<noteq> j then bindE (rc_dec i s) (\<lambda>t. Inr (t\<lparr>vars := (vars t)[i := vars t ! j, j := None]\<rparr>)) else Inr s)"

definition rc_dtor :: "nat \<Rightarrow> 'v store \<Rightarrow> fault + 'v store" where
  "rc_dtor i s = rc_dec i s"

definition rc_box :: "'v \<Rightarrow> 'v obj" where
  "rc_box v = \<lparr>ref_count = 1, payload = v\<rparr>"

definition make_rc :: "addr \<Rightarrow> 'v \<Rightarrow> 'v store \<Rightarrow> 'v store" where
  "make_rc a v s = s\<lparr>heap := (heap s)(a \<mapsto> rc_box v), vars := vars s @ [Some a]\<rparr>"

definition rc_from_address :: "addr \<Rightarrow> 'v store \<Rightarrow> 'v store" where
  "rc_from_address a s = s\<lparr>vars := vars s @ [Some a]\<rparr>"

definition rc_get_address :: "nat \<Rightarrow> 'v store \<Rightarrow> addr option" where
  "rc_get_address j s = vars s ! j"

text \<open>\<open>get\<close> gives the address of the value in the box, here that of the box, or null.\<close>

definition rc_get :: "nat \<Rightarrow> 'v store \<Rightarrow> addr option" where
  "rc_get j s = (case vars s ! j of None \<Rightarrow> None | Some p \<Rightarrow> Some p)"

definition rc_bool :: "nat \<Rightarrow> 'v store \<Rightarrow> bool" where
  "rc_bool j s \<longleftrightarrow> vars s ! j \<noteq> None"

definition rc_use_count :: "nat \<Rightarrow> 'v store \<Rightarrow> fault + u64" where
  "rc_use_count j s = (case vars s ! j of
     None \<Rightarrow> Inr 0 | Some p \<Rightarrow> bindE (access p (heap s)) (\<lambda>ob. Inr (ref_count ob)))"

definition rc_deref :: "nat \<Rightarrow> 'v store \<Rightarrow> fault + 'v" where
  "rc_deref j s = (case vars s ! j of
     None \<Rightarrow> Inl NullDeref | Some p \<Rightarrow> bindE (access p (heap s)) (\<lambda>ob. Inr (payload ob)))"

datatype 'v rc_act =
    RcDefault | RcCopy nat | RcMove nat | RcAssignCopy nat nat | RcAssignMove nat nat
  | RcDtor nat | RcMake addr 'v

fun rc_exec :: "'v rc_act \<Rightarrow> 'v store \<Rightarrow> fault + 'v store" where
  "rc_exec RcDefault s = Inr (rc_default s)"
| "rc_exec (RcCopy j) s = rc_copy j s"
| "rc_exec (RcMove j) s = Inr (rc_move j s)"
| "rc_exec (RcAssignCopy i j) s = rc_assign_copy i j s"
| "rc_exec (RcAssignMove i j) s = rc_assign_move i j s"
| "rc_exec (RcDtor i) s = rc_dtor i s"
| "rc_exec (RcMake a v) s = Inr (make_rc a v s)"

fun rc_enabled :: "'v rc_act \<Rightarrow> 'v store \<Rightarrow> bool" where
  "rc_enabled RcDefault s = True"
| "rc_enabled (RcCopy j) s = (j < length (vars s))"
| "rc_enabled (RcMove j) s = (j < length (vars s))"
| "rc_enabled (RcAssignCopy i j) s = (i < length (vars s) \<and> j < length (vars s))"
| "rc_enabled (RcAssignMove i j) s = (i < length (vars s) \<and> j < length (vars s))"
| "rc_enabled (RcDtor i) s = (i < length (vars s))"
| "rc_enabled (RcMake a v) s = (heap s a = None)"

definition rc_step :: "'v rc_act \<Rightarrow> fault + 'v store \<Rightarrow> (fault + 'v store) option" where
  "rc_step a r = (case r of
     Inl e \<Rightarrow> None
   | Inr s \<Rightarrow> if length (vars s) < 2 ^ 64 - 2 \<and> rc_enabled a s then Some (rc_exec a s) else None)"

text \<open>\<open>dec\<close> and \<open>inc\<close> of \<open>rc_ptr\<close> are those of the atomic counter.\<close>

lemma rc_dec_dtor: "rc_dec i s = ip_dtor release_mt i s"
  by (cases "vars s ! i"; cases "fetch_sub (the (vars s ! i)) 1 (heap s)")
     (auto simp: rc_dec_def ip_dtor_def on_ptr_def release_mt_def)

lemma rc_inc_ok:
  assumes "refs_ok (heap s) (mset (vars s) - {#vars s ! i#})" and "i < length (vars s)"
    and "length (vars s) < 2 ^ 64 - 1" and "raw_ok (vars s ! i) s"
  shows "\<exists>t. rc_inc i s = Inr t \<and> refs_ok (heap t) (mset (vars t)) \<and> vars t = vars s"
proof (cases "vars s ! i")
  case None
  have "mset (vars s) = add_mset None (mset (vars s) - {#vars s ! i#})"
    using mset_split [OF assms(2)] None by simp
  with assms(1) have "refs_ok (heap s) (mset (vars s))" by (metis refs_ok_None)
  with None show ?thesis by (simp add: rc_inc_def)
next
  case (Some p)
  let ?M = "mset (vars s) - {#vars s ! i#}"
  obtain ob where ob: "heap s p = Some ob" using assms(4) Some by (auto simp: raw_ok_def)
  have "count ?M (Some p) \<le> length (vars s)"
    using count_le_length [of "vars s" "Some p"] by (simp add: count_mset)
  then have "count ?M (Some p) < 2 ^ 64 - 1" using assms(3) by linarith
  from mt_count.inc_refs_ok [of "heap s" ?M p ob, OF assms(1) ob this] obtain h' where
    h': "add_ref_mt p (heap s) = Inr h'" "refs_ok h' (add_mset (Some p) ?M)" by blast
  moreover have "add_mset (Some p) ?M = mset (vars s)" using mset_split [OF assms(2)] Some by simp
  moreover obtain old where "fetch_add p 1 (heap s) = Inr (old, h')"
    using h'(1) by (auto simp: add_ref_mt_def)
  ultimately show ?thesis using Some by (auto simp: rc_inc_def)
qed

lemma rc_copy_ok:
  assumes "refs_ok (heap s) (mset (vars s))" and "length (vars s) < 2 ^ 64 - 2" and "j < length (vars s)"
  shows "\<exists>t. rc_copy j s = Inr t \<and> refs_ok (heap t) (mset (vars t))"
proof -
  let ?s = "s\<lparr>vars := vars s @ [vars s ! j]\<rparr>"
  have "raw_ok (vars ?s ! length (vars s)) ?s"
    using mt_count.var_raw_ok [OF assms(1,3)] by simp
  with rc_inc_ok [of ?s "length (vars s)"] assms show ?thesis by (auto simp: rc_copy_def)
qed

lemma rc_assign_copy_ok:
  assumes "refs_ok (heap s) (mset (vars s))" and "length (vars s) < 2 ^ 64 - 2"
    and "i < length (vars s)" "j < length (vars s)"
  shows "\<exists>t. rc_assign_copy i j s = Inr t \<and> refs_ok (heap t) (mset (vars t))"
proof (cases "i = j")
  case False
  obtain t where t: "rc_dec i s = Inr t" "refs_ok (heap t) (mset (vars t))" "vars t = (vars s)[i := None]"
    using mt_count.dtor_ok [OF assms(1,3)] by (auto simp: rc_dec_dtor)
  let ?t = "t\<lparr>vars := (vars t)[i := vars t ! j]\<rparr>"
  have l: "length (vars t) = length (vars s)" using t(3) by simp
  have n: "vars t ! i = None" using t(3) assms(3) by simp
  have "refs_ok (heap t) (mset (vars t) - {#None#})"
    using t(2) mset_split [of i "vars t"] n l assms(3) by (metis refs_ok_None)
  moreover have "mset (vars ?t) - {#vars ?t ! i#} = mset (vars t) - {#None#}"
    using l n assms(3) by (simp add: mset_update)
  moreover have "raw_ok (vars ?t ! i) ?t"
    using mt_count.var_raw_ok [OF t(2), of j] l assms(3,4) by simp
  ultimately show ?thesis using rc_inc_ok [of ?t i] t(1) l assms(2,3) False
    by (auto simp: rc_assign_copy_def)
qed (use assms(1) in \<open>simp add: rc_assign_copy_def\<close>)

lemma rc_assign_move_ok:
  assumes "refs_ok (heap s) (mset (vars s))" and "i < length (vars s)" "j < length (vars s)"
  shows "\<exists>t. rc_assign_move i j s = Inr t \<and> refs_ok (heap t) (mset (vars t))"
proof (cases "i = j")
  case False
  obtain t where t: "rc_dec i s = Inr t" "refs_ok (heap t) (mset (vars t))" "vars t = (vars s)[i := None]"
    using mt_count.dtor_ok [OF assms(1,2)] by (auto simp: rc_dec_dtor)
  have "mset ((vars t)[i := vars t ! j, j := vars t ! i]) = mset (vars t)"
    using t(3) assms(2,3) by (intro mset_swap_nth) simp_all
  moreover have "vars t ! i = None" using t(3) assms(2) by simp
  ultimately show ?thesis using t(1,2) False by (simp add: rc_assign_move_def)
qed (use assms(1) in \<open>simp add: rc_assign_move_def\<close>)

lemma rc_exec_ok:
  assumes ok: "refs_ok (heap s) (mset (vars s))" and len: "length (vars s) < 2 ^ 64 - 2"
    and en: "rc_enabled a s"
  shows "\<exists>t. rc_exec a s = Inr t \<and> refs_ok (heap t) (mset (vars t))"
proof (cases a)
  case RcDefault
  with ok show ?thesis by (simp add: rc_default_def)
next
  case (RcCopy j)
  with rc_copy_ok [OF ok len] en show ?thesis by auto
next
  case (RcMove j)
  with mt_count.move_ok [OF ok] en show ?thesis by (simp add: rc_move_def ip_ctor_move_def)
next
  case (RcAssignCopy i j)
  with rc_assign_copy_ok [OF ok len] en show ?thesis by auto
next
  case (RcAssignMove i j)
  with rc_assign_move_ok [OF ok] en show ?thesis by auto
next
  case (RcDtor i)
  with mt_count.dtor_ok [OF ok] en show ?thesis by (auto simp: rc_dtor_def rc_dec_dtor)
next
  case (RcMake p v)
  from mt_count.make_ok [OF ok, of p v] en RcMake ok show ?thesis
    by (auto simp: make_rc_def rc_box_def make_intrusive_def ip_ctor_raw_def on_ptr_def add_ref_mt_def fetch_add_def)
qed

lemma rc_step_ok:
  assumes "store_ok r" and "rc_step a r = Some r'"
  shows "store_ok r'"
proof -
  obtain s where s: "r = Inr s" "refs_ok (heap s) (mset (vars s))" using assms(1) by (auto simp: store_ok_def)
  with assms(2) have "length (vars s) < 2 ^ 64 - 2" "rc_enabled a s" "r' = rc_exec a s"
    by (auto simp: rc_step_def split: if_splits)
  with rc_exec_ok [OF s(2) this(1,2)] show ?thesis by (auto simp: store_ok_def)
qed

interpretation rc: machine_inv rc_step "Inr empty_store" store_ok
  by unfold_locales (auto intro: store_ok_empty rc_step_ok)


definition rc_demo :: "nat rc_act list" where
  "rc_demo = [RcMake 7 42, RcCopy 0, RcAssignCopy 0 1, RcMove 0, RcAssignMove 1 2]"


end
