(* ===== verification/Handoff.thy ===== *)
theory Handoff
  imports Prelude
begin

text \<open>
  The protocol that \<open>WaitAnyAwaitable\<close> and \<open>WaitAllAwaitable\<close> of
  \<open>include/awaitable.hpp\<close> share: runner coroutines work on a shared state; the awaiting
  coroutine publishes its handle in \<open>coroutine_addr\<close> and checks again; whoever takes
  the handle out of the cell with \<open>exchange(nullptr)\<close> resumes it. The work of the
  runners is a parameter, with the locale \<open>handoff\<close> saying what it must promise.
\<close>

section \<open>The machine\<close>

text \<open>
  A runner works with a local state \<open>'l\<close>, then either quits or exchanges the cell and
  resumes what it found. \<open>SStart\<close> to \<open>SReturned\<close> is the thread that runs
  \<open>await_ready\<close> and \<open>await_suspend\<close>; \<open>frame\<close> is the awaiting coroutine itself, which
  another thread may resume while the first is still in \<open>await_suspend\<close>.
\<close>

datatype 'l runner = RWork 'l | RExchange | RResume handle | RDone

datatype 'l verdict = Cont 'l | Notify | Quit

datatype suspender = SStart | SPublish | SCheck | SExchange | SResume handle | SReturned

datatype frame = FRunning | FReady | FSuspended | FResumed | FFinished

text \<open>
  \<open>cell\<close> is \<open>coroutine_addr\<close>; \<open>sbuf\<close> the store buffer of the suspending thread, which a
  \<open>memory_order_release\<close> store may stay in while a later load of another location is
  performed. \<open>alive\<close>: the awaitable object, a temporary of the awaiting coroutine, exists.
  \<open>got\<close> is what \<open>await_resume\<close> returned.
\<close>

record ('c, 'l, 'r) hand =
  shared :: 'c
  cell :: "handle option"
  sbuf :: "handle option"
  runners :: "'l runner list"
  susp :: suspender
  frame_st :: frame
  resumes :: nat
  alive :: bool
  got :: "'r option"
  hbad :: "fault option"

definition hand_init :: "'c \<Rightarrow> 'l list \<Rightarrow> ('c, 'l, 'r) hand" where
  "hand_init c ls = \<lparr>shared = c, cell = None, sbuf = None, runners = map RWork ls, susp = SStart,
     frame_st = FRunning, resumes = 0, alive = True, got = None, hbad = None\<rparr>"

datatype 'x hact =
    Work nat 'x | RunExchange nat | RunResume nat
  | AwaitReady | Publish handle | Flush | Check | SuspExchange | SuspResume | Continue

fun after_verdict :: "'l verdict \<Rightarrow> 'l runner" where
  "after_verdict (Cont l) = RWork l"
| "after_verdict Notify = RExchange"
| "after_verdict Quit = RDone"

definition resume_frame :: "('c, 'l, 'r) hand \<Rightarrow> ('c, 'l, 'r) hand" where
  "resume_frame s = (if frame_st s = FSuspended then s\<lparr>frame_st := FResumed, resumes := resumes s + 1\<rparr>
     else s\<lparr>hbad := Some Unreachable\<rparr>)"

lemma resume_frame_fields [simp]:
  "cell (resume_frame s) = cell s" "sbuf (resume_frame s) = sbuf s" "shared (resume_frame s) = shared s"
  "runners (resume_frame s) = runners s" "susp (resume_frame s) = susp s"
  by (simp_all add: resume_frame_def)

definition set_r :: "nat \<Rightarrow> 'l runner \<Rightarrow> ('c, 'l, 'r) hand \<Rightarrow> ('c, 'l, 'r) hand" where
  "set_r i r s = s\<lparr>runners := (runners s)[i := r]\<rparr>"

definition drain_buf :: "('c, 'l, 'r) hand \<Rightarrow> ('c, 'l, 'r) hand" where
  "drain_buf s = (case sbuf s of None \<Rightarrow> s | Some h \<Rightarrow> s\<lparr>cell := Some h, sbuf := None\<rparr>)"

text \<open>
  The step function is that of one awaitable type: \<open>rstep\<close> its runners, \<open>ready\<close> the
  condition of \<open>await_ready\<close> and of the second look in \<open>await_suspend\<close>, \<open>rd\<close> what
  \<open>await_resume\<close> reads. With \<open>sc\<close> the store of the handle is visible at once.
  \<open>Continue\<close> runs \<open>await_resume\<close> and the end of the full expression.
\<close>

fun hand_act :: "bool \<Rightarrow> (nat \<Rightarrow> 'x \<Rightarrow> 'c \<Rightarrow> 'l \<Rightarrow> ('c \<times> 'l verdict) option) \<Rightarrow> ('c \<Rightarrow> bool) \<Rightarrow> ('c \<Rightarrow> 'r)
    \<Rightarrow> 'x hact \<Rightarrow> ('c, 'l, 'r) hand \<Rightarrow> ('c, 'l, 'r) hand option" where
  "hand_act sc rstep ready rd (Work i x) s =
     (if \<not> i < length (runners s) then None else case runners s ! i of
        RWork l \<Rightarrow> (case rstep i x (shared s) l of
           None \<Rightarrow> None
         | Some (c, v) \<Rightarrow> Some (set_r i (after_verdict v) (s\<lparr>shared := c\<rparr>)))
      | _ \<Rightarrow> None)"
| "hand_act sc rstep ready rd (RunExchange i) s =
     (if \<not> i < length (runners s) then None else case runners s ! i of
        RExchange \<Rightarrow> Some (set_r i (case cell s of None \<Rightarrow> RDone | Some h \<Rightarrow> RResume h) (s\<lparr>cell := None\<rparr>))
      | _ \<Rightarrow> None)"
| "hand_act sc rstep ready rd (RunResume i) s =
     (if \<not> i < length (runners s) then None else case runners s ! i of
        RResume h \<Rightarrow> Some (resume_frame (set_r i RDone s))
      | _ \<Rightarrow> None)"
| "hand_act sc rstep ready rd AwaitReady s =
     (if susp s \<noteq> SStart then None
      else if ready (shared s) then Some (s\<lparr>susp := SReturned, frame_st := FReady\<rparr>)
      else Some (s\<lparr>susp := SPublish, frame_st := FSuspended\<rparr>))"
| "hand_act sc rstep ready rd (Publish h) s =
     (if susp s \<noteq> SPublish then None
      else if sc then Some (s\<lparr>cell := Some h, susp := SCheck\<rparr>)
      else Some (s\<lparr>sbuf := Some h, susp := SCheck\<rparr>))"
| "hand_act sc rstep ready rd Flush s = (if sbuf s = None then None else Some (drain_buf s))"
| "hand_act sc rstep ready rd Check s =
     (if susp s \<noteq> SCheck then None
      else if \<not> alive s then Some (s\<lparr>hbad := Some UseAfterFree\<rparr>)
      else Some (s\<lparr>susp := (if ready (shared s) then SExchange else SReturned)\<rparr>))"
| "hand_act sc rstep ready rd SuspExchange s =
     (if susp s \<noteq> SExchange then None
      else if \<not> alive s then Some (s\<lparr>hbad := Some UseAfterFree\<rparr>)
      else (let t = drain_buf s in
        Some (t\<lparr>cell := None, susp := (case cell t of None \<Rightarrow> SReturned | Some h \<Rightarrow> SResume h)\<rparr>)))"
| "hand_act sc rstep ready rd SuspResume s =
     (case susp s of SResume h \<Rightarrow> Some (resume_frame (s\<lparr>susp := SReturned\<rparr>)) | _ \<Rightarrow> None)"
| "hand_act sc rstep ready rd Continue s =
     (if frame_st s = FReady \<or> frame_st s = FResumed
      then Some (s\<lparr>frame_st := FFinished, got := Some (rd (shared s)), alive := False\<rparr>) else None)"

definition hand_step where
  "hand_step sc rstep ready rd a s = (if hbad s \<noteq> None then None else hand_act sc rstep ready rd a s)"

section \<open>One resumption\<close>

text \<open>
  The handle is a token: it is in the cell, in the store buffer, in the hands of whoever is
  about to resume it, or used up.
\<close>

fun r_token :: "'l runner \<Rightarrow> nat" where
  "r_token (RResume h) = 1"
| "r_token r = 0"

fun s_token :: "suspender \<Rightarrow> nat" where
  "s_token (SResume h) = 1"
| "s_token s = 0"

definition opt_token :: "'a option \<Rightarrow> nat" where
  "opt_token x = (if x = None then 0 else 1)"

lemma opt_token_simps [simp]: "opt_token None = 0" "opt_token (Some x) = 1"
  by (simp_all add: opt_token_def)

definition tokens :: "('c, 'l, 'r) hand \<Rightarrow> nat" where
  "tokens s = opt_token (cell s) + opt_token (sbuf s) + sum_list (map r_token (runners s)) + s_token (susp s) + resumes s"

definition published :: "('c, 'l, 'r) hand \<Rightarrow> bool" where
  "published s \<longleftrightarrow> susp s \<noteq> SStart \<and> susp s \<noteq> SPublish \<and> resumes s = 0 \<and> frame_st s = FSuspended"

definition token_inv :: "('c, 'l, 'r) hand \<Rightarrow> bool" where
  "token_inv s \<longleftrightarrow>
     (susp s = SStart \<longrightarrow> frame_st s = FRunning \<and> tokens s = 0) \<and>
     (susp s = SPublish \<longrightarrow> frame_st s = FSuspended \<and> tokens s = 0) \<and>
     (susp s \<in> {SStart, SPublish} \<or> (frame_st s = FReady \<and> susp s = SReturned \<and> tokens s = 0)
       \<or> (frame_st s = FSuspended \<and> tokens s = 1 \<and> resumes s = 0)
       \<or> (frame_st s = FResumed \<and> tokens s = 1 \<and> resumes s = 1)
       \<or> (frame_st s = FFinished \<and> resumes s \<le> 1 \<and> tokens s = resumes s \<and> (resumes s = 0 \<longrightarrow> susp s = SReturned)))"

declare sum_list_eq_0_iff [simp del]

lemma token_inv_init: "token_inv (hand_init c ls)"
  by (simp add: token_inv_def hand_init_def tokens_def comp_def sum_map_zero)

lemma r_token_update:
  "i < length rs \<Longrightarrow> sum_list (map r_token (rs[i := r])) + r_token (rs ! i) = sum_list (map r_token rs) + r_token r"
  by (rule sum_map_update)

lemma r_token_le: "i < length rs \<Longrightarrow> r_token (rs ! i) \<le> sum_list (map r_token rs)"
  by (rule nth_le_sum_map)

lemma r_token_zero: "r_token r = 0 \<longleftrightarrow> (\<forall>h. r \<noteq> RResume h)"
  by (cases r) simp_all

lemma r_token_after [simp]: "r_token (after_verdict v) = 0"
  by (cases v) simp_all

lemma resume_frame_token:
  assumes "token_inv s" and "0 < sum_list (map r_token (runners s)) + s_token (susp s)"
  shows "frame_st s = FSuspended \<and> resumes s = 0 \<and> tokens s = 1"
  using assms by (auto simp: token_inv_def tokens_def)

lemma token_inv_bad [simp]: "token_inv (s\<lparr>hbad := e\<rparr>) = token_inv s"
  by (simp add: token_inv_def tokens_def)

lemma tokens_le: "token_inv s \<Longrightarrow> tokens s \<le> 1"
  by (auto simp: token_inv_def)

lemma token_frame:
  "token_inv s \<Longrightarrow> susp s \<notin> {SStart, SPublish, SReturned} \<Longrightarrow> susp s' \<notin> {SStart, SPublish} \<Longrightarrow>
   tokens s' = tokens s \<Longrightarrow> frame_st s' = frame_st s \<Longrightarrow> resumes s' = resumes s \<Longrightarrow> token_inv s'"
  by (auto simp: token_inv_def)

lemma tokens_resumes: "tokens s = 0 \<Longrightarrow> resumes s = 0"
  by (simp add: tokens_def)

lemma token_inv_resumes: "token_inv s \<Longrightarrow> resumes s \<le> 1"
  using tokens_le [of s] by (simp add: tokens_def)

lemma drain_buf_token: "token_inv s \<Longrightarrow> tokens (drain_buf s) = tokens s"
  using tokens_le [of s] by (cases "sbuf s"; cases "cell s") (simp_all add: tokens_def drain_buf_def)

lemma hand_act_token:
  assumes inv: "token_inv s" and st: "hand_act sc rstep ready rd a s = Some s'"
  shows "token_inv s' \<and> (hbad s = None \<longrightarrow> hbad s' \<in> {None, Some UseAfterFree})"
proof (cases a)
  case (Work i x)
  then obtain l c v where "i < length (runners s)" "runners s ! i = RWork l"
    "s' = set_r i (after_verdict v) (s\<lparr>shared := c\<rparr>)"
    using st by (auto split: if_splits runner.splits option.splits)
  with inv r_token_update [of i "runners s" "after_verdict v"] show ?thesis
    by (simp add: token_inv_def tokens_def set_r_def)
next
  case (RunExchange i)
  then have i: "i < length (runners s)" "runners s ! i = RExchange"
    and s': "s' = set_r i (case cell s of None \<Rightarrow> RDone | Some h \<Rightarrow> RResume h) (s\<lparr>cell := None\<rparr>)"
    using st by (auto split: if_splits runner.splits)
  from r_token_update [OF i(1), of "case cell s of None \<Rightarrow> RDone | Some h \<Rightarrow> RResume h"] i(2)
  have "sum_list (map r_token ((runners s)[i := case cell s of None \<Rightarrow> RDone | Some h \<Rightarrow> RResume h]))
      = sum_list (map r_token (runners s)) + opt_token (cell s)"
    by (cases "cell s") simp_all
  then have "tokens s' = tokens s" "susp s' = susp s" "frame_st s' = frame_st s" "resumes s' = resumes s"
    "hbad s' = hbad s"
    by (simp_all add: s' set_r_def tokens_def)
  with inv show ?thesis by (simp add: token_inv_def)
next
  case (RunResume i)
  then obtain h where i: "i < length (runners s)" "runners s ! i = RResume h"
    and s': "s' = resume_frame (set_r i RDone s)"
    using st by (auto split: if_splits runner.splits)
  have "0 < sum_list (map r_token (runners s))" using r_token_le [OF i(1)] i(2) by simp
  with resume_frame_token [OF inv] have f: "frame_st s = FSuspended" "resumes s = 0" "tokens s = 1" by simp_all
  with s' r_token_update [OF i(1), of RDone] i(2) have
    "tokens s' = 1" "frame_st s' = FResumed" "resumes s' = 1" "susp s' = susp s" "hbad s' = hbad s"
    by (simp_all add: resume_frame_def set_r_def tokens_def)
  with inv f show ?thesis by (auto simp: token_inv_def)
next
  case SuspResume
  then obtain h where h: "susp s = SResume h" and s': "s' = resume_frame (s\<lparr>susp := SReturned\<rparr>)"
    using st by (auto split: suspender.splits)
  with resume_frame_token [OF inv] have f: "frame_st s = FSuspended" "resumes s = 0" "tokens s = 1" by simp_all
  with s' h show ?thesis by (simp add: resume_frame_def token_inv_def tokens_def)
next
  case SuspExchange
  then have x: "susp s = SExchange" using st by (simp split: if_splits)
  show ?thesis
  proof (cases "alive s")
    case False
    with SuspExchange st x inv show ?thesis by auto
  next
    case True
    let ?t = "drain_buf s"
    have t: "tokens ?t = tokens s" "resumes ?t = resumes s" "frame_st ?t = frame_st s" "runners ?t = runners s"
      "sbuf ?t = None" "susp ?t = SExchange" "hbad ?t = hbad s"
      using drain_buf_token [OF inv] x by (simp_all add: drain_buf_def split: option.split)
    have s': "s' = ?t\<lparr>cell := None, susp := (case cell ?t of None \<Rightarrow> SReturned | Some h \<Rightarrow> SResume h)\<rparr>"
      using SuspExchange st x True by (simp add: Let_def)
    then have "tokens s' = tokens s" using t by (cases "cell ?t") (simp_all add: tokens_def)
    moreover have "susp s' \<notin> {SStart, SPublish}" "susp s' = SReturned \<or> susp s \<noteq> SReturned"
      "frame_st s' = frame_st s" "resumes s' = resumes s" "hbad s' = hbad s"
      using s' t x by (auto split: option.splits)
    ultimately show ?thesis using inv x by (simp add: token_inv_def) auto
  qed
next
  case Flush
  with st have s': "s' = drain_buf s" by (simp split: if_splits)
  then have "tokens s' = tokens s" "susp s' = susp s" "frame_st s' = frame_st s" "resumes s' = resumes s"
    "hbad s' = hbad s"
    using drain_buf_token [OF inv] by (simp_all add: drain_buf_def split: option.split)
  with inv show ?thesis by (simp add: token_inv_def)
next
  case AwaitReady
  then have x: "susp s = SStart" and s': "s' = (if ready (shared s)
      then s\<lparr>susp := SReturned, frame_st := FReady\<rparr> else s\<lparr>susp := SPublish, frame_st := FSuspended\<rparr>)"
    using st by (simp_all split: if_splits)
  have "tokens s = 0" using inv x by (simp add: token_inv_def)
  then have "tokens s' = 0" using s' x by (simp add: tokens_def)
  with s' show ?thesis by (simp add: token_inv_def)
next
  case (Publish h)
  then have x: "susp s = SPublish" and s': "s' = (if sc
      then s\<lparr>cell := Some h, susp := SCheck\<rparr> else s\<lparr>sbuf := Some h, susp := SCheck\<rparr>)"
    using st by (simp_all split: if_splits)
  have t: "tokens s = 0" "frame_st s = FSuspended" using inv x by (simp_all add: token_inv_def)
  then have "tokens s' = 1" "resumes s' = 0" using s' by (simp_all add: tokens_def)
  with s' t show ?thesis by (simp add: token_inv_def)
next
  case Check
  then have x: "susp s = SCheck" and s': "s' = (if alive s
      then s\<lparr>susp := (if ready (shared s) then SExchange else SReturned)\<rparr> else s\<lparr>hbad := Some UseAfterFree\<rparr>)"
    using st by (auto split: if_splits)
  have "tokens s' = tokens s" using s' x by (simp add: tokens_def)
  with s' x show ?thesis by (auto intro!: token_frame [OF inv])
next
  case Continue
  then have x: "frame_st s = FReady \<or> frame_st s = FResumed"
    and s': "s' = s\<lparr>frame_st := FFinished, got := Some (rd (shared s)), alive := False\<rparr>"
    using st by (simp_all split: if_splits)
  have "tokens s' = tokens s" using s' by (simp add: tokens_def)
  with s' x inv show ?thesis by (auto simp: token_inv_def tokens_resumes)
qed

interpretation hand: machine_inv "hand_step sc rstep ready rd" "hand_init c ls"
    "\<lambda>s. token_inv s \<and> hbad s \<in> {None, Some UseAfterFree}"
  for sc rstep ready rd c ls
proof (unfold_locales, goal_cases)
  case 1
  show ?case by (simp add: token_inv_init) (simp add: hand_init_def)
next
  case (2 s a s')
  then have "hbad s = None" "hand_act sc rstep ready rd a s = Some s'"
    by (simp_all add: hand_step_def split: if_splits)
  with 2(1) show ?case by (blast dest: hand_act_token)
qed

text \<open>The threads have left the protocol.\<close>

definition runners_done :: "('c, 'l, 'r) hand \<Rightarrow> bool" where
  "runners_done s \<longleftrightarrow> (\<forall>r \<in> set (runners s). r = RDone)"

lemma returned_once:
  "token_inv s \<Longrightarrow> susp s = SReturned \<Longrightarrow> frame_st s \<noteq> FSuspended \<Longrightarrow>
   resumes s = 1 \<or> resumes s = 0 \<and> frame_st s \<in> {FReady, FFinished}"
  using tokens_resumes [of s] by (auto simp: token_inv_def)

section \<open>No lost wake-up\<close>

text \<open>
  What a kind of awaitable promises about its runners. \<open>cinv\<close> ties the shared state to
  the runners; once \<open>ready\<close> holds it stays; the runner that makes it hold is committed
  to the exchange, and stays committed and enabled until it gets there.
\<close>

fun committed :: "('l \<Rightarrow> bool) \<Rightarrow> 'l runner \<Rightarrow> bool" where
  "committed commit (RWork l) = commit l"
| "committed commit RExchange = True"
| "committed commit r = False"

fun working :: "'l runner \<Rightarrow> bool" where
  "working (RWork l) = True"
| "working r = False"

fun past_work :: "'l runner \<Rightarrow> bool" where
  "past_work RExchange = True"
| "past_work (RResume h) = True"
| "past_work r = False"

locale handoff =
  fixes rstep :: "nat \<Rightarrow> 'x \<Rightarrow> 'c \<Rightarrow> 'l \<Rightarrow> ('c \<times> 'l verdict) option"
    and ready :: "'c \<Rightarrow> bool"
    and commit :: "'l \<Rightarrow> bool"
    and cinv :: "'c \<Rightarrow> 'l runner list \<Rightarrow> bool"
  assumes work_inv: "cinv c rs \<Longrightarrow> i < length rs \<Longrightarrow> rs ! i = RWork l \<Longrightarrow> rstep i x c l = Some (c', v) \<Longrightarrow>
      cinv c' (rs[i := after_verdict v])"
    and rest_inv: "cinv c rs \<Longrightarrow> i < length rs \<Longrightarrow> past_work (rs ! i) \<Longrightarrow> r = RDone \<or> (\<exists>h. r = RResume h) \<Longrightarrow>
      cinv c (rs[i := r])"
    and ready_mono: "cinv c rs \<Longrightarrow> i < length rs \<Longrightarrow> rs ! i = RWork l \<Longrightarrow> rstep i x c l = Some (c', v) \<Longrightarrow>
      ready c \<Longrightarrow> ready c'"
    and ready_commit: "cinv c rs \<Longrightarrow> i < length rs \<Longrightarrow> rs ! i = RWork l \<Longrightarrow> rstep i x c l = Some (c', v) \<Longrightarrow>
      \<not> ready c \<Longrightarrow> ready c' \<Longrightarrow> committed commit (after_verdict v)"
    and commit_keeps: "cinv c rs \<Longrightarrow> i < length rs \<Longrightarrow> rs ! i = RWork l \<Longrightarrow> rstep i x c l = Some (c', v) \<Longrightarrow>
      commit l \<Longrightarrow> committed commit (after_verdict v)"
    and commit_enabled: "cinv c rs \<Longrightarrow> i < length rs \<Longrightarrow> rs ! i = RWork l \<Longrightarrow> commit l \<Longrightarrow>
      \<exists>x c' v. rstep i x c l = Some (c', v)"
    and notify_ready: "cinv c rs \<Longrightarrow> i < length rs \<Longrightarrow> rs ! i = RWork l \<Longrightarrow> rstep i x c l = Some (c', Notify) \<Longrightarrow>
      ready c'"
begin

definition wake_inv :: "('c, 'l, 'r) hand \<Rightarrow> bool" where
  "wake_inv s \<longleftrightarrow> sbuf s = None \<and> cinv (shared s) (runners s) \<and>
     (cell s \<noteq> None \<longrightarrow> ready (shared s) \<longrightarrow> susp s \<in> {SCheck, SExchange} \<or>
        (\<exists>i < length (runners s). committed commit (runners s ! i)))"

lemma wake_inv_init: "cinv c (map RWork ls) \<Longrightarrow> wake_inv (hand_init c ls)"
  by (simp add: wake_inv_def hand_init_def)

lemma committed_other:
  "\<exists>j < length rs. committed commit (rs ! j) \<Longrightarrow> \<not> committed commit (rs ! i) \<or> committed commit r \<Longrightarrow>
   i < length rs \<Longrightarrow> \<exists>j < length (rs[i := r]). committed commit (rs[i := r] ! j)"
  by (metis length_list_update nth_list_update)

lemma wake_inv_work:
  assumes inv: "wake_inv s" and i: "i < length (runners s)" "runners s ! i = RWork l"
    and r: "rstep i x (shared s) l = Some (c, v)"
  shows "wake_inv (set_r i (after_verdict v) (s\<lparr>shared := c\<rparr>))"
proof -
  have ci: "cinv (shared s) (runners s)" using inv by (simp add: wake_inv_def)
  have "susp s \<in> {SCheck, SExchange} \<or>
      (\<exists>j < length (runners s). committed commit ((runners s)[i := after_verdict v] ! j))"
    if "cell s \<noteq> None" "ready c"
  proof (cases "ready (shared s)")
    case True
    with inv that have "susp s \<in> {SCheck, SExchange} \<or> (\<exists>j < length (runners s). committed commit (runners s ! j))"
      by (simp add: wake_inv_def)
    then show ?thesis
    proof
      assume "\<exists>j < length (runners s). committed commit (runners s ! j)"
      moreover have "\<not> committed commit (runners s ! i) \<or> committed commit (after_verdict v)"
        using commit_keeps [OF ci i r] i(2) by auto
      ultimately show ?thesis using committed_other [of "runners s" i "after_verdict v"] i(1) by simp
    qed simp
  next
    case False
    from ready_commit [OF ci i r False that(2)] i(1) show ?thesis by (metis nth_list_update_eq)
  qed
  with inv work_inv [OF ci i r] show ?thesis by (simp add: wake_inv_def set_r_def)
qed

lemma wake_inv_step:
  assumes inv: "wake_inv s" and st: "hand_step True rstep ready rd a s = Some s'"
  shows "wake_inv s'"
proof -
  have st: "hand_act True rstep ready rd a s = Some s'" using st by (simp add: hand_step_def split: if_splits)
  have buf: "sbuf s = None" and ci: "cinv (shared s) (runners s)" using inv by (simp_all add: wake_inv_def)
  show ?thesis
  proof (cases a)
    case (Work i x)
    then obtain l c v where "i < length (runners s)" "runners s ! i = RWork l"
      "rstep i x (shared s) l = Some (c, v)" "s' = set_r i (after_verdict v) (s\<lparr>shared := c\<rparr>)"
      using st by (auto split: if_splits runner.splits option.splits)
    with wake_inv_work [OF inv] show ?thesis by simp
  next
    case (RunExchange i)
    then have i: "i < length (runners s)" "runners s ! i = RExchange"
      and s': "s' = set_r i (case cell s of None \<Rightarrow> RDone | Some h \<Rightarrow> RResume h) (s\<lparr>cell := None\<rparr>)"
      using st by (auto split: if_splits runner.splits)
    have "cinv (shared s) ((runners s)[i := case cell s of None \<Rightarrow> RDone | Some h \<Rightarrow> RResume h])"
      using i by (intro rest_inv [OF ci]) (simp_all split: option.split)
    with s' buf show ?thesis by (simp add: wake_inv_def set_r_def)
  next
    case (RunResume i)
    then obtain h where i: "i < length (runners s)" "runners s ! i = RResume h"
      and s': "s' = resume_frame (set_r i RDone s)"
      using st by (auto split: if_splits runner.splits)
    have "cinv (shared s) ((runners s)[i := RDone])" using i by (intro rest_inv [OF ci]) simp_all
    moreover have "(\<exists>j < length (runners s). committed commit (runners s ! j)) \<Longrightarrow>
        (\<exists>j < length (runners s). committed commit ((runners s)[i := RDone] ! j))"
      using committed_other [of "runners s" i RDone] i by simp
    ultimately show ?thesis using s' inv by (auto simp: wake_inv_def set_r_def)
  next
    case SuspExchange
    with st inv buf show ?thesis
      by (auto simp: wake_inv_def drain_buf_def Let_def split: if_splits)
  next
    case SuspResume
    with st inv show ?thesis by (auto simp: wake_inv_def split: suspender.splits)
  qed (use st inv in \<open>auto simp: wake_inv_def split: if_splits\<close>)
qed

text \<open>
  Independently of \<open>sc\<close>: whoever exchanges or resumes, and the coroutine itself once it
  goes on, has the condition.
\<close>

definition ready_inv :: "('c, 'l, 'r) hand \<Rightarrow> bool" where
  "ready_inv s \<longleftrightarrow> cinv (shared s) (runners s) \<and>
     ((\<exists>r \<in> set (runners s). past_work r) \<longrightarrow> ready (shared s)) \<and>
     (susp s = SExchange \<or> (\<exists>h. susp s = SResume h) \<longrightarrow> ready (shared s)) \<and>
     (frame_st s \<in> {FReady, FResumed, FFinished} \<longrightarrow> ready (shared s))"

lemma ready_inv_init: "cinv c (map RWork ls) \<Longrightarrow> ready_inv (hand_init c ls)"
  by (auto simp: ready_inv_def hand_init_def)

lemma ready_inv_shared: "ready_inv s \<Longrightarrow> cinv (shared s) (runners s)"
  by (simp add: ready_inv_def)

lemma ready_inv_frame:
  "ready_inv s \<Longrightarrow> shared s' = shared s \<Longrightarrow> runners s' = runners s \<Longrightarrow>
   (susp s' = SExchange \<or> (\<exists>h. susp s' = SResume h) \<Longrightarrow> ready (shared s)) \<Longrightarrow>
   (frame_st s' \<in> {FReady, FResumed, FFinished} \<Longrightarrow> ready (shared s)) \<Longrightarrow> ready_inv s'"
  unfolding ready_inv_def by simp

lemma ready_inv_frameD:
  assumes "ready_inv s"
  shows "susp s = SExchange \<Longrightarrow> ready (shared s)" and "susp s = SResume h \<Longrightarrow> ready (shared s)"
    and "frame_st s = FReady \<Longrightarrow> ready (shared s)" and "frame_st s = FResumed \<Longrightarrow> ready (shared s)"
    and "frame_st s = FFinished \<Longrightarrow> ready (shared s)"
  using assms unfolding ready_inv_def by simp_all

lemma past_work_update: "r \<in> set (rs[i := q]) \<Longrightarrow> past_work r \<Longrightarrow> past_work q \<or> (\<exists>r \<in> set rs. past_work r)"
  using set_update_subset_insert [of rs i q] by auto

lemma past_work_after [simp]: "past_work (after_verdict v) \<longleftrightarrow> v = Notify"
  by (cases v) simp_all

lemma ready_inv_work:
  assumes inv: "ready_inv s" and i: "i < length (runners s)" "runners s ! i = RWork l"
    and r: "rstep i x (shared s) l = Some (c, v)"
  shows "ready_inv (set_r i (after_verdict v) (s\<lparr>shared := c\<rparr>))"
proof -
  note ci = ready_inv_shared [OF inv]
  have m: "ready (shared s) \<Longrightarrow> ready c" using ready_mono [OF ci i r] .
  have n: "v = Notify \<Longrightarrow> ready c" using notify_ready [OF ci i] r by simp
  have "ready c" if "q \<in> set ((runners s)[i := after_verdict v])" "past_work q" for q
    using past_work_update [OF that] m n inv by (auto simp: ready_inv_def)
  with m work_inv [OF ci i r] inv show ?thesis by (auto simp: ready_inv_def set_r_def)
qed

lemma resume_ready:
  "ready_inv s \<Longrightarrow> ready (shared s) \<Longrightarrow> ready_inv (resume_frame s)"
  by (simp add: ready_inv_def)

lemma ready_inv_rest:
  assumes inv: "ready_inv s" and i: "i < length (runners s)" "past_work (runners s ! i)" "q = RDone \<or> (\<exists>h. q = RResume h)"
  shows "ready_inv (set_r i q s)"
proof -
  have "ready (shared s)" if "r \<in> set ((runners s)[i := q])" "past_work r" for r
    using past_work_update [OF that] i(2) nth_mem [OF i(1)] inv by (auto simp: ready_inv_def)
  with inv rest_inv [OF ready_inv_shared [OF inv] i] show ?thesis by (auto simp: ready_inv_def set_r_def)
qed

lemma ready_inv_cell [simp]: "ready_inv (s\<lparr>cell := x\<rparr>) = ready_inv s" "ready_inv (s\<lparr>hbad := e\<rparr>) = ready_inv s"
  by (simp_all add: ready_inv_def)

lemma ready_inv_drain [simp]: "ready_inv (drain_buf s) = ready_inv s"
  by (simp add: drain_buf_def ready_inv_def split: option.split)

lemma ready_inv_step:
  assumes inv: "ready_inv s" and st: "hand_step sc rstep ready rd a s = Some s'"
  shows "ready_inv s'"
proof -
  have st: "hand_act sc rstep ready rd a s = Some s'" using st by (simp add: hand_step_def split: if_splits)
  show ?thesis
  proof (cases a)
    case (Work i x)
    then obtain l c v where "i < length (runners s)" "runners s ! i = RWork l"
      "rstep i x (shared s) l = Some (c, v)" "s' = set_r i (after_verdict v) (s\<lparr>shared := c\<rparr>)"
      using st by (auto split: if_splits runner.splits option.splits)
    with ready_inv_work [OF inv] show ?thesis by simp
  next
    case (RunExchange i)
    then have i: "i < length (runners s)" "runners s ! i = RExchange"
      and s': "s' = set_r i (case cell s of None \<Rightarrow> RDone | Some h \<Rightarrow> RResume h) (s\<lparr>cell := None\<rparr>)"
      using st by (auto split: if_splits runner.splits)
    with inv show ?thesis by (auto intro!: ready_inv_rest split: option.split)
  next
    case (RunResume i)
    then obtain h where i: "i < length (runners s)" "runners s ! i = RResume h"
      and s': "s' = resume_frame (set_r i RDone s)"
      using st by (auto split: if_splits runner.splits)
    have "ready (shared s)" using inv i nth_mem [OF i(1)] by (force simp: ready_inv_def)
    moreover have "ready_inv (set_r i RDone s)" using i by (intro ready_inv_rest [OF inv]) simp_all
    moreover have "shared (set_r i RDone s) = shared s" by (simp add: set_r_def)
    ultimately show ?thesis using s' by (simp add: resume_ready)
  next
    case SuspExchange
    then have x: "susp s = SExchange" using st by (simp split: if_splits)
    have "ready (shared s)" using inv x by (simp add: ready_inv_def)
    moreover have "shared (drain_buf s) = shared s" by (simp add: drain_buf_def split: option.split)
    ultimately have "ready_inv (drain_buf s\<lparr>cell := None, susp := y\<rparr>)" for y
      using inv ready_inv_drain [of s] by (simp add: ready_inv_def)
    with SuspExchange st x inv show ?thesis by (auto simp: Let_def split: if_splits)
  next
    case SuspResume
    then obtain h where h: "susp s = SResume h" and s': "s' = resume_frame (s\<lparr>susp := SReturned\<rparr>)"
      using st by (auto split: suspender.splits)
    then have "ready (shared s)" "ready_inv (s\<lparr>susp := SReturned\<rparr>)" using inv by (simp_all add: ready_inv_def)
    with s' resume_ready [of "s\<lparr>susp := SReturned\<rparr>"] show ?thesis by simp
  next
    case Flush
    with st inv show ?thesis by (simp split: if_splits) auto
  next
    case AwaitReady
    then show ?thesis using st ready_inv_frameD [OF inv]
      by (cases "ready (shared s)") (auto intro!: ready_inv_frame [OF inv] split: if_splits)
  next
    case (Publish h)
    then show ?thesis using st ready_inv_frameD [OF inv]
      by (cases sc) (auto intro!: ready_inv_frame [OF inv] split: if_splits)
  next
    case Check
    then show ?thesis using st ready_inv_frameD [OF inv]
      by (cases "alive s"; cases "ready (shared s)") (auto intro!: ready_inv_frame [OF inv] split: if_splits)
  next
    case Continue
    then show ?thesis using st ready_inv_frameD [OF inv]
      by (auto intro!: ready_inv_frame [OF inv] split: if_splits)
  qed
qed

text \<open>
  A suspended coroutine whose condition holds: as long as nothing has faulted, some thread
  is still on its way to resume it.
\<close>

lemma no_lost_wakeup:
  assumes tok: "token_inv s" and inv: "wake_inv s" and f: "frame_st s = FSuspended" and r: "ready (shared s)"
  shows "susp s \<noteq> SReturned \<or>
    (\<exists>i < length (runners s). committed commit (runners s ! i) \<or> (\<exists>h. runners s ! i = RResume h))"
proof (rule ccontr)
  assume "\<not> ?thesis"
  then have s: "susp s = SReturned" and c: "\<forall>i < length (runners s). \<not> committed commit (runners s ! i)"
    and h: "\<forall>i < length (runners s). r_token (runners s ! i) = 0"
    by (auto simp: r_token_zero)
  have "sum_list (map r_token (runners s)) = 0"
    using h by (intro sum_map_zero) (auto simp: in_set_conv_nth)
  moreover have "tokens s = 1" "resumes s = 0" using tok f s by (auto simp: token_inv_def)
  moreover have "cell s = None" "sbuf s = None" using inv r s c by (auto simp: wake_inv_def)
  ultimately show False using s by (simp add: tokens_def)
qed

lemma resumed_when_done:
  assumes "token_inv s" and "wake_inv s" and "ready (shared s)" and "runners_done s" and "susp s = SReturned"
  shows "frame_st s \<noteq> FSuspended"
proof
  assume "frame_st s = FSuspended"
  with no_lost_wakeup [OF assms(1,2) _ assms(3)] assms(5) obtain i where
    "i < length (runners s)" "committed commit (runners s ! i) \<or> (\<exists>h. runners s ! i = RResume h)" by auto
  with assms(4) nth_mem show False by (fastforce simp: runners_done_def)
qed

end

text \<open>
  An awaitable whose result no longer changes once it is ready, as far as \<open>key\<close> sees it:
  what \<open>await_resume\<close> returned is what the shared state still says.
\<close>

locale handoff_stable = handoff rstep ready commit cinv
  for rstep :: "nat \<Rightarrow> 'x \<Rightarrow> 'c \<Rightarrow> 'l \<Rightarrow> ('c \<times> 'l verdict) option"
    and ready :: "'c \<Rightarrow> bool" and commit :: "'l \<Rightarrow> bool" and cinv :: "'c \<Rightarrow> 'l runner list \<Rightarrow> bool" +
  fixes rd :: "'c \<Rightarrow> 'r" and key :: "'r \<Rightarrow> 'k"
  assumes rd_stable: "cinv c rs \<Longrightarrow> i < length rs \<Longrightarrow> rs ! i = RWork l \<Longrightarrow> rstep i x c l = Some (c', v) \<Longrightarrow>
      ready c \<Longrightarrow> key (rd c') = key (rd c)"
begin

definition got_inv :: "('c, 'l, 'r) hand \<Rightarrow> bool" where
  "got_inv s \<longleftrightarrow> (frame_st s = FFinished \<longleftrightarrow> got s \<noteq> None) \<and> (\<forall>r. got s = Some r \<longrightarrow> key r = key (rd (shared s)))"

lemma got_inv_frame: "got_inv s \<Longrightarrow> frame_st s' = frame_st s \<Longrightarrow> got s' = got s \<Longrightarrow>
    key (rd (shared s')) = key (rd (shared s)) \<Longrightarrow> got_inv s'"
  by (simp add: got_inv_def)

lemma got_inv_resume: "got_inv s \<Longrightarrow> got_inv (resume_frame s)"
  by (cases "got s") (simp_all add: got_inv_def resume_frame_def)

lemma got_inv_step:
  assumes inv: "got_inv s" and r: "ready_inv s" and tok: "token_inv s"
    and st: "hand_step sc rstep ready rd a s = Some s'"
  shows "got_inv s'"
proof -
  have st: "hand_act sc rstep ready rd a s = Some s'" using st by (simp add: hand_step_def split: if_splits)
  show ?thesis
  proof (cases a)
    case (Work i x)
    then obtain l c v where w: "i < length (runners s)" "runners s ! i = RWork l"
      "rstep i x (shared s) l = Some (c, v)" and s': "s' = set_r i (after_verdict v) (s\<lparr>shared := c\<rparr>)"
      using st by (auto split: if_splits runner.splits option.splits)
    have "key (rd c) = key (rd (shared s))" if "got s \<noteq> None"
    proof -
      from that inv have "frame_st s = FFinished" by (simp add: got_inv_def)
      with r have "ready (shared s)" by (simp add: ready_inv_def)
      with rd_stable [OF ready_inv_shared [OF r] w] show ?thesis .
    qed
    with inv s' show ?thesis by (auto simp: got_inv_def set_r_def)
  next
    case (RunExchange i)
    with st inv show ?thesis
      by (auto simp: set_r_def intro!: got_inv_frame [OF inv] split: if_splits runner.splits)
  next
    case (RunResume i)
    with st inv show ?thesis
      by (auto simp: set_r_def intro!: got_inv_resume got_inv_frame [OF inv] split: if_splits runner.splits)
  next
    case AwaitReady
    with st inv tok show ?thesis by (auto simp: got_inv_def token_inv_def split: if_splits)
  next
    case SuspExchange
    have "frame_st (drain_buf s) = frame_st s" "got (drain_buf s) = got s" "shared (drain_buf s) = shared s"
      by (simp_all add: drain_buf_def split: option.split)
    with SuspExchange st show ?thesis
      by (auto simp: Let_def intro!: got_inv_frame [OF inv] split: if_splits)
  next
    case Flush
    have "frame_st (drain_buf s) = frame_st s" "got (drain_buf s) = got s" "shared (drain_buf s) = shared s"
      by (simp_all add: drain_buf_def split: option.split)
    with Flush st show ?thesis by (auto intro!: got_inv_frame [OF inv] split: if_splits)
  next
    case SuspResume
    with st inv show ?thesis
      by (auto intro!: got_inv_resume got_inv_frame [OF inv] split: suspender.splits)
  qed (use st inv in \<open>auto simp: got_inv_def split: if_splits\<close>)
qed

end

end
