(* ===== verification/Meta.thy ===== *)
theory Meta
  imports Prelude
begin

text \<open>
  \<open>include/detail/meta.hpp\<close>: the compile-time functions on types and type lists that lay
  out the result storage of \<open>wait_any\<close>, \<open>wait_all\<close> and \<open>wait_each\<close>. A
  \<open>TypeList\<close> is a list of types; a template with a constraint or no primary definition
  is a partial function.
\<close>

section \<open>Types\<close>

text \<open>\<open>RefWrap t\<close> is \<open>std::reference_wrapper<t>\<close>, \<open>Obj n\<close> any other object type.\<close>

datatype ty = Void | Monostate | ErrorT | Obj nat | LRef ty | RRef ty | RefWrap ty

fun reference_storage :: "ty \<Rightarrow> ty" where
  "reference_storage (LRef t) = RefWrap t"
| "reference_storage (RRef t) = t"
| "reference_storage t = t"

fun decay_rvalue :: "ty \<Rightarrow> ty" where
  "decay_rvalue (LRef t) = LRef t"
| "decay_rvalue (RRef t) = t"
| "decay_rvalue t = t"

definition void_map :: "ty \<Rightarrow> ty" where
  "void_map t = (if t = Void then Monostate else t)"

section \<open>Type lists\<close>

definition typelist_concat :: "'t list \<Rightarrow> 't list \<Rightarrow> 't list" where
  "typelist_concat ts us = ts @ us"

fun typelist_remove :: "'t list \<Rightarrow> 't \<Rightarrow> 't list" where
  "typelist_remove [] u = []"
| "typelist_remove (t # ts) u =
     (let tail = typelist_remove ts u in if t = u then tail else typelist_concat [t] tail)"

fun typelist_unique :: "'t list \<Rightarrow> 't list" where
  "typelist_unique [] = []"
| "typelist_unique (t # ts) = typelist_concat [t] (typelist_remove (typelist_unique ts) t)"

definition typelist_map :: "('t \<Rightarrow> 'u) \<Rightarrow> 't list \<Rightarrow> 'u list" where
  "typelist_map m ts = map m ts"

definition typelist_castto :: "('t list \<Rightarrow> 'c) \<Rightarrow> 't list \<Rightarrow> 'c" where
  "typelist_castto c ts = c ts"

definition typelist_size :: "'t list \<Rightarrow> nat" where
  "typelist_size ts = length ts"

definition typelist_get :: "nat \<Rightarrow> 't list \<Rightarrow> 't option" where
  "typelist_get n ts = (if n < typelist_size ts then Some (ts ! n) else None)"

lemma typelist_remove_filter: "typelist_remove ts u = filter (\<lambda>t. t \<noteq> u) ts"
  by (induction ts) (auto simp: typelist_concat_def Let_def)

lemma set_typelist_unique [simp]: "set (typelist_unique ts) = set ts"
  by (induction ts) (auto simp: typelist_concat_def typelist_remove_filter)

lemma distinct_typelist_unique [simp]: "distinct (typelist_unique ts)"
  by (induction ts) (auto simp: typelist_concat_def typelist_remove_filter)

lemma filter_typelist_unique: "filter P (typelist_unique ts) = typelist_unique (filter P ts)"
proof (induction ts)
  case (Cons t ts)
  have "filter P (filter (\<lambda>u. u \<noteq> t) (typelist_unique ts)) = filter (\<lambda>u. u \<noteq> t) (filter P (typelist_unique ts))"
    by (simp add: conj_commute)
  moreover have "\<not> P t \<Longrightarrow> filter (\<lambda>u. u \<noteq> t) (filter P (typelist_unique ts)) = filter P (typelist_unique ts)"
    by (rule filter_True) auto
  ultimately show ?case using Cons by (auto simp: typelist_concat_def typelist_remove_filter)
qed simp

text \<open>
  \<open>typelist_unique_t\<close> keeps the first occurrence of every type: the result has the same
  types, each once, it is what removing later duplicates one by one gives (library
  \<open>remdups\<close> on the reversed list), it is idempotent, and a list without duplicates is
  unchanged. So \<open>std::variant\<close> over it is well-formed for access by type.
\<close>

theorem typelist_unique_first_occurrences:
  "set (typelist_unique ts) = set ts \<and> distinct (typelist_unique ts) \<and>
   typelist_unique ts = rev (remdups (rev ts)) \<and>
   typelist_unique (typelist_unique ts) = typelist_unique ts"
proof -
  have snoc: "typelist_unique (xs @ [x]) = (if x \<in> set xs then typelist_unique xs else typelist_unique xs @ [x])"
    for xs and x :: 'a
    by (induction xs) (auto simp: typelist_concat_def typelist_remove_filter)
  have rev: "typelist_unique xs = rev (remdups (rev xs))" for xs :: "'a list"
    by (induction xs rule: rev_induct) (simp_all add: snoc)
  have "typelist_unique (typelist_unique ts) = rev (remdups (rev (typelist_unique ts)))" by (rule rev)
  also have "\<dots> = typelist_unique ts" by (simp add: distinct_remdups_id)
  finally show ?thesis using rev by simp
qed

end
