(* ===== verification/Await_Results.thy ===== *)
theory Await_Results
  imports Meta
begin

text \<open>
  The result storage of \<open>include/awaitable.hpp\<close>: \<open>AwaitableResultAny\<close>,
  \<open>AwaitableResultAll\<close> with its view, \<open>AwaitableResultEach\<close> and \<open>Expected\<close>. A
  variant is its list of alternatives, the type of the active one, and its content.
\<close>

section \<open>Variants\<close>

type_synonym exn = nat

datatype 'v content = CMono | CErr exn | CVal 'v

record 'v variant =
  active :: ty
  content :: "'v content"

text \<open>
  The outcome of an access: a value, nothing (\<open>void\<close>), an exception rethrown,
  \<open>std::bad_variant_access\<close>, or the call of \<open>std::terminate\<close> when that is thrown out of a
  \<open>noexcept\<close> function. \<open>IllFormed\<close> is a program that does not compile.
\<close>

datatype 'v get_result = Value 'v | NoValue | Rethrow exn | BadAccess | Terminates | IllFormed

text \<open>Access and \<open>emplace\<close> by type need exactly one alternative of that type.\<close>

definition well_formed_alt :: "ty \<Rightarrow> ty list \<Rightarrow> bool" where
  "well_formed_alt t alts \<longleftrightarrow> count_list alts t = 1"

definition variant_emplace :: "ty list \<Rightarrow> ty \<Rightarrow> 'v content \<Rightarrow> 'v variant option" where
  "variant_emplace alts t c = (if well_formed_alt t alts then Some \<lparr>active = t, content = c\<rparr> else None)"

definition variant_get :: "bool \<Rightarrow> ty list \<Rightarrow> ty \<Rightarrow> 'v variant \<Rightarrow> 'v get_result" where
  "variant_get noexc alts t r =
     (if \<not> well_formed_alt t alts then IllFormed
      else if active r = t then (case content r of CVal v \<Rightarrow> Value v | _ \<Rightarrow> NoValue)
      else if noexc then Terminates else BadAccess)"

definition holds_error :: "'v variant \<Rightarrow> exn option" where
  "holds_error r = (if active r = ErrorT then case content r of CErr e \<Rightarrow> Some e | _ \<Rightarrow> None else None)"

section \<open>\<open>AwaitableResultAny\<close> and \<open>AwaitableResultEach\<close>\<close>

text \<open>
  An awaitable is the type of its \<open>await_resume\<close> and whether that is \<open>noexcept\<close>.
\<close>

record awaitable =
  result_type :: ty
  noexc :: bool

definition stored_type :: "awaitable \<Rightarrow> ty" where
  "stored_type a = reference_storage (result_type a)"

definition is_lref :: "ty \<Rightarrow> bool" where
  "is_lref t = (case t of LRef u \<Rightarrow> True | _ \<Rightarrow> False)"

definition error_alt :: "awaitable list \<Rightarrow> ty" where
  "error_alt as = (if list_all noexc as then Monostate else ErrorT)"

definition any_alts :: "awaitable list \<Rightarrow> ty list" where
  "any_alts as = typelist_unique ([Monostate, error_alt as] @ map (void_map \<circ> stored_type) as)"

definition any_new :: "'v variant" where
  "any_new = \<lparr>active = Monostate, content = CMono\<rparr>"

definition any_emplace :: "awaitable list \<Rightarrow> nat \<Rightarrow> 'v \<Rightarrow> 'v variant option" where
  "any_emplace as n v = (case typelist_get n (typelist_map stored_type as) of
     None \<Rightarrow> None
   | Some t \<Rightarrow> if t \<noteq> Void then variant_emplace (any_alts as) t (CVal v)
              else variant_emplace (any_alts as) Monostate CMono)"

definition any_emplace_error :: "awaitable list \<Rightarrow> nat \<Rightarrow> exn \<Rightarrow> 'v variant option" where
  "any_emplace_error as n e = (case typelist_get n as of
     None \<Rightarrow> None
   | Some a \<Rightarrow> if noexc a then None else variant_emplace (any_alts as) ErrorT (CErr e))"

text \<open>The body shared by the \<open>get<N>\<close> overloads of the three result types.\<close>

definition get_body :: "ty list \<Rightarrow> awaitable \<Rightarrow> 'v variant \<Rightarrow> 'v get_result" where
  "get_body alts a r = (case (if noexc a then None else holds_error r) of
     Some e \<Rightarrow> Rethrow e
   | None \<Rightarrow> if is_lref (result_type a) then variant_get (noexc a) alts (stored_type a) r
            else if stored_type a \<noteq> Void then variant_get (noexc a) alts (stored_type a) r
            else NoValue)"

definition any_get :: "awaitable list \<Rightarrow> nat \<Rightarrow> 'v variant \<Rightarrow> 'v get_result" where
  "any_get as n r = (case typelist_get n as of None \<Rightarrow> IllFormed | Some a \<Rightarrow> get_body (any_alts as) a r)"

definition each_alts :: "awaitable list \<Rightarrow> ty list" where
  "each_alts as = typelist_unique (error_alt as # map (void_map \<circ> stored_type) as)"

definition each_new :: "awaitable list \<Rightarrow> nat \<Rightarrow> 'v \<Rightarrow> 'v variant option" where
  "each_new as n v = (case typelist_get n (typelist_map stored_type as) of
     None \<Rightarrow> None
   | Some t \<Rightarrow> variant_emplace (each_alts as) (void_map t) (if t = Void then CMono else CVal v))"

definition each_new_error :: "awaitable list \<Rightarrow> exn \<Rightarrow> 'v variant option" where
  "each_new_error as e = variant_emplace (each_alts as) ErrorT (CErr e)"

definition each_get :: "awaitable list \<Rightarrow> nat \<Rightarrow> 'v variant \<Rightarrow> 'v get_result" where
  "each_get as n r = (case typelist_get n as of None \<Rightarrow> IllFormed | Some a \<Rightarrow> get_body (each_alts as) a r)"

text \<open>
  What \<open>get<N>\<close> returns, by the qualifier of the object: a reference result is the
  reference itself, an object result a reference to the stored object.
\<close>

datatype qual = ConstL | NonConstL | Rvalue

definition get_type :: "qual \<Rightarrow> awaitable \<Rightarrow> ty" where
  "get_type q a = (case result_type a of
     LRef t \<Rightarrow> LRef t
   | _ \<Rightarrow> if stored_type a = Void then Void
          else (case q of Rvalue \<Rightarrow> RRef (stored_type a) | _ \<Rightarrow> LRef (stored_type a)))"

section \<open>\<open>AwaitableResultAll\<close> and \<open>Expected\<close>\<close>

definition slot_alts :: "awaitable \<Rightarrow> ty list" where
  "slot_alts a = typelist_unique [Monostate, void_map (stored_type a), if noexc a then Monostate else ErrorT]"

definition all_new :: "awaitable list \<Rightarrow> 'v variant list" where
  "all_new as = map (\<lambda>_. \<lparr>active = Monostate, content = CMono\<rparr>) as"

definition all_emplace :: "awaitable list \<Rightarrow> nat \<Rightarrow> 'v \<Rightarrow> 'v variant list \<Rightarrow> 'v variant list option" where
  "all_emplace as n v rs = (case typelist_get n as of
     None \<Rightarrow> None
   | Some a \<Rightarrow> (case variant_emplace (slot_alts a) (stored_type a) (CVal v) of
        None \<Rightarrow> None | Some r \<Rightarrow> Some (rs[n := r])))"

definition all_emplace_error :: "awaitable list \<Rightarrow> nat \<Rightarrow> exn \<Rightarrow> 'v variant list \<Rightarrow> 'v variant list option" where
  "all_emplace_error as n e rs = (case typelist_get n as of
     None \<Rightarrow> None
   | Some a \<Rightarrow> if noexc a then None else
       (case variant_emplace (slot_alts a) ErrorT (CErr e) of None \<Rightarrow> None | Some r \<Rightarrow> Some (rs[n := r])))"

definition all_get :: "awaitable list \<Rightarrow> nat \<Rightarrow> 'v variant list \<Rightarrow> 'v get_result" where
  "all_get as n rs = (case typelist_get n as of None \<Rightarrow> IllFormed | Some a \<Rightarrow> get_body (slot_alts a) a (rs ! n))"

text \<open>\<open>Expected<R>\<close>: the value or the exception, read by \<open>get\<close>.\<close>

datatype 'v expected = EValue 'v | EVoid | EError exn

fun expected_get :: "'v expected \<Rightarrow> 'v get_result" where
  "expected_get (EValue v) = Value v"
| "expected_get EVoid = NoValue"
| "expected_get (EError e) = Rethrow e"

text \<open>
  \<open>AwaitableResultAllView::get<N>\<close> is \<open>noexcept\<close>: for a \<open>noexcept\<close> awaitable it hands
  out the value (\<open>monostate\<close> for \<open>void\<close>), otherwise an \<open>Expected\<close>. \<open>bad_access\<close> is
  the exception object of \<open>std::bad_variant_access\<close>, which the catch clause also takes.
\<close>

datatype 'v view_result = Direct 'v | DirectMonostate | Exp "'v expected" | ViewTerminates | ViewIllFormed

definition view_get :: "exn \<Rightarrow> awaitable list \<Rightarrow> nat \<Rightarrow> 'v variant list \<Rightarrow> 'v view_result" where
  "view_get bad_access as n rs = (case typelist_get n as of
     None \<Rightarrow> ViewIllFormed
   | Some a \<Rightarrow>
       if noexc a then (case all_get as n rs of
          Value v \<Rightarrow> Direct v
        | NoValue \<Rightarrow> DirectMonostate
        | IllFormed \<Rightarrow> ViewIllFormed
        | _ \<Rightarrow> ViewTerminates)
       else (case all_get as n rs of
          Value v \<Rightarrow> Exp (EValue v)
        | NoValue \<Rightarrow> Exp EVoid
        | Rethrow e \<Rightarrow> Exp (EError e)
        | BadAccess \<Rightarrow> Exp (EError bad_access)
        | IllFormed \<Rightarrow> ViewIllFormed
        | Terminates \<Rightarrow> ViewTerminates))"

section \<open>Every access is well-formed\<close>

text \<open>
  \<open>Error\<close> has internal linkage, so no awaitable of a client returns it, and there is no
  reference to \<open>void\<close>.
\<close>

definition client_type :: "awaitable \<Rightarrow> bool" where
  "client_type a \<longleftrightarrow> stored_type a \<noteq> ErrorT \<and> result_type a \<noteq> RRef Void"

lemma count_unique: "t \<in> set ts \<Longrightarrow> well_formed_alt t (typelist_unique ts)"
  using distinct_count_atmost_1 [of "typelist_unique ts"]
  by (simp add: well_formed_alt_def count_mset flip: count_mset)

lemma any_alts_wf:
  "well_formed_alt Monostate (any_alts as)"
  "a \<in> set as \<Longrightarrow> stored_type a \<noteq> Void \<Longrightarrow> well_formed_alt (stored_type a) (any_alts as)"
  "a \<in> set as \<Longrightarrow> \<not> noexc a \<Longrightarrow> well_formed_alt ErrorT (any_alts as)"
  unfolding any_alts_def
  by (rule count_unique; force simp: void_map_def error_alt_def list_all_iff)+

lemma each_alts_wf:
  "a \<in> set as \<Longrightarrow> well_formed_alt (void_map (stored_type a)) (each_alts as)"
  "a \<in> set as \<Longrightarrow> \<not> noexc a \<Longrightarrow> well_formed_alt ErrorT (each_alts as)"
  unfolding each_alts_def
  by (rule count_unique; force simp: error_alt_def list_all_iff)+

lemma slot_alts_wf:
  "stored_type a \<noteq> Void \<Longrightarrow> well_formed_alt (stored_type a) (slot_alts a)"
  "\<not> noexc a \<Longrightarrow> well_formed_alt ErrorT (slot_alts a)"
  unfolding slot_alts_def by (rule count_unique; simp add: void_map_def)+

text \<open>
  C40. The result variants are well formed: the alternatives of each are distinct, so that access by
  type compiles, and every type that an awaitable's runner stores or its reader asks for, its
  stored type, or the unit type for \<open>void\<close> in \<open>wait_each\<close>, and the error type when the
  awaitable can throw, is an alternative, exactly once.
\<close>

theorem result_variants_wf:
  assumes "a \<in> set as"
  shows "distinct (any_alts as) \<and> distinct (each_alts as) \<and> distinct (slot_alts a) \<and>
    (stored_type a \<noteq> Void \<longrightarrow> well_formed_alt (stored_type a) (any_alts as) \<and> well_formed_alt (stored_type a) (slot_alts a)) \<and>
    well_formed_alt (void_map (stored_type a)) (each_alts as) \<and>
    (\<not> noexc a \<longrightarrow> well_formed_alt ErrorT (any_alts as) \<and> well_formed_alt ErrorT (each_alts as) \<and> well_formed_alt ErrorT (slot_alts a))"
proof -
  have "distinct (any_alts as)" "distinct (each_alts as)" "distinct (slot_alts a)"
    unfolding any_alts_def each_alts_def slot_alts_def by (rule distinct_typelist_unique)+
  with any_alts_wf(2,3) [OF assms] each_alts_wf [OF assms] slot_alts_wf [of a] show ?thesis by blast
qed

theorem result_variants_wf_witness:
  "well_formed_alt ErrorT (any_alts [\<lparr>result_type = Void, noexc = False\<rparr>])"
  using result_variants_wf [of "\<lparr>result_type = Void, noexc = False\<rparr>" "[\<lparr>result_type = Void, noexc = False\<rparr>]"] by simp

lemma is_lref_stored: "is_lref (result_type a) \<Longrightarrow> stored_type a \<noteq> Void"
  by (cases "result_type a") (auto simp: is_lref_def stored_type_def)

section \<open>What is stored is what is read\<close>

text \<open>How \<open>co_await\<close> on an awaitable ended, and what reading it back gives.\<close>

datatype 'v outcome = OValue 'v | OThrow exn

definition outcome_ok :: "awaitable \<Rightarrow> 'v outcome \<Rightarrow> bool" where
  "outcome_ok a oc \<longleftrightarrow> (case oc of OValue v \<Rightarrow> True | OThrow e \<Rightarrow> \<not> noexc a)"

definition outcome_access :: "awaitable \<Rightarrow> 'v outcome \<Rightarrow> 'v get_result" where
  "outcome_access a oc = (case oc of
     OValue v \<Rightarrow> if stored_type a = Void then NoValue else Value v
   | OThrow e \<Rightarrow> Rethrow e)"

text \<open>The storing part of the three runners.\<close>

definition any_store :: "awaitable list \<Rightarrow> nat \<Rightarrow> 'v outcome \<Rightarrow> 'v variant option" where
  "any_store as n oc = (case oc of
     OThrow e \<Rightarrow> any_emplace_error as n e
   | OValue v \<Rightarrow> if result_type (as ! n) = Void then Some any_new else any_emplace as n v)"

definition each_store :: "awaitable list \<Rightarrow> nat \<Rightarrow> 'v outcome \<Rightarrow> 'v variant option" where
  "each_store as n oc = (case oc of
     OThrow e \<Rightarrow> each_new_error as e
   | OValue v \<Rightarrow> each_new as n v)"

definition all_store :: "awaitable list \<Rightarrow> nat \<Rightarrow> 'v outcome \<Rightarrow> 'v variant list \<Rightarrow> 'v variant list option" where
  "all_store as n oc rs = (case oc of
     OThrow e \<Rightarrow> all_emplace_error as n e rs
   | OValue v \<Rightarrow> if result_type (as ! n) = Void then Some rs else all_emplace as n v rs)"

fun all_store_seq :: "awaitable list \<Rightarrow> (nat \<times> 'v outcome) list \<Rightarrow> 'v variant list \<Rightarrow> 'v variant list option" where
  "all_store_seq as [] rs = Some rs"
| "all_store_seq as ((n, oc) # ocs) rs =
     (case all_store as n oc rs of None \<Rightarrow> None | Some rs' \<Rightarrow> all_store_seq as ocs rs')"

lemma stored_Void: "client_type a \<Longrightarrow> stored_type a = Void \<Longrightarrow> result_type a = Void"
  by (cases "result_type a") (auto simp: stored_type_def client_type_def)

text \<open>
  Reading a variant whose active alternative is that of the outcome, over any alternatives
  in which the alternative is well-formed.
\<close>

lemma get_body_value:
  "well_formed_alt (stored_type a) alts \<Longrightarrow> stored_type a \<noteq> Void \<Longrightarrow> client_type a \<Longrightarrow>
   get_body alts a \<lparr>active = stored_type a, content = CVal v\<rparr> = Value v"
  by (simp add: get_body_def holds_error_def variant_get_def client_type_def)

lemma get_body_error:
  "\<not> noexc a \<Longrightarrow> get_body alts a \<lparr>active = ErrorT, content = CErr e\<rparr> = Rethrow e"
  by (simp add: get_body_def holds_error_def)

lemma get_body_void:
  "stored_type a = Void \<Longrightarrow> active r \<noteq> ErrorT \<Longrightarrow> get_body alts a r = NoValue"
  using is_lref_stored [of a] by (auto simp: get_body_def holds_error_def)

lemma get_body_other:
  assumes "stored_type a \<noteq> Void" and "well_formed_alt (stored_type a) alts"
    and "active r \<noteq> stored_type a" and "active r \<noteq> ErrorT"
  shows "get_body alts a r = (if noexc a then Terminates else BadAccess)"
  using assms by (simp add: get_body_def holds_error_def variant_get_def)

lemma any_store_access:
  assumes "n < length as" and "client_type (as ! n)" and "outcome_ok (as ! n) oc"
  shows "\<exists>r. any_store as n oc = Some r \<and> any_get as n r = outcome_access (as ! n) oc \<and>
    (\<forall>m v. m < length as \<longrightarrow> oc = OValue v \<longrightarrow> stored_type (as ! m) \<notin> {Void, Monostate, stored_type (as ! n)} \<longrightarrow>
       any_get as m r = (if noexc (as ! m) then Terminates else BadAccess))"
proof (cases oc)
  case (OThrow e)
  let ?a = "as ! n"
  have a: "?a \<in> set as" "\<not> noexc ?a" using assms(1,3) OThrow by (simp_all add: outcome_ok_def)
  then show ?thesis using OThrow assms(1) any_alts_wf(3) [OF a]
    by (simp add: any_store_def any_emplace_error_def typelist_get_def typelist_size_def variant_emplace_def
        any_get_def get_body_error outcome_access_def)
next
  case (OValue v)
  let ?a = "as ! n"
  have a: "?a \<in> set as" "client_type ?a" using assms(1,2) by simp_all
  have loser: "any_get as m r = (if noexc (as ! m) then Terminates else BadAccess)"
    if "m < length as" "stored_type (as ! m) \<notin> {Void, active r}" "active r \<noteq> ErrorT" for m and r :: "'a variant"
    using that get_body_other [OF _ any_alts_wf(2) [of "as ! m" as], of r]
    by (auto simp: any_get_def typelist_get_def typelist_size_def)
  show ?thesis
  proof (cases "stored_type ?a = Void")
    case True
    have r: "any_store as n oc = Some \<lparr>active = Monostate, content = CMono\<rparr>"
      using OValue True assms(1) any_alts_wf(1) [of as]
      by (simp add: any_store_def any_new_def any_emplace_def typelist_get_def typelist_size_def
          typelist_map_def variant_emplace_def)
    moreover have "any_get as n \<lparr>active = Monostate, content = CMono :: 'a content\<rparr> = NoValue"
      using True assms(1) by (simp add: any_get_def typelist_get_def typelist_size_def get_body_void)
    moreover have "any_get as m \<lparr>active = Monostate, content = CMono :: 'a content\<rparr> =
        (if noexc (as ! m) then Terminates else BadAccess)"
      if "m < length as" "stored_type (as ! m) \<notin> {Void, Monostate, stored_type ?a}" for m
      using that by (intro loser) auto
    ultimately show ?thesis using True OValue by (auto simp: outcome_access_def)
  next
    case False
    then have nv: "result_type ?a \<noteq> Void" by (auto simp: stored_type_def)
    let ?r = "\<lparr>active = stored_type ?a, content = CVal v\<rparr>"
    have "any_store as n oc = Some ?r"
      using OValue False nv assms(1) any_alts_wf(2) [OF a(1) False]
      by (simp add: any_store_def any_emplace_def typelist_get_def typelist_size_def
          typelist_map_def variant_emplace_def)
    moreover have "any_get as n ?r = Value v"
      using get_body_value [OF any_alts_wf(2) [OF a(1) False] False a(2)] assms(1)
      by (simp add: any_get_def typelist_get_def typelist_size_def)
    moreover have "any_get as m ?r = (if noexc (as ! m) then Terminates else BadAccess)"
      if "m < length as" "stored_type (as ! m) \<notin> {Void, Monostate, stored_type ?a}" for m
      using that a(2) by (intro loser) (auto simp: client_type_def)
    ultimately show ?thesis using False OValue by (auto simp: outcome_access_def)
  qed
qed

lemma any_store_get:
  "n < length as \<Longrightarrow> client_type (as ! n) \<Longrightarrow> outcome_ok (as ! n) oc \<Longrightarrow>
   \<exists>r. any_store as n oc = Some r \<and> any_get as n r = outcome_access (as ! n) oc"
  using any_store_access by blast

text \<open>
  \<open>wait_any\<close>: storing the winner's outcome is always well-formed and \<open>get\<close> with the
  winner's index gives it back, a value as that value, \<open>void\<close> as nothing, an exception by
  rethrowing it, with no \<open>bad_variant_access\<close>, whatever the result types are and
  whichever of them coincide; \<open>get\<close> with the index of a value-returning loser of another
  type throws \<open>bad_variant_access\<close>, or terminates when that loser is \<open>noexcept\<close>.
\<close>

theorem any_result_roundtrip:
  assumes "n < length as" and "\<forall>a \<in> set as. client_type a" and "outcome_ok (as ! n) oc"
  shows "\<exists>r. any_store as n oc = Some r \<and> any_get as n r = outcome_access (as ! n) oc \<and>
    (\<forall>m v. m < length as \<longrightarrow> oc = OValue v \<longrightarrow> stored_type (as ! m) \<notin> {Void, Monostate, stored_type (as ! n)} \<longrightarrow>
       any_get as m r = (if noexc (as ! m) then Terminates else BadAccess))"
  using any_store_access [OF assms(1) _ assms(3)] assms(1,2) by simp

definition demo_awaitables :: "awaitable list" where
  "demo_awaitables = [\<lparr>result_type = Void, noexc = False\<rparr>, \<lparr>result_type = Obj 1, noexc = True\<rparr>,
     \<lparr>result_type = LRef (Obj 1), noexc = False\<rparr>, \<lparr>result_type = Obj 1, noexc = False\<rparr>]"

lemma demo_client_types: "\<forall>a \<in> set demo_awaitables. client_type a"
  by (simp add: demo_awaitables_def client_type_def stored_type_def)

theorem any_result_roundtrip_witness:
  "\<exists>r. any_store demo_awaitables 3 (OValue (9::nat)) = Some r \<and> any_get demo_awaitables 3 r = Value 9 \<and>
     any_get demo_awaitables 2 r = BadAccess"
proof -
  have "3 < length demo_awaitables" "outcome_ok (demo_awaitables ! 3) (OValue (9::nat))"
    by (simp_all add: demo_awaitables_def outcome_ok_def)
  from any_result_roundtrip [OF this(1) demo_client_types this(2)] obtain r where
    r: "any_store demo_awaitables 3 (OValue (9::nat)) = Some r"
    "any_get demo_awaitables 3 r = outcome_access (demo_awaitables ! 3) (OValue (9::nat))"
    "\<forall>m v. m < length demo_awaitables \<longrightarrow> OValue (9::nat) = OValue v \<longrightarrow>
       stored_type (demo_awaitables ! m) \<notin> {Void, Monostate, stored_type (demo_awaitables ! 3)} \<longrightarrow>
       any_get demo_awaitables m r = (if noexc (demo_awaitables ! m) then Terminates else BadAccess)"
    by blast
  from r(1,2) r(3) [rule_format, of 2 9] show ?thesis
    by (simp add: demo_awaitables_def outcome_access_def stored_type_def)
qed

text \<open>
  \<open>wait_each\<close>: every result pair that a runner queues is well-formed, and \<open>get\<close> with
  its index gives the outcome of that awaitable back.
\<close>

theorem each_result_roundtrip:
  assumes "n < length as" and "\<forall>a \<in> set as. client_type a" and "outcome_ok (as ! n) oc"
  shows "\<exists>r. each_store as n oc = Some r \<and> each_get as n r = outcome_access (as ! n) oc"
proof -
  let ?a = "as ! n"
  have a: "?a \<in> set as" "client_type ?a" using assms(1,2) by simp_all
  note acc = each_get_def typelist_get_def typelist_size_def
  show ?thesis
  proof (cases oc)
    case (OThrow e)
    then have "\<not> noexc ?a" using assms(3) by (simp add: outcome_ok_def)
    with OThrow assms(1) each_alts_wf(2) [OF a(1)] show ?thesis
      by (simp add: each_store_def each_new_error_def variant_emplace_def acc get_body_error outcome_access_def)
  next
    case (OValue v)
    have s: "each_store as n oc = Some \<lparr>active = void_map (stored_type ?a),
        content = (if stored_type ?a = Void then CMono else CVal v)\<rparr>"
      using OValue assms(1) each_alts_wf(1) [OF a(1)]
      by (simp add: each_store_def each_new_def typelist_get_def typelist_size_def typelist_map_def variant_emplace_def)
    show ?thesis
    proof (cases "stored_type ?a = Void")
      case True
      with s OValue assms(1) show ?thesis
        by (simp add: acc get_body_void outcome_access_def void_map_def)
    next
      case False
      with each_alts_wf(1) [OF a(1)] have "well_formed_alt (stored_type ?a) (each_alts as)"
        by (simp add: void_map_def)
      with s OValue False assms(1) get_body_value [OF this False a(2)] show ?thesis
        by (simp add: acc outcome_access_def void_map_def)
    qed
  qed
qed

theorem each_result_roundtrip_witness:
  "\<exists>r. each_store demo_awaitables 2 (OThrow 5 :: nat outcome) = Some r \<and> each_get demo_awaitables 2 r = Rethrow 5"
  using each_result_roundtrip [OF _ demo_client_types, of 2 "OThrow 5 :: nat outcome"]
  by (simp add: demo_awaitables_def outcome_ok_def outcome_access_def)

section \<open>\<open>wait_all\<close>\<close>

lemma all_store_slot:
  assumes "n < length as" and "client_type (as ! n)" and "outcome_ok (as ! n) oc"
    and "length rs = length as" and "rs ! n = \<lparr>active = Monostate, content = CMono\<rparr>"
  shows "\<exists>r. all_store as n oc rs = Some (rs[n := r]) \<and>
    get_body (slot_alts (as ! n)) (as ! n) r = outcome_access (as ! n) oc"
proof (cases oc)
  case (OThrow e)
  then have "\<not> noexc (as ! n)" using assms(3) by (simp add: outcome_ok_def)
  with OThrow assms(1) slot_alts_wf(2) [OF this] show ?thesis
    by (auto simp: all_store_def all_emplace_error_def typelist_get_def typelist_size_def
        variant_emplace_def get_body_error outcome_access_def)
next
  case (OValue v)
  show ?thesis
  proof (cases "stored_type (as ! n) = Void")
    case True
    with stored_Void [OF assms(2)] have "all_store as n oc rs = Some (rs[n := rs ! n])"
      using OValue by (simp add: all_store_def)
    moreover have "get_body (slot_alts (as ! n)) (as ! n) (rs ! n) = NoValue"
      using True assms(5) by (simp add: get_body_void)
    ultimately show ?thesis using OValue True
      by (intro exI [of _ "rs ! n"]) (simp add: outcome_access_def)
  next
    case False
    then have nv: "result_type (as ! n) \<noteq> Void" by (auto simp: stored_type_def)
    note wf = slot_alts_wf(1) [OF False]
    with OValue nv assms(1) get_body_value [OF wf False assms(2)] False show ?thesis
      by (intro exI [of _ "\<lparr>active = stored_type (as ! n), content = CVal v\<rparr>"])
        (simp add: all_store_def all_emplace_def typelist_get_def typelist_size_def
          variant_emplace_def outcome_access_def)
  qed
qed

lemma all_store_seq_ok:
  assumes "\<forall>a \<in> set as. client_type a" and "distinct (map fst ocs)"
    and "\<forall>(n, oc) \<in> set ocs. n < length as \<and> outcome_ok (as ! n) oc"
    and "length rs = length as" and "\<forall>n \<in> fst ` set ocs. rs ! n = \<lparr>active = Monostate, content = CMono\<rparr>"
  shows "\<exists>rs'. all_store_seq as ocs rs = Some rs' \<and>
    (\<forall>(n, oc) \<in> set ocs. get_body (slot_alts (as ! n)) (as ! n) (rs' ! n) = outcome_access (as ! n) oc) \<and>
    (\<forall>n. n \<notin> fst ` set ocs \<longrightarrow> rs' ! n = rs ! n)"
  using assms(2-5)
proof (induction ocs arbitrary: rs)
  case (Cons x ocs)
  obtain n oc where x: "x = (n, oc)" by (cases x)
  with Cons.prems have n: "n < length as" "outcome_ok (as ! n) oc" "n \<notin> fst ` set ocs"
    "rs ! n = \<lparr>active = Monostate, content = CMono\<rparr>" by auto
  with assms(1) all_store_slot [OF n(1) _ n(2) Cons.prems(3) n(4)] obtain r where
    r: "all_store as n oc rs = Some (rs[n := r])"
    "get_body (slot_alts (as ! n)) (as ! n) r = outcome_access (as ! n) oc" by auto
  have "\<forall>m \<in> fst ` set ocs. rs[n := r] ! m = \<lparr>active = Monostate, content = CMono\<rparr>"
    using Cons.prems(4) n(3) by (metis image_insert insertCI list.simps(15) nth_list_update_neq)
  with Cons.IH [of "rs[n := r]"] Cons.prems obtain rs' where
    rs': "all_store_seq as ocs (rs[n := r]) = Some rs'"
    "\<forall>(n, oc) \<in> set ocs. get_body (slot_alts (as ! n)) (as ! n) (rs' ! n) = outcome_access (as ! n) oc"
    "\<forall>m. m \<notin> fst ` set ocs \<longrightarrow> rs' ! m = rs[n := r] ! m" by auto
  moreover have "rs' ! n = r" using rs'(3) n(1,3) Cons.prems(3) by simp
  ultimately show ?case using x r by auto
qed simp

text \<open>
  C38. \<open>wait_all\<close>: when every awaitable has completed, in whatever order, each slot of the
  result gives the outcome of its awaitable; through the \<open>noexcept\<close> view a \<open>noexcept\<close>
  awaitable gives its value directly and any other an \<open>Expected\<close> whose \<open>get\<close> gives the
  value or rethrows the exception, and the view never terminates the program.
\<close>

theorem all_results_roundtrip:
  assumes "\<forall>a \<in> set as. client_type a" and "distinct (map fst ocs)" and "fst ` set ocs = {..<length as}"
    and "\<forall>(n, oc) \<in> set ocs. outcome_ok (as ! n) oc"
  shows "\<exists>rs. all_store_seq as ocs (all_new as) = Some rs \<and>
    (\<forall>(n, oc) \<in> set ocs. all_get as n rs = outcome_access (as ! n) oc \<and>
       (case view_get ba as n rs of
          Direct v \<Rightarrow> noexc (as ! n) \<and> oc = OValue v
        | DirectMonostate \<Rightarrow> noexc (as ! n) \<and> stored_type (as ! n) = Void
        | Exp x \<Rightarrow> \<not> noexc (as ! n) \<and> expected_get x = outcome_access (as ! n) oc
        | _ \<Rightarrow> False))"
proof -
  have lt: "n < length as" if "(n, oc) \<in> set ocs" for n oc
    using that assms(3) by (metis fst_conv image_eqI lessThan_iff)
  have "\<forall>n \<in> fst ` set ocs. all_new as ! n = \<lparr>active = Monostate, content = CMono\<rparr>"
    using assms(3) by (simp add: all_new_def)
  moreover have "length (all_new as) = length as" by (simp add: all_new_def)
  moreover have "\<forall>(n, oc) \<in> set ocs. n < length as \<and> outcome_ok (as ! n) oc" using assms(4) lt by auto
  ultimately obtain rs where rs: "all_store_seq as ocs (all_new as) = Some rs"
    "\<forall>(n, oc) \<in> set ocs. get_body (slot_alts (as ! n)) (as ! n) (rs ! n) = outcome_access (as ! n) oc"
    using all_store_seq_ok [OF assms(1,2)] by blast
  have g: "all_get as n rs = outcome_access (as ! n) oc" if "(n, oc) \<in> set ocs" for n oc
    using rs(2) lt [OF that] that by (auto simp: all_get_def typelist_get_def typelist_size_def)
  have "case view_get ba as n rs of
          Direct v \<Rightarrow> noexc (as ! n) \<and> oc = OValue v
        | DirectMonostate \<Rightarrow> noexc (as ! n) \<and> stored_type (as ! n) = Void
        | Exp x \<Rightarrow> \<not> noexc (as ! n) \<and> expected_get x = outcome_access (as ! n) oc
        | _ \<Rightarrow> False" if x: "(n, oc) \<in> set ocs" for n oc
    using g [OF x] lt [OF x] bspec [OF assms(4) x]
    by (auto simp: view_get_def typelist_get_def typelist_size_def outcome_access_def outcome_ok_def
        split: outcome.splits if_splits)
  with rs(1) g show ?thesis by (intro exI [of _ rs]) blast
qed

theorem all_results_roundtrip_witness:
  "\<exists>rs. all_store_seq demo_awaitables [(3, OThrow 8), (0, OValue 1), (2, OValue 2), (1, OValue (3::nat))]
       (all_new demo_awaitables) = Some rs \<and> all_get demo_awaitables 3 rs = Rethrow 8 \<and>
     all_get demo_awaitables 2 rs = Value 2"
proof -
  let ?ocs = "[(3, OThrow 8), (0, OValue 1), (2, OValue 2), (1, OValue 3)] :: (nat \<times> nat outcome) list"
  have d: "distinct (map fst ?ocs)" "fst ` set ?ocs = {..<length demo_awaitables}"
    "\<forall>(n, oc) \<in> set ?ocs. outcome_ok (demo_awaitables ! n) oc"
    by (auto simp: demo_awaitables_def outcome_ok_def)
  obtain rs where rs: "all_store_seq demo_awaitables ?ocs (all_new demo_awaitables) = Some rs"
    and g: "\<forall>(n, oc) \<in> set ?ocs. all_get demo_awaitables n rs = outcome_access (demo_awaitables ! n) oc"
    using all_results_roundtrip [OF demo_client_types d, of 0] by fast
  from g have "all_get demo_awaitables 3 rs = Rethrow 8" "all_get demo_awaitables 2 rs = Value 2"
    by (simp_all add: demo_awaitables_def outcome_access_def stored_type_def)
  with rs show ?thesis by blast
qed

end
