(* ===== verification/Wait_Combinators.thy ===== *)
theory Wait_Combinators
  imports Handoff Await_Results
begin

text \<open>
  \<open>WaitAllAwaitable\<close> and \<open>WaitAnyAwaitable\<close> of \<open>include/awaitable.hpp\<close>: the shared
  \<open>State\<close>, the runner coroutines and \<open>await_resume\<close>, plugged into the hand-off machine.
\<close>

section \<open>\<open>wait_all\<close>\<close>

text \<open>
  \<open>outs\<close> logs how each awaitable ended. A runner awaits its child and stores the outcome,
  then decrements \<open>waiting_count\<close>; the one that takes it to zero wakes the awaiter.
\<close>

record 'v all_state =
  waiting_count :: u64
  slots :: "'v variant list"
  outs :: "'v outcome option list"

datatype all_pc = AllAwait | AllSub

definition all_state_init :: "awaitable list \<Rightarrow> 'v all_state" where
  "all_state_init as = \<lparr>waiting_count = of_nat (length as), slots = all_new as,
     outs = replicate (length as) None\<rparr>"

definition all_rstep :: "awaitable list \<Rightarrow> nat \<Rightarrow> 'v outcome \<Rightarrow> 'v all_state \<Rightarrow> all_pc
    \<Rightarrow> ('v all_state \<times> all_pc verdict) option" where
  "all_rstep as i oc c pc = (case pc of
     AllAwait \<Rightarrow>
       if \<not> (i < length as \<and> outcome_ok (as ! i) oc) then None
       else (case all_store as i oc (slots c) of
          None \<Rightarrow> None
        | Some rs \<Rightarrow> Some (c\<lparr>slots := rs, outs := (outs c)[i := Some oc]\<rparr>, Cont AllSub))
   | AllSub \<Rightarrow> Some (c\<lparr>waiting_count := waiting_count c - 1\<rparr>,
       if waiting_count c = 1 then Notify else Quit))"

definition all_ready :: "'v all_state \<Rightarrow> bool" where
  "all_ready c \<longleftrightarrow> waiting_count c = 0"

definition wait_all_init :: "awaitable list \<Rightarrow> ('v all_state, all_pc, 'v variant list) hand" where
  "wait_all_init as = hand_init (all_state_init as) (map (\<lambda>_. AllAwait) as)"

definition wait_all_step :: "awaitable list \<Rightarrow> bool \<Rightarrow> 'v outcome hact
    \<Rightarrow> ('v all_state, all_pc, 'v variant list) hand \<Rightarrow> ('v all_state, all_pc, 'v variant list) hand option" where
  "wait_all_step as sc = hand_step sc (all_rstep as) all_ready slots"

fun w_token :: "'l runner \<Rightarrow> nat" where
  "w_token (RWork l) = 1"
| "w_token r = 0"

declare sum_list_eq_0_iff [simp del]

definition slot_ok :: "awaitable list \<Rightarrow> 'v all_state \<Rightarrow> all_pc runner \<Rightarrow> nat \<Rightarrow> bool" where
  "slot_ok as c r i \<longleftrightarrow> (if r = RWork AllAwait
     then outs c ! i = None \<and> slots c ! i = \<lparr>active = Monostate, content = CMono\<rparr>
     else \<exists>oc. outs c ! i = Some oc \<and>
       get_body (slot_alts (as ! i)) (as ! i) (slots c ! i) = outcome_access (as ! i) oc)"

definition all_cinv :: "awaitable list \<Rightarrow> 'v all_state \<Rightarrow> all_pc runner list \<Rightarrow> bool" where
  "all_cinv as c rs \<longleftrightarrow> length as < 2 ^ 64 \<and> (\<forall>a \<in> set as. client_type a) \<and>
     length rs = length as \<and> length (slots c) = length as \<and> length (outs c) = length as \<and>
     unat (waiting_count c) = sum_list (map w_token rs) \<and>
     (\<forall>i < length as. slot_ok as c (rs ! i) i)"

lemma w_token_update:
  "i < length rs \<Longrightarrow> sum_list (map w_token (rs[i := r])) + w_token (rs ! i) = sum_list (map w_token rs) + w_token r"
  by (rule sum_map_update)

lemma w_token_le: "i < length rs \<Longrightarrow> w_token (rs ! i) \<le> sum_list (map w_token rs)"
  by (rule nth_le_sum_map)

lemma w_token_zero: "w_token r = 0 \<longleftrightarrow> \<not> working r"
  by (cases r) simp_all

lemma all_cinv_init:
  assumes "length as < 2 ^ 64" and "\<forall>a \<in> set as. client_type a"
  shows "all_cinv as (all_state_init as) (map RWork (map (\<lambda>_. AllAwait) as))"
  using assms by (simp add: all_cinv_def slot_ok_def all_state_init_def all_new_def comp_def unat_of_nat sum_list_triv)

lemma all_cinvD: "all_cinv as c rs \<Longrightarrow> i < length rs \<Longrightarrow> slot_ok as c (rs ! i) i"
  by (simp add: all_cinv_def)

lemma all_cinv_count: "all_cinv as c rs \<Longrightarrow> unat (waiting_count c) = sum_list (map w_token rs)"
  by (simp add: all_cinv_def)

lemma all_rstep_await:
  assumes inv: "all_cinv as c rs" and i: "i < length rs" "rs ! i = RWork AllAwait"
    and st: "all_rstep as i oc c AllAwait = Some (c', v)"
  shows "v = Cont AllSub \<and> all_cinv as c' (rs[i := RWork AllSub]) \<and> waiting_count c' = waiting_count c"
proof -
  have len: "length rs = length as" "length (slots c) = length as" using inv by (simp_all add: all_cinv_def)
  have ok: "outcome_ok (as ! i) oc" using st by (simp add: all_rstep_def split: if_splits)
  have ct: "client_type (as ! i)" using inv i(1) len by (simp add: all_cinv_def)
  have old: "slots c ! i = \<lparr>active = Monostate, content = CMono\<rparr>" using all_cinvD [OF inv i(1)] i(2) by (simp add: slot_ok_def)
  obtain r where r: "all_store as i oc (slots c) = Some ((slots c)[i := r])"
    "get_body (slot_alts (as ! i)) (as ! i) r = outcome_access (as ! i) oc"
    using all_store_slot [OF _ ct ok len(2) old] i(1) len by auto
  with st have c': "c' = c\<lparr>slots := (slots c)[i := r], outs := (outs c)[i := Some oc]\<rparr>" "v = Cont AllSub"
    by (simp_all add: all_rstep_def split: if_splits)
  have "sum_list (map w_token (rs[i := RWork AllSub])) = sum_list (map w_token rs)"
    using w_token_update [OF i(1), of "RWork AllSub"] i(2) by simp
  moreover have "slot_ok as c' (rs[i := RWork AllSub] ! j) j" if "j < length as" for j
  proof (cases "j = i")
    case True
    with c' r i len inv show ?thesis by (simp add: all_cinv_def slot_ok_def)
  next
    case False
    with c' inv that show ?thesis by (simp add: all_cinv_def slot_ok_def)
  qed
  ultimately show ?thesis using inv c' by (simp add: all_cinv_def)
qed

lemma all_rstep_sub:
  assumes inv: "all_cinv as c rs" and i: "i < length rs" "rs ! i = RWork AllSub"
    and st: "all_rstep as i oc c AllSub = Some (c', v)"
  shows "all_cinv as c' (rs[i := after_verdict v]) \<and> (all_ready c' \<longleftrightarrow> v = Notify) \<and> v \<in> {Notify, Quit}"
proof -
  have pos: "waiting_count c \<noteq> 0"
    using all_cinv_count [OF inv] w_token_le [OF i(1)] i(2) by auto
  have c': "c' = c\<lparr>waiting_count := waiting_count c - 1\<rparr>" "v = (if waiting_count c = 1 then Notify else Quit)"
    using st by (simp_all add: all_rstep_def)
  have "\<not> working (after_verdict v)" using c'(2) by simp
  then have "sum_list (map w_token (rs[i := after_verdict v])) + 1 = sum_list (map w_token rs)"
    using w_token_update [OF i(1), of "after_verdict v"] i(2) w_token_zero [of "after_verdict v"] by simp
  then have "unat (waiting_count c') = sum_list (map w_token (rs[i := after_verdict v]))"
    using c'(1) all_cinv_count [OF inv] unat_minus_one [OF pos] by simp
  moreover have "slot_ok as c' (rs[i := after_verdict v] ! j) j" if "j < length as" for j
  proof (cases "j = i")
    case True
    then show ?thesis using c' i all_cinvD [OF inv i(1)] by (simp add: slot_ok_def)
  next
    case False
    with c' inv that show ?thesis by (simp add: all_cinv_def slot_ok_def)
  qed
  ultimately have "all_cinv as c' (rs[i := after_verdict v])" using inv c' by (simp add: all_cinv_def)
  moreover have "all_ready c' \<longleftrightarrow> v = Notify" using c' by (auto simp: all_ready_def)
  ultimately show ?thesis using c'(2) by simp
qed

lemma all_cinv_rest:
  assumes inv: "all_cinv as c rs" and i: "i < length rs" "past_work (rs ! i)" "r = RDone \<or> (\<exists>h. r = RResume h)"
  shows "all_cinv as c (rs[i := r])"
proof -
  have "sum_list (map w_token (rs[i := r])) = sum_list (map w_token rs)"
    using w_token_update [OF i(1), of r] i(2,3) by (cases "rs ! i") auto
  moreover have n: "rs ! i \<noteq> RWork AllAwait" "r \<noteq> RWork AllAwait" using i by auto
  have "slot_ok as c (rs[i := r] ! j) j" if "j < length as" for j
    using i(1) n all_cinvD [OF inv, of j] that inv by (cases "j = i") (simp_all add: slot_ok_def all_cinv_def)
  ultimately show ?thesis using inv by (simp add: all_cinv_def)
qed

lemma all_not_ready:
  assumes "all_cinv as c rs" and "i < length rs" and "rs ! i = RWork l"
  shows "\<not> all_ready c"
  using all_cinv_count [OF assms(1)] w_token_le [OF assms(2)] assms(3) by (auto simp: all_ready_def)

lemma all_rstep_inv:
  assumes "all_cinv as c rs" and "i < length rs" and "rs ! i = RWork l" and "all_rstep as i oc c l = Some (c', v)"
  shows "all_cinv as c' (rs[i := after_verdict v])" and "all_ready c' \<longleftrightarrow> v = Notify"
proof -
  have "all_cinv as c' (rs[i := after_verdict v]) \<and> (all_ready c' \<longleftrightarrow> v = Notify)"
  proof (cases l)
    case AllAwait
    with all_rstep_await [OF assms(1,2), of oc c' v] all_not_ready [OF assms(1-3)] assms(3,4)
    show ?thesis by (auto simp: all_ready_def)
  next
    case AllSub
    with all_rstep_sub [OF assms(1,2), of oc c' v] assms(3,4) show ?thesis by simp
  qed
  then show "all_cinv as c' (rs[i := after_verdict v])" and "all_ready c' \<longleftrightarrow> v = Notify" by simp_all
qed

interpretation wall: handoff_stable "all_rstep as" all_ready "\<lambda>_. False" "all_cinv as" slots "\<lambda>r. r" for as
proof (unfold_locales, goal_cases)
  case (1 c rs i l x c' v)
  then show ?case by (rule all_rstep_inv(1))
next
  case (2 c rs i r)
  then show ?case by (rule all_cinv_rest)
next
  case (3 c rs i l x c' v)
  then show ?case using all_not_ready [of as c rs i l] by simp
next
  case (4 c rs i l x c' v)
  then show ?case using all_rstep_inv(2) [of as c rs i l x c' v] by simp
next
  case (7 c rs i l x c')
  then show ?case using all_rstep_inv(2) [of as c rs i l x c' Notify] by simp
next
  case (8 c rs i l x c' v)
  then show ?case using all_not_ready [of as c rs i l] by simp
qed simp_all

text \<open>The invariants of the machine, put together.\<close>

definition all_hyp :: "awaitable list \<Rightarrow> bool" where
  "all_hyp as \<longleftrightarrow> length as < 2 ^ 64 \<and> (\<forall>a \<in> set as. client_type a)"

lemma all_hyp_init: "all_hyp as \<Longrightarrow> all_cinv as (all_state_init as) (map RWork (map (\<lambda>_. AllAwait) as))"
  by (intro all_cinv_init) (simp_all add: all_hyp_def)

lemma wait_all_token_step:
  "token_inv s \<Longrightarrow> wait_all_step as sc a s = Some s' \<Longrightarrow> token_inv s'"
  unfolding wait_all_step_def hand_step_def by (auto split: if_splits dest: hand_act_token)

interpretation wall_machine: machine_inv "wait_all_step as sc" "wait_all_init as"
    "\<lambda>s. all_hyp as \<longrightarrow> token_inv s \<and> wall.ready_inv as s \<and> wall.got_inv s"
  for as sc
proof (unfold_locales, goal_cases)
  case 1
  have "wall.got_inv (wait_all_init as)" by (simp add: wall.got_inv_def wait_all_init_def hand_init_def)
  then show ?case using wall.ready_inv_init [OF all_hyp_init, of as] token_inv_init
    by (auto simp: wait_all_init_def)
next
  case (2 s a s')
  then show ?case using wait_all_token_step [OF _ 2(2)] wall.ready_inv_step wall.got_inv_step
    unfolding wait_all_step_def by blast
qed

interpretation wall_sc: machine_inv "wait_all_step as True" "wait_all_init as"
    "\<lambda>s. all_hyp as \<longrightarrow> token_inv s \<and> wall.wake_inv as s"
  for as
proof (unfold_locales, goal_cases)
  case 1
  show ?case using wall.wake_inv_init [OF all_hyp_init] token_inv_init by (auto simp: wait_all_init_def)
next
  case (2 s a s')
  then show ?case using wait_all_token_step [OF _ 2(2)] wall.wake_inv_step
    unfolding wait_all_step_def by blast
qed

lemma all_ready_outs:
  assumes "all_cinv as c rs" and "all_ready c"
  shows "\<exists>ocs. outs c = map Some ocs \<and> length ocs = length as \<and>
    (\<forall>i < length as. all_get as i (slots c) = outcome_access (as ! i) (ocs ! i))"
proof -
  have len: "length rs = length as" "length (outs c) = length as" using assms(1) by (simp_all add: all_cinv_def)
  have ok: "\<exists>oc. outs c ! i = Some oc \<and> all_get as i (slots c) = outcome_access (as ! i) oc"
    if "i < length as" for i
  proof -
    have "rs ! i \<noteq> RWork AllAwait"
      using all_not_ready [OF assms(1), of i AllAwait] assms(2) that len by auto
    with all_cinvD [OF assms(1), of i] that len show ?thesis
      by (simp add: slot_ok_def all_get_def typelist_get_def typelist_size_def)
  qed
  have "outs c = map Some (map the (outs c))"
    using ok len by (intro nth_equalityI) fastforce+
  moreover have "\<forall>i < length as. all_get as i (slots c) = outcome_access (as ! i) (map the (outs c) ! i)"
    using ok len by fastforce
  ultimately show ?thesis using len by (metis length_map)
qed

text \<open>
  C10. \<open>co_await wait_all(...)\<close> gives all results: in every interleaving of the runners and
  the awaiting coroutine, store buffering included, the awaiter goes on only after every
  awaitable has ended, it is resumed at most once, and the result that \<open>await_resume\<close> moved
  out gives for each index the outcome of that awaitable.
\<close>

theorem wait_all_results:
  assumes "reachable (wait_all_step as sc) (wait_all_init as) s"
    and "length as < 2 ^ 64" and "\<forall>a \<in> set as. client_type a"
  shows "resumes s \<le> 1 \<and> hbad s \<in> {None, Some UseAfterFree} \<and>
    (frame_st s \<in> {FReady, FResumed, FFinished} \<longrightarrow>
      (\<exists>ocs. outs (shared s) = map Some ocs \<and> length ocs = length as \<and>
        (frame_st s = FFinished \<longrightarrow>
          (\<exists>rs. got s = Some rs \<and> (\<forall>i < length as. all_get as i rs = outcome_access (as ! i) (ocs ! i))))))"
proof -
  have inv: "token_inv s" "wall.ready_inv as s" "wall.got_inv s"
    using wall_machine.reachable_inv [OF assms(1)] assms(2,3) by (simp_all add: all_hyp_def)
  have "hbad s \<in> {None, Some UseAfterFree}"
    using hand.reachable_inv [of sc "all_rstep as" all_ready slots "all_state_init as" "map (\<lambda>_. AllAwait) as" s] assms(1)
    by (simp add: wait_all_step_def wait_all_init_def)
  moreover have "\<exists>ocs. outs (shared s) = map Some ocs \<and> length ocs = length as \<and>
      (frame_st s = FFinished \<longrightarrow>
        (\<exists>rs. got s = Some rs \<and> (\<forall>i < length as. all_get as i rs = outcome_access (as ! i) (ocs ! i))))"
    if "frame_st s \<in> {FReady, FResumed, FFinished}"
  proof -
    have "all_ready (shared s)" using wall.ready_inv_frameD [OF inv(2)] that by auto
    from all_ready_outs [OF wall.ready_inv_shared [OF inv(2)] this] inv(3)
    show ?thesis by (auto simp: wall.got_inv_def)
  qed
  ultimately show ?thesis using token_inv_resumes [OF inv(1)] by blast
qed

text \<open>
  C11. No lost wake-up and no second one, when the store of the handle is immediately
  visible: once every runner has ended and \<open>await_suspend\<close> has returned without touching a
  dead object, the awaiting coroutine is not suspended any more, and it was resumed exactly
  once unless it had never been suspended.
\<close>

theorem wait_all_resumed_once:
  assumes "reachable (wait_all_step as True) (wait_all_init as) s"
    and "length as < 2 ^ 64" and "\<forall>a \<in> set as. client_type a"
    and "runners_done s" and "susp s = SReturned"
  shows "frame_st s \<noteq> FSuspended \<and> (resumes s = 1 \<or> resumes s = 0 \<and> frame_st s \<in> {FReady, FFinished})"
proof -
  have inv: "token_inv s" "wall.wake_inv as s"
    using wall_sc.reachable_inv [OF assms(1)] assms(2,3) by (simp_all add: all_hyp_def)
  have "sum_list (map w_token (runners s)) = 0"
    using assms(4) by (intro sum_map_zero) (auto simp: runners_done_def)
  moreover have "unat (waiting_count (shared s)) = sum_list (map w_token (runners s))"
    using inv(2) all_cinv_count by (auto simp: wall.wake_inv_def)
  ultimately have "all_ready (shared s)" by (simp add: all_ready_def unat_eq_zero)
  from wall.resumed_when_done [OF inv this assms(4,5)] returned_once [OF inv(1) assms(5)]
  show ?thesis by simp
qed

lemmas hand_eval = hand_step_def hand_init_def set_r_def resume_frame_def drain_buf_def Let_def

lemmas all_eval = wait_all_step_def wait_all_init_def all_rstep_def all_ready_def all_state_init_def
  all_store_def all_new_def all_emplace_def all_emplace_error_def slot_alts_def variant_emplace_def
  well_formed_alt_def typelist_get_def typelist_size_def typelist_concat_def stored_type_def
  outcome_ok_def void_map_def hand_eval

definition two_awaitables :: "awaitable list" where
  "two_awaitables = [\<lparr>result_type = Obj 1, noexc = True\<rparr>, \<lparr>result_type = Obj 2, noexc = False\<rparr>]"

definition all_demo :: "nat outcome hact list" where
  "all_demo = [Work 1 (OThrow 8), AwaitReady, Publish 3, Check, Work 1 (OThrow 0), Work 0 (OValue 5),
     Work 0 (OValue 0), RunExchange 0, RunResume 0, Continue]"

lemma all_demo_runs:
  "\<exists>s. run (wait_all_step two_awaitables True) all_demo (wait_all_init two_awaitables) = Some s \<and>
     frame_st s = FFinished \<and> runners_done s \<and> susp s = SReturned \<and> resumes s = 1"
  by (simp add: all_demo_def two_awaitables_def all_eval runners_done_def)

lemma two_hyp: "length two_awaitables < 2 ^ 64" "\<forall>a \<in> set two_awaitables. client_type a"
  by (simp_all add: two_awaitables_def client_type_def stored_type_def)

theorem wait_all_results_witness:
  "\<exists>s. run (wait_all_step two_awaitables True) all_demo (wait_all_init two_awaitables) = Some s \<and>
     frame_st s = FFinished \<and> (\<exists>rs oc. got s = Some rs \<and> all_get two_awaitables 1 rs = oc)"
proof -
  obtain s where s: "run (wait_all_step two_awaitables True) all_demo (wait_all_init two_awaitables) = Some s"
    "frame_st s = FFinished" using all_demo_runs by blast
  from wait_all_results [OF reachable_run [OF s(1)] two_hyp] s show ?thesis by auto
qed

theorem wait_all_resumed_once_witness:
  "\<exists>s. run (wait_all_step two_awaitables True) all_demo (wait_all_init two_awaitables) = Some s \<and>
     frame_st s \<noteq> FSuspended \<and> (resumes s = 1 \<or> resumes s = 0 \<and> frame_st s \<in> {FReady, FFinished})"
proof -
  obtain s where s: "run (wait_all_step two_awaitables True) all_demo (wait_all_init two_awaitables) = Some s"
    "runners_done s" "susp s = SReturned" using all_demo_runs by blast
  from wait_all_resumed_once [OF reachable_run [OF s(1)] two_hyp s(2,3)] s(1) show ?thesis by blast
qed

text \<open>
  \<open>await_suspend\<close> uses the awaitable after it has published the handle. When the last
  runner resumes the coroutine between the store and the second look at
  \<open>waiting_count\<close>, the awaiter ends the full expression and destroys the awaitable with its
  \<open>m_state\<close>, and the second look is a use after free.
\<close>

theorem wait_all_suspend_use_after_free:
  "\<exists>s. run (wait_all_step two_awaitables True)
       [AwaitReady, Publish 3, Work 0 (OValue (5::nat)), Work 1 (OValue 6), Work 0 (OValue 0), Work 1 (OValue 0),
        RunExchange 1, RunResume 1, Continue, Check] (wait_all_init two_awaitables) = Some s \<and>
     hbad s = Some UseAfterFree"
  by (simp add: two_awaitables_def all_eval)

text \<open>
  A release store and an acquire load are not enough in \<open>await_suspend\<close>. When the
  store of the handle is still in the store buffer while \<open>waiting_count\<close> is read as not yet
  zero, the last runner finds no handle in the cell; afterwards all threads have left the
  protocol, all awaitables have ended, the handle lies in the cell, and the awaiting coroutine
  stays suspended.
\<close>

theorem wait_all_lost_wakeup:
  "\<exists>s. run (wait_all_step two_awaitables False)
       [AwaitReady, Publish 3, Check, Work 0 (OValue (5::nat)), Work 1 (OValue 6), Work 0 (OValue 0), Work 1 (OValue 0),
        RunExchange 1, Flush] (wait_all_init two_awaitables) = Some s \<and>
     hbad s = None \<and> runners_done s \<and> susp s = SReturned \<and> all_ready (shared s) \<and>
     cell s = Some 3 \<and> frame_st s = FSuspended \<and> resumes s = 0"
  by (simp add: two_awaitables_def all_eval runners_done_def)

section \<open>\<open>wait_any\<close>\<close>

text \<open>
  A runner awaits its child, then claims \<open>ready_index\<close> with a strong compare-and-swap;
  the winner, unless it is a \<open>void\<close> that did not throw, stores its outcome in the shared
  result afterwards, and wakes the awaiter.
\<close>

record 'v any_state =
  ready_index :: int
  any_result :: "'v variant"
  any_outs :: "'v outcome option list"

datatype 'v any_pc = AnyAwait | AnyCas "'v outcome" | AnyStore "'v outcome"

definition any_state_init :: "awaitable list \<Rightarrow> 'v any_state" where
  "any_state_init as = \<lparr>ready_index = -1, any_result = any_new, any_outs = replicate (length as) None\<rparr>"

definition stores_nothing :: "awaitable list \<Rightarrow> nat \<Rightarrow> 'v outcome \<Rightarrow> bool" where
  "stores_nothing as i oc \<longleftrightarrow> (case oc of OValue v \<Rightarrow> result_type (as ! i) = Void | OThrow e \<Rightarrow> False)"

definition any_rstep :: "awaitable list \<Rightarrow> nat \<Rightarrow> 'v outcome \<Rightarrow> 'v any_state \<Rightarrow> 'v any_pc
    \<Rightarrow> ('v any_state \<times> 'v any_pc verdict) option" where
  "any_rstep as i x c pc = (case pc of
     AnyAwait \<Rightarrow>
       if i < length as \<and> outcome_ok (as ! i) x
       then Some (c\<lparr>any_outs := (any_outs c)[i := Some x]\<rparr>, Cont (AnyCas x)) else None
   | AnyCas oc \<Rightarrow>
       if ready_index c = -1
       then Some (c\<lparr>ready_index := int i\<rparr>, if stores_nothing as i oc then Notify else Cont (AnyStore oc))
       else Some (c, Quit)
   | AnyStore oc \<Rightarrow> (case any_store as i oc of
       None \<Rightarrow> None
     | Some r \<Rightarrow> Some (c\<lparr>any_result := r\<rparr>, Notify)))"

definition any_ready :: "'v any_state \<Rightarrow> bool" where
  "any_ready c \<longleftrightarrow> ready_index c \<ge> 0"

definition any_await_resume :: "'v any_state \<Rightarrow> int \<times> 'v variant" where
  "any_await_resume c = (ready_index c, any_result c)"

definition wait_any_init :: "awaitable list \<Rightarrow> ('v any_state, 'v any_pc, int \<times> 'v variant) hand" where
  "wait_any_init as = hand_init (any_state_init as) (map (\<lambda>_. AnyAwait) as)"

definition wait_any_step :: "awaitable list \<Rightarrow> bool \<Rightarrow> 'v outcome hact
    \<Rightarrow> ('v any_state, 'v any_pc, int \<times> 'v variant) hand \<Rightarrow> ('v any_state, 'v any_pc, int \<times> 'v variant) hand option" where
  "wait_any_step as sc = hand_step sc (any_rstep as) any_ready any_await_resume"

text \<open>
  Per runner: what its program counter says about its outcome, and that only the one
  whose index is in \<open>ready_index\<close> gets beyond the claim.
\<close>

definition any_ok :: "awaitable list \<Rightarrow> 'v any_state \<Rightarrow> 'v any_pc runner \<Rightarrow> nat \<Rightarrow> bool" where
  "any_ok as c r i \<longleftrightarrow> (case r of
     RWork AnyAwait \<Rightarrow> any_outs c ! i = None \<and> ready_index c \<noteq> int i
   | RWork (AnyCas oc) \<Rightarrow> any_outs c ! i = Some oc \<and> outcome_ok (as ! i) oc \<and> ready_index c \<noteq> int i
   | RWork (AnyStore oc) \<Rightarrow> any_outs c ! i = Some oc \<and> outcome_ok (as ! i) oc \<and> ready_index c = int i
   | RDone \<Rightarrow> (\<exists>oc. any_outs c ! i = Some oc) \<and> ready_index c \<noteq> -1 \<and>
       (ready_index c = int i \<longrightarrow> any_get as i (any_result c) = outcome_access (as ! i) (the (any_outs c ! i)))
   | _ \<Rightarrow> (\<exists>oc. any_outs c ! i = Some oc) \<and> ready_index c = int i \<and>
       any_get as i (any_result c) = outcome_access (as ! i) (the (any_outs c ! i)))"

definition any_cinv :: "awaitable list \<Rightarrow> 'v any_state \<Rightarrow> 'v any_pc runner list \<Rightarrow> bool" where
  "any_cinv as c rs \<longleftrightarrow> (\<forall>a \<in> set as. client_type a) \<and> length rs = length as \<and>
     length (any_outs c) = length as \<and> -1 \<le> ready_index c \<and> ready_index c < int (length as) \<and>
     (ready_index c = -1 \<longrightarrow> any_result c = any_new) \<and>
     (\<forall>i < length as. \<forall>oc. rs ! i = RWork (AnyStore oc) \<longrightarrow> any_result c = any_new) \<and>
     (\<forall>i < length as. any_ok as c (rs ! i) i)"

lemma any_cinv_init:
  "\<forall>a \<in> set as. client_type a \<Longrightarrow> any_cinv as (any_state_init as) (map RWork (map (\<lambda>_. AnyAwait) as))"
  by (simp add: any_cinv_def any_state_init_def any_ok_def)

lemma any_cinvD:
  assumes "any_cinv as c rs" and "i < length rs"
  shows "any_ok as c (rs ! i) i" and "i < length as" and "i < length (any_outs c)" and "client_type (as ! i)"
    and "rs ! i = RWork (AnyStore oc) \<Longrightarrow> any_result c = any_new"
  using assms unfolding any_cinv_def by simp_all

lemma any_cinvI:
  assumes "any_cinv as c rs" and "length (any_outs c') = length as" and "-1 \<le> ready_index c'"
    and "ready_index c' < int (length as)" and "ready_index c' = -1 \<Longrightarrow> any_result c' = any_new"
    and "i < length rs" and "any_ok as c' r i" and "\<And>oc. r = RWork (AnyStore oc) \<Longrightarrow> any_result c' = any_new"
    and "\<And>j. j < length rs \<Longrightarrow> j \<noteq> i \<Longrightarrow> any_ok as c' (rs ! j) j \<and>
      (\<forall>oc. rs ! j = RWork (AnyStore oc) \<longrightarrow> any_result c' = any_new)"
  shows "any_cinv as c' (rs[i := r])"
proof -
  have len: "length rs = length as" and ct: "\<forall>a \<in> set as. client_type a"
    using assms(1) by (simp_all add: any_cinv_def)
  have "any_ok as c' (rs[i := r] ! j) j \<and> (\<forall>oc. rs[i := r] ! j = RWork (AnyStore oc) \<longrightarrow> any_result c' = any_new)"
    if "j < length as" for j
    using assms(6-9) that len by (cases "j = i") simp_all
  with assms(2-5) len ct show ?thesis unfolding any_cinv_def by simp
qed

text \<open>The four moves of a runner.\<close>

lemma any_await_inv:
  assumes inv: "any_cinv as c rs" and i: "i < length rs" "rs ! i = RWork AnyAwait" and ok: "outcome_ok (as ! i) oc"
  shows "any_cinv as (c\<lparr>any_outs := (any_outs c)[i := Some oc]\<rparr>) (rs[i := RWork (AnyCas oc)])"
proof (rule any_cinvI [OF inv _ _ _ _ i(1)])
  show "any_ok as (c\<lparr>any_outs := (any_outs c)[i := Some oc]\<rparr>) (RWork (AnyCas oc)) i"
    using any_cinvD(1,3) [OF inv i(1)] i(2) ok by (simp add: any_ok_def)
  show "any_ok as (c\<lparr>any_outs := (any_outs c)[i := Some oc]\<rparr>) (rs ! j) j \<and>
      (\<forall>oc'. rs ! j = RWork (AnyStore oc') \<longrightarrow> any_result (c\<lparr>any_outs := (any_outs c)[i := Some oc]\<rparr>) = any_new)"
    if "j < length rs" "j \<noteq> i" for j
    using any_cinvD(1,5) [OF inv that(1)] that(2)
    by (auto simp: any_ok_def split: runner.splits any_pc.splits)
qed (use inv in \<open>auto simp: any_cinv_def\<close>)

lemma any_unclaimed:
  assumes "any_cinv as c rs" and "ready_index c = -1" and "j < length rs"
  shows "\<exists>pc. rs ! j = RWork pc \<and> (pc = AnyAwait \<or> (\<exists>oc. pc = AnyCas oc))"
  using any_cinvD(1) [OF assms(1,3)] assms(2)
  by (auto simp: any_ok_def split: runner.splits any_pc.splits)

lemma any_get_void:
  "i < length as \<Longrightarrow> client_type (as ! i) \<Longrightarrow> stores_nothing as i oc \<Longrightarrow>
   any_get as i any_new = outcome_access (as ! i) oc"
  by (cases oc) (simp_all add: stores_nothing_def any_get_def typelist_get_def typelist_size_def outcome_access_def
      stored_type_def get_body_void any_new_def)

lemma any_claim_inv:
  assumes inv: "any_cinv as c rs" and i: "i < length rs" "rs ! i = RWork (AnyCas oc)" and free: "ready_index c = -1"
  shows "any_cinv as (c\<lparr>ready_index := int i\<rparr>)
    (rs[i := after_verdict (if stores_nothing as i oc then Notify else Cont (AnyStore oc))])"
proof (rule any_cinvI [OF inv _ _ _ _ i(1)])
  have new: "any_result c = any_new" using inv free by (simp add: any_cinv_def)
  then show "any_ok as (c\<lparr>ready_index := int i\<rparr>)
      (after_verdict (if stores_nothing as i oc then Notify else Cont (AnyStore oc))) i"
    using any_cinvD(1,2,4) [OF inv i(1)] i(2) any_get_void [of i as oc] by (simp add: any_ok_def)
  show "any_ok as (c\<lparr>ready_index := int i\<rparr>) (rs ! j) j \<and>
      (\<forall>oc'. rs ! j = RWork (AnyStore oc') \<longrightarrow> any_result (c\<lparr>ready_index := int i\<rparr>) = any_new)"
    if "j < length rs" "j \<noteq> i" for j
    using any_cinvD(1) [OF inv that(1)] any_unclaimed [OF inv free that(1)] that(2) new by (auto simp: any_ok_def)
  show "any_result (c\<lparr>ready_index := int i\<rparr>) = any_new" using new by simp
qed (use inv free any_cinvD(2) [OF inv i(1)] in \<open>auto simp: any_cinv_def\<close>)

lemma any_quit_inv:
  assumes inv: "any_cinv as c rs" and i: "i < length rs" "rs ! i = RWork (AnyCas oc)" and free: "ready_index c \<noteq> -1"
  shows "any_cinv as c (rs[i := RDone])"
proof (rule any_cinvI [OF inv _ _ _ _ i(1)])
  show "any_ok as c RDone i" using any_cinvD(1) [OF inv i(1)] i(2) free by (simp add: any_ok_def)
qed (use inv free any_cinvD(1,5) [OF inv] in \<open>auto simp: any_cinv_def\<close>)

lemma any_store_inv:
  assumes inv: "any_cinv as c rs" and i: "i < length rs" "rs ! i = RWork (AnyStore oc)"
  shows "\<exists>r. any_store as i oc = Some r \<and> any_cinv as (c\<lparr>any_result := r\<rparr>) (rs[i := RExchange])"
proof -
  have ok: "any_outs c ! i = Some oc" "outcome_ok (as ! i) oc" "ready_index c = int i"
    using any_cinvD(1) [OF inv i(1)] i(2) by (simp_all add: any_ok_def)
  obtain r where r: "any_store as i oc = Some r" "any_get as i r = outcome_access (as ! i) oc"
    using any_store_get [OF any_cinvD(2) [OF inv i(1)] any_cinvD(4) [OF inv i(1)] ok(2)] by blast
  have "any_cinv as (c\<lparr>any_result := r\<rparr>) (rs[i := RExchange])"
  proof (rule any_cinvI [OF inv _ _ _ _ i(1)])
    show "any_ok as (c\<lparr>any_result := r\<rparr>) RExchange i" using ok r by (simp add: any_ok_def)
    show "any_ok as (c\<lparr>any_result := r\<rparr>) (rs ! j) j \<and>
        (\<forall>oc'. rs ! j = RWork (AnyStore oc') \<longrightarrow> any_result (c\<lparr>any_result := r\<rparr>) = any_new)"
      if "j < length rs" "j \<noteq> i" for j
      using any_cinvD(1) [OF inv that(1)] ok(3) that(2)
      by (auto simp: any_ok_def split: runner.splits any_pc.splits)
  qed (use inv ok in \<open>auto simp: any_cinv_def\<close>)
  with r(1) show ?thesis by blast
qed

lemma any_rest_inv:
  assumes inv: "any_cinv as c rs" and i: "i < length rs" "past_work (rs ! i)" "r = RDone \<or> (\<exists>h. r = RResume h)"
  shows "any_cinv as c (rs[i := r])"
proof (rule any_cinvI [OF inv _ _ _ _ i(1)])
  show "any_ok as c r i" using any_cinvD(1) [OF inv i(1)] i(2,3) by (cases "rs ! i") (auto simp: any_ok_def)
qed (use inv i(3) any_cinvD(1,5) [OF inv] in \<open>auto simp: any_cinv_def\<close>)

fun any_commit :: "'v any_pc \<Rightarrow> bool" where
  "any_commit (AnyStore oc) = True"
| "any_commit pc = False"

lemma any_rstep_all:
  assumes inv: "any_cinv as c rs" and i: "i < length rs" "rs ! i = RWork pc" and st: "any_rstep as i x c pc = Some (c', v)"
  shows "any_cinv as c' (rs[i := after_verdict v]) \<and> (ready_index c \<noteq> -1 \<longrightarrow> ready_index c' = ready_index c) \<and>
    (\<not> any_ready c \<longrightarrow> any_ready c' \<longrightarrow> committed any_commit (after_verdict v)) \<and>
    (any_commit pc \<longrightarrow> committed any_commit (after_verdict v)) \<and> (v = Notify \<longrightarrow> any_ready c')"
proof (cases pc)
  case AnyAwait
  with any_await_inv [OF inv i(1)] i(2) st show ?thesis
    by (auto simp: any_rstep_def any_ready_def split: if_splits)
next
  case (AnyCas oc)
  show ?thesis
  proof (cases "ready_index c = -1")
    case True
    with any_claim_inv [OF inv i(1)] AnyCas i(2) st show ?thesis
      by (auto simp: any_rstep_def any_ready_def)
  next
    case False
    with any_quit_inv [OF inv i(1)] AnyCas i(2) st show ?thesis
      by (auto simp: any_rstep_def any_ready_def)
  qed
next
  case (AnyStore oc)
  have r: "ready_index c = int i" using any_cinvD(1) [OF inv i(1)] i(2) AnyStore by (simp add: any_ok_def)
  obtain y where y: "any_store as i oc = Some y" "any_cinv as (c\<lparr>any_result := y\<rparr>) (rs[i := RExchange])"
    using any_store_inv [OF inv i(1)] i(2) AnyStore by auto
  with st AnyStore have "c' = c\<lparr>any_result := y\<rparr>" "v = Notify" by (simp_all add: any_rstep_def)
  with y r show ?thesis by (simp add: any_ready_def)
qed

interpretation wany: handoff_stable "any_rstep as" any_ready any_commit "any_cinv as" any_await_resume fst for as
proof (unfold_locales, goal_cases)
  case (1 c rs i l x c' v)
  then show ?case using any_rstep_all by blast
next
  case (2 c rs i r)
  then show ?case by (rule any_rest_inv)
next
  case (3 c rs i l x c' v)
  then show ?case using any_rstep_all [OF 3(1-4)] by (simp add: any_ready_def)
next
  case (4 c rs i l x c' v)
  then show ?case using any_rstep_all by blast
next
  case (5 c rs i l x c' v)
  then show ?case using any_rstep_all by blast
next
  case (6 c rs i l)
  then obtain oc where "l = AnyStore oc" by (cases l) auto
  with any_store_inv [OF 6(1,2)] 6(3) show ?case by (auto simp: any_rstep_def)
next
  case (7 c rs i l x c')
  then show ?case using any_rstep_all by blast
next
  case (8 c rs i l x c' v)
  then show ?case using any_rstep_all [OF 8(1-4)] by (simp add: any_ready_def any_await_resume_def)
qed

lemma wait_any_token_step:
  "token_inv s \<Longrightarrow> wait_any_step as sc a s = Some s' \<Longrightarrow> token_inv s'"
  unfolding wait_any_step_def hand_step_def by (auto split: if_splits dest: hand_act_token)

interpretation wany_machine: machine_inv "wait_any_step as sc" "wait_any_init as"
    "\<lambda>s. (\<forall>a \<in> set as. client_type a) \<longrightarrow> token_inv s \<and> wany.ready_inv as s \<and> wany.got_inv s"
  for as sc
proof (unfold_locales, goal_cases)
  case 1
  have "wany.got_inv (wait_any_init as)" by (simp add: wany.got_inv_def wait_any_init_def hand_init_def)
  then show ?case using wany.ready_inv_init [OF any_cinv_init, of as] token_inv_init
    by (auto simp: wait_any_init_def)
next
  case (2 s a s')
  then show ?case using wait_any_token_step [OF _ 2(2)] wany.ready_inv_step wany.got_inv_step
    unfolding wait_any_step_def by blast
qed

interpretation wany_sc: machine_inv "wait_any_step as True" "wait_any_init as"
    "\<lambda>s. (\<forall>a \<in> set as. client_type a) \<longrightarrow> token_inv s \<and> wany.wake_inv as s"
  for as
proof (unfold_locales, goal_cases)
  case 1
  show ?case using wany.wake_inv_init [OF any_cinv_init, of as] token_inv_init by (auto simp: wait_any_init_def)
next
  case (2 s a s')
  then show ?case using wait_any_token_step [OF _ 2(2)] wany.wake_inv_step
    unfolding wait_any_step_def by blast
qed

text \<open>
  C12. \<open>wait_any\<close> has one winner. In every interleaving, once \<open>ready_index\<close> is set it is
  the index of an awaitable that has ended, no other runner gets to store or to wake, the
  shared result, once the winner has stored it, gives the winner's outcome, and the index that
  \<open>await_resume\<close> returned to the awaiter is the winner's. The awaiter is resumed at most
  once and never before there is a winner.
\<close>

theorem wait_any_single_winner:
  assumes "reachable (wait_any_step as sc) (wait_any_init as) s" and "\<forall>a \<in> set as. client_type a"
  shows "resumes s \<le> 1 \<and> (frame_st s \<in> {FReady, FResumed, FFinished} \<longrightarrow> ready_index (shared s) \<noteq> -1) \<and>
    (frame_st s = FFinished \<longrightarrow> (\<exists>r. got s = Some (ready_index (shared s), r))) \<and>
    (ready_index (shared s) \<noteq> -1 \<longrightarrow> (\<exists>i oc. i < length as \<and> ready_index (shared s) = int i \<and>
       any_outs (shared s) ! i = Some oc \<and>
       (runners s ! i = RWork (AnyStore oc) \<or> any_get as i (any_result (shared s)) = outcome_access (as ! i) oc) \<and>
       (\<forall>j < length as. j \<noteq> i \<longrightarrow> \<not> past_work (runners s ! j) \<and> (\<forall>oc'. runners s ! j \<noteq> RWork (AnyStore oc')))))"
proof -
  have inv: "token_inv s" "wany.ready_inv as s" "wany.got_inv s"
    using wany_machine.reachable_inv [OF assms(1)] assms(2) by simp_all
  note ci = wany.ready_inv_shared [OF inv(2)]
  have len: "length (runners s) = length as" using ci by (simp add: any_cinv_def)
  have "ready_index (shared s) \<noteq> -1" if "frame_st s \<in> {FReady, FResumed, FFinished}"
    using wany.ready_inv_frameD [OF inv(2)] that by (auto simp: any_ready_def)
  moreover have "\<exists>r. got s = Some (ready_index (shared s), r)" if "frame_st s = FFinished"
    using inv(3) that by (force simp: wany.got_inv_def any_await_resume_def)
  moreover have "\<exists>i oc. i < length as \<and> ready_index (shared s) = int i \<and> any_outs (shared s) ! i = Some oc \<and>
       (runners s ! i = RWork (AnyStore oc) \<or> any_get as i (any_result (shared s)) = outcome_access (as ! i) oc) \<and>
       (\<forall>j < length as. j \<noteq> i \<longrightarrow> \<not> past_work (runners s ! j) \<and> (\<forall>oc'. runners s ! j \<noteq> RWork (AnyStore oc')))"
    if "ready_index (shared s) \<noteq> -1"
  proof -
    have "0 \<le> ready_index (shared s)" "ready_index (shared s) < int (length as)"
      using ci that by (simp_all add: any_cinv_def)
    then obtain i where i: "ready_index (shared s) = int i" "i < length as" by (metis nat_0_le nat_less_iff)
    then obtain oc where oc: "any_outs (shared s) ! i = Some oc"
      "runners s ! i = RWork (AnyStore oc) \<or> any_get as i (any_result (shared s)) = outcome_access (as ! i) oc"
      using any_cinvD(1) [OF ci, of i] len by (auto simp: any_ok_def split: runner.splits any_pc.splits)
    have "\<not> past_work (runners s ! j) \<and> (\<forall>oc'. runners s ! j \<noteq> RWork (AnyStore oc'))"
      if "j < length as" "j \<noteq> i" for j
      using any_cinvD(1) [OF ci, of j] len that i(1)
      by (auto simp: any_ok_def split: runner.splits any_pc.splits)
    with i oc show ?thesis by blast
  qed
  ultimately show ?thesis using token_inv_resumes [OF inv(1)] by blast
qed

text \<open>
  C13. \<open>wait_any\<close>: when the store of the handle is immediately visible, the awaiter is never
  left suspended: once there is a winner, every runner has ended and \<open>await_suspend\<close> has
  returned, the coroutine goes on, resumed exactly once unless it never suspended.
\<close>

theorem wait_any_resumed_once:
  assumes "reachable (wait_any_step as True) (wait_any_init as) s" and "\<forall>a \<in> set as. client_type a"
    and "0 < length as" and "runners_done s" and "susp s = SReturned"
  shows "frame_st s \<noteq> FSuspended \<and> (resumes s = 1 \<or> resumes s = 0 \<and> frame_st s \<in> {FReady, FFinished})"
proof -
  have inv: "token_inv s" "wany.wake_inv as s"
    using wany_sc.reachable_inv [OF assms(1)] assms(2) by simp_all
  then have ci: "any_cinv as (shared s) (runners s)" by (simp add: wany.wake_inv_def)
  then have len: "length (runners s) = length as" by (simp add: any_cinv_def)
  have "runners s ! 0 = RDone" using assms(3,4) len by (simp add: runners_done_def)
  with any_cinvD(1) [OF ci, of 0] len assms(3) have "ready_index (shared s) \<noteq> -1" by (simp add: any_ok_def)
  then have "any_ready (shared s)" using ci by (auto simp: any_cinv_def any_ready_def)
  from wany.resumed_when_done [OF inv this assms(4,5)] returned_once [OF inv(1) assms(5)]
  show ?thesis by simp
qed

lemmas any_eval = wait_any_step_def wait_any_init_def any_rstep_def any_ready_def any_state_init_def
  any_store_def any_new_def any_emplace_def any_emplace_error_def any_alts_def error_alt_def variant_emplace_def
  well_formed_alt_def typelist_get_def typelist_size_def typelist_concat_def typelist_map_def stored_type_def
  outcome_ok_def void_map_def stores_nothing_def any_await_resume_def hand_eval

definition any_demo :: "nat outcome hact list" where
  "any_demo = [AwaitReady, Publish 3, Check, Work 1 (OThrow 8), Work 1 (OValue 0), Work 1 (OValue 0),
     RunExchange 1, RunResume 1, Continue, Work 0 (OValue 5), Work 0 (OValue 0)]"

lemma any_demo_runs:
  "\<exists>s. run (wait_any_step two_awaitables True) any_demo (wait_any_init two_awaitables) = Some s \<and>
     frame_st s = FFinished \<and> runners_done s \<and> susp s = SReturned \<and> resumes s = 1 \<and> ready_index (shared s) = 1"
  by (simp add: any_demo_def two_awaitables_def any_eval runners_done_def)

theorem wait_any_single_winner_witness:
  "\<exists>s. run (wait_any_step two_awaitables True) any_demo (wait_any_init two_awaitables) = Some s \<and>
     (\<exists>r. got s = Some (1, r)) \<and> resumes s \<le> 1"
proof -
  obtain s where s: "run (wait_any_step two_awaitables True) any_demo (wait_any_init two_awaitables) = Some s"
    "frame_st s = FFinished" "ready_index (shared s) = 1" using any_demo_runs by blast
  from wait_any_single_winner [OF reachable_run [OF s(1)] two_hyp(2)] s show ?thesis by auto
qed

theorem wait_any_resumed_once_witness:
  "\<exists>s. run (wait_any_step two_awaitables True) any_demo (wait_any_init two_awaitables) = Some s \<and>
     frame_st s \<noteq> FSuspended \<and> (resumes s = 1 \<or> resumes s = 0 \<and> frame_st s \<in> {FReady, FFinished})"
proof -
  obtain s where s: "run (wait_any_step two_awaitables True) any_demo (wait_any_init two_awaitables) = Some s"
    "runners_done s" "susp s = SReturned" using any_demo_runs by blast
  have "0 < length two_awaitables" by (simp add: two_awaitables_def)
  from wait_any_resumed_once [OF reachable_run [OF s(1)] two_hyp(2) this s(2,3)] s(1) show ?thesis by blast
qed

text \<open>
  \<open>wait_any\<close> publishes the winner before its result. A runner that has claimed
  \<open>ready_index\<close> and not yet stored its value makes \<open>await_ready\<close> succeed; the awaiter takes
  the index of the winner with an empty result, and \<open>get\<close> with that index terminates the
  program for a \<open>noexcept\<close> awaitable although the awaitable had ended with a value.
\<close>

theorem wait_any_result_race:
  "\<exists>s. run (wait_any_step two_awaitables True) [Work 0 (OValue (5::nat)), Work 0 (OValue 0), AwaitReady, Continue]
       (wait_any_init two_awaitables) = Some s \<and>
     got s = Some (0, any_new) \<and> any_outs (shared s) ! 0 = Some (OValue 5) \<and>
     any_get two_awaitables 0 (any_new :: nat variant) = Terminates"
  by (simp add: two_awaitables_def any_eval any_get_def get_body_def variant_get_def is_lref_def)

end
