(* ===== verification/Cancel.thy ===== *)
theory Cancel
  imports Prelude
begin

text \<open>
  \<open>CancelablePromiseBase\<close> of \<open>include/coro.hpp\<close>: the three-state cancellation cell, \<open>cancel\<close>
  and \<open>wait_cancel\<close>, one access of the code per action. The destructor and the final
  suspension of a cancelable promise and the \<open>cancel\<close> functions of the futures all are
  calls of the one \<open>cancel\<close>.
\<close>

section \<open>The machine\<close>

text \<open>
  A coroutine runs, or is inside the \<open>await_suspend\<close> of \<open>wait_cancel\<close>: the exchange of
  \<open>reset_waiter\<close>, taking the old waiter, resuming it, storing itself, the exchange of
  \<open>set_cancel_waiter\<close>; or it is suspended. A thread in \<open>cancel\<close> has found \<open>eWaiting\<close> and
  is about to resume \<open>m_waiter\<close>. \<open>trues\<close> counts the calls of \<open>cancel\<close> that return true.
\<close>

datatype cstate = EPending | ECanceled | EWaiting

datatype kpc = KRun | KReset | KTake | KOldResume handle | KStore | KCas | KSusp

datatype xpc = XIdle | XResume

record ksys =
  kstate :: cstate
  m_waiter :: "handle option"
  coros :: "kpc list"
  cancellers :: "xpc list"
  trues :: nat
  kbad :: "fault option"

definition ksys_init :: "nat \<Rightarrow> nat \<Rightarrow> ksys" where
  "ksys_init n x = \<lparr>kstate = EPending, m_waiter = None, coros = replicate n KRun,
     cancellers = replicate x XIdle, trues = 0, kbad = None\<rparr>"

datatype kact = WaitCancel nat | KStep nat | CallCancel nat | XStep nat

definition set_k :: "nat \<Rightarrow> kpc \<Rightarrow> ksys \<Rightarrow> ksys" where
  "set_k i pc s = s\<lparr>coros := (coros s)[i := pc]\<rparr>"

definition resume_coro :: "handle \<Rightarrow> ksys \<Rightarrow> ksys" where
  "resume_coro h s = (if h < length (coros s) \<and> coros s ! h = KSusp then set_k h KRun s
     else s\<lparr>kbad := Some Unreachable\<rparr>)"

text \<open>\<open>await_ready\<close>: a canceled promise does not suspend.\<close>

definition wait_cancel :: "nat \<Rightarrow> ksys \<Rightarrow> ksys option" where
  "wait_cancel i s = (if i < length (coros s) \<and> coros s ! i = KRun
     then Some (if kstate s = ECanceled then s else set_k i KReset s) else None)"

fun suspend_step :: "nat \<Rightarrow> kpc \<Rightarrow> ksys \<Rightarrow> ksys option" where
  "suspend_step i KReset s =
     Some (if kstate s = EWaiting then set_k i KTake (s\<lparr>kstate := EPending\<rparr>) else set_k i KStore s)"
| "suspend_step i KTake s =
     Some (case m_waiter s of
       None \<Rightarrow> set_k i KStore s
     | Some h \<Rightarrow> set_k i (KOldResume h) (s\<lparr>m_waiter := None\<rparr>))"
| "suspend_step i (KOldResume h) s = Some (resume_coro h (set_k i KStore s))"
| "suspend_step i KStore s = Some (set_k i KCas (s\<lparr>m_waiter := Some i\<rparr>))"
| "suspend_step i KCas s =
     Some (if kstate s = EPending then set_k i KSusp (s\<lparr>kstate := EWaiting\<rparr>) else set_k i KRun s)"
| "suspend_step i pc s = None"

definition cancel :: "nat \<Rightarrow> ksys \<Rightarrow> ksys option" where
  "cancel j s = (if j < length (cancellers s) \<and> cancellers s ! j = XIdle
     then Some (case kstate s of
         EPending \<Rightarrow> s\<lparr>kstate := ECanceled, trues := trues s + 1\<rparr>
       | ECanceled \<Rightarrow> s
       | EWaiting \<Rightarrow> s\<lparr>kstate := ECanceled, trues := trues s + 1, cancellers := (cancellers s)[j := XResume]\<rparr>)
     else None)"

definition cancel_resume :: "nat \<Rightarrow> ksys \<Rightarrow> ksys option" where
  "cancel_resume j s = (if j < length (cancellers s) \<and> cancellers s ! j = XResume
     then (let t = s\<lparr>cancellers := (cancellers s)[j := XIdle]\<rparr>
       in Some (case m_waiter s of None \<Rightarrow> t\<lparr>kbad := Some NullDeref\<rparr> | Some h \<Rightarrow> resume_coro h t))
     else None)"

fun kact_step :: "kact \<Rightarrow> ksys \<Rightarrow> ksys option" where
  "kact_step (WaitCancel i) s = wait_cancel i s"
| "kact_step (KStep i) s = (if i < length (coros s) then suspend_step i (coros s ! i) s else None)"
| "kact_step (CallCancel j) s = cancel j s"
| "kact_step (XStep j) s = cancel_resume j s"

definition kstep :: "kact \<Rightarrow> ksys \<Rightarrow> ksys option" where
  "kstep a s = (if kbad s \<noteq> None then None else kact_step a s)"

section \<open>Cancelling once\<close>

definition once_inv :: "ksys \<Rightarrow> bool" where
  "once_inv s \<longleftrightarrow> trues s = (if kstate s = ECanceled then 1 else 0)"

lemma set_k_fields [simp]:
  "kstate (set_k i pc s) = kstate s" "m_waiter (set_k i pc s) = m_waiter s"
  "cancellers (set_k i pc s) = cancellers s" "trues (set_k i pc s) = trues s" "kbad (set_k i pc s) = kbad s"
  "coros (set_k i pc s) = (coros s)[i := pc]"
  by (simp_all add: set_k_def)

lemma resume_coro_fields [simp]:
  "kstate (resume_coro h s) = kstate s" "m_waiter (resume_coro h s) = m_waiter s"
  "cancellers (resume_coro h s) = cancellers s" "trues (resume_coro h s) = trues s"
  "length (coros (resume_coro h s)) = length (coros s)"
  by (simp_all add: resume_coro_def)

lemma once_suspend:
  "suspend_step i pc s = Some s' \<Longrightarrow> trues s' = trues s \<and> (kstate s' = ECanceled \<longleftrightarrow> kstate s = ECanceled)"
  by (cases pc) (auto split: if_splits option.splits)

lemma once_step: "once_inv s \<Longrightarrow> kstep a s = Some s' \<Longrightarrow> once_inv s' \<and> (kstate s = ECanceled \<longrightarrow> kstate s' = ECanceled)"
  by (cases a)
    (auto simp: kstep_def once_inv_def wait_cancel_def cancel_def cancel_resume_def Let_def
      split: if_splits cstate.splits option.splits dest!: once_suspend)

interpretation once: machine_inv kstep "ksys_init n x" once_inv for n x
  by unfold_locales (simp add: once_inv_def ksys_init_def, blast dest: once_step)

lemma run_canceled:
  "once_inv s \<Longrightarrow> kstate s = ECanceled \<Longrightarrow> run kstep as s = Some s' \<Longrightarrow> kstate s' = ECanceled"
  by (induction as arbitrary: s) (auto split: option.splits dest: once_step)

text \<open>
  Cancellation happens once: in every interleaving of any number of waiting coroutines and
  cancelling threads, at most one call of \<open>cancel\<close> returns true, it is the one that made the
  state \<open>eCanceled\<close>, and the state never changes again.
\<close>

theorem cancel_true_once:
  assumes "run kstep as (ksys_init n x) = Some s" and "run kstep bs s = Some s'"
  shows "trues s \<le> 1 \<and> (trues s = 1 \<longleftrightarrow> kstate s = ECanceled) \<and>
    (kstate s = ECanceled \<longrightarrow> kstate s' = ECanceled \<and> trues s' = 1)"
proof -
  have i: "once_inv s" using once.reachable_inv [OF reachable_run [OF assms(1)]] .
  moreover have "once_inv s'" using once.run_inv [OF i assms(2)] .
  ultimately show ?thesis using run_canceled [OF i _ assms(2)] by (auto simp: once_inv_def)
qed

lemmas cancel_eval = kstep_def ksys_init_def wait_cancel_def cancel_def cancel_resume_def set_k_def
  resume_coro_def Let_def

definition cancel_demo :: "kact list" where
  "cancel_demo = [WaitCancel 0, KStep 0, KStep 0, KStep 0, CallCancel 0, CallCancel 1, XStep 0]"

lemma cancel_demo_runs:
  "\<exists>s. run kstep cancel_demo (ksys_init 1 2) = Some s \<and> kstate s = ECanceled \<and> trues s = 1 \<and>
     coros s = [KRun] \<and> cancellers s = [XIdle, XIdle]"
  by (simp add: cancel_demo_def cancel_eval numeral_2_eq_2)

theorem cancel_true_once_witness:
  "\<exists>s. run kstep cancel_demo (ksys_init 1 2) = Some s \<and> trues s \<le> 1 \<and> kstate s = ECanceled"
proof -
  obtain s where s: "run kstep cancel_demo (ksys_init 1 2) = Some s" "kstate s = ECanceled"
    using cancel_demo_runs by blast
  have "run kstep [] s = Some s" by simp
  from cancel_true_once [OF s(1) this] s show ?thesis by blast
qed

section \<open>One waiting coroutine\<close>

fun x_token :: "xpc \<Rightarrow> nat" where
  "x_token XResume = 1"
| "x_token XIdle = 0"

declare sum_list_eq_0_iff [simp del]

definition single_ok :: "kpc \<Rightarrow> cstate \<Rightarrow> handle option \<Rightarrow> nat \<Rightarrow> bool" where
  "single_ok pc st w n \<longleftrightarrow>
     (if pc = KSusp then w = Some 0 \<and> (st = EWaiting \<and> n = 0 \<or> st = ECanceled \<and> n = 1)
      else st \<noteq> EWaiting \<and> n = 0 \<and> pc \<in> {KRun, KReset, KStore, KCas} \<and> (pc = KCas \<longrightarrow> w = Some 0))"

definition single_inv :: "ksys \<Rightarrow> bool" where
  "single_inv s \<longleftrightarrow> kbad s = None \<and> (\<exists>pc. coros s = [pc] \<and>
     single_ok pc (kstate s) (m_waiter s) (sum_list (map x_token (cancellers s))))"

lemma single_invI:
  "kbad s = None \<Longrightarrow> coros s = [pc] \<Longrightarrow>
   single_ok pc (kstate s) (m_waiter s) (sum_list (map x_token (cancellers s))) \<Longrightarrow> single_inv s"
  by (simp add: single_inv_def)

lemma x_token_update:
  "i < length xs \<Longrightarrow> sum_list (map x_token (xs[i := x])) + x_token (xs ! i) = sum_list (map x_token xs) + x_token x"
  by (rule sum_map_update)

lemma x_token_le: "i < length xs \<Longrightarrow> x_token (xs ! i) \<le> sum_list (map x_token xs)"
  by (rule nth_le_sum_map)

lemma single_init: "single_inv (ksys_init 1 x)"
  by (rule single_invI [of _ KRun]) (auto simp: ksys_init_def single_ok_def intro: sum_map_zero [of "replicate x XIdle" x_token, simplified])

lemma single_suspend:
  assumes "single_inv s" and pc: "coros s = [pc]" and st: "suspend_step 0 pc s = Some s'"
  shows "single_inv s'"
proof -
  from assms(1) pc have b: "kbad s = None" and ok: "single_ok pc (kstate s) (m_waiter s) (sum_list (map x_token (cancellers s)))"
    by (simp_all add: single_inv_def)
  show ?thesis
  proof (cases pc)
    case KReset
    with ok st have "s' = set_k 0 KStore s" by (simp add: single_ok_def)
    with ok b pc KReset show ?thesis by (intro single_invI [of _ KStore]) (simp_all add: single_ok_def)
  next
    case KStore
    with ok b pc st show ?thesis by (intro single_invI [of _ KCas]) (auto simp: single_ok_def)
  next
    case KCas
    show ?thesis
    proof (cases "kstate s")
      case EPending
      with KCas ok b pc st show ?thesis by (intro single_invI [of _ KSusp]) (auto simp: single_ok_def)
    next
      case ECanceled
      with KCas ok b pc st show ?thesis by (intro single_invI [of _ KRun]) (auto simp: single_ok_def)
    next
      case EWaiting
      with KCas ok show ?thesis by (simp add: single_ok_def)
    qed
  qed (use ok st in \<open>simp_all add: single_ok_def\<close>)
qed

lemma single_cancel:
  assumes inv: "single_inv s" and st: "cancel j s = Some s'"
  shows "single_inv s'"
proof -
  obtain pc where pc: "coros s = [pc]" "kbad s = None"
    and ok: "single_ok pc (kstate s) (m_waiter s) (sum_list (map x_token (cancellers s)))"
    using inv by (auto simp: single_inv_def)
  have j: "j < length (cancellers s)" "cancellers s ! j = XIdle" using st by (simp_all add: cancel_def split: if_splits)
  have x: "sum_list (map x_token ((cancellers s)[j := XResume])) = sum_list (map x_token (cancellers s)) + 1"
    using x_token_update [OF j(1), of XResume] j(2) by simp
  show ?thesis
  proof (cases "kstate s")
    case EPending
    with st j have "s' = s\<lparr>kstate := ECanceled, trues := trues s + 1\<rparr>" by (simp add: cancel_def)
    with EPending ok pc show ?thesis by (intro single_invI [of _ pc]) (auto simp: single_ok_def split: if_splits)
  next
    case ECanceled
    with st j inv show ?thesis by (simp add: cancel_def)
  next
    case EWaiting
    with st j have "s' = s\<lparr>kstate := ECanceled, trues := trues s + 1, cancellers := (cancellers s)[j := XResume]\<rparr>"
      by (simp add: cancel_def)
    with EWaiting ok pc x show ?thesis by (intro single_invI [of _ pc]) (auto simp: single_ok_def split: if_splits)
  qed
qed

lemma single_cancel_resume:
  assumes inv: "single_inv s" and st: "cancel_resume j s = Some s'"
  shows "single_inv s'"
proof -
  obtain pc where pc: "coros s = [pc]" "kbad s = None"
    and ok: "single_ok pc (kstate s) (m_waiter s) (sum_list (map x_token (cancellers s)))"
    using inv by (auto simp: single_inv_def)
  have j: "j < length (cancellers s)" "cancellers s ! j = XResume"
    using st by (simp_all add: cancel_resume_def split: if_splits)
  have "0 < sum_list (map x_token (cancellers s))" using x_token_le [OF j(1)] j(2) by simp
  with ok have c: "pc = KSusp" "m_waiter s = Some 0" "kstate s = ECanceled"
    "sum_list (map x_token (cancellers s)) = 1" by (auto simp: single_ok_def split: if_splits)
  then have "sum_list (map x_token ((cancellers s)[j := XIdle])) = 0"
    using x_token_update [OF j(1), of XIdle] j(2) by simp
  moreover have "s' = set_k 0 KRun (s\<lparr>cancellers := (cancellers s)[j := XIdle]\<rparr>)"
    using st j pc c by (simp add: cancel_resume_def resume_coro_def Let_def)
  ultimately show ?thesis using pc c by (intro single_invI [of _ KRun]) (simp_all add: single_ok_def)
qed

lemma single_wait_cancel:
  assumes inv: "single_inv s" and st: "wait_cancel i s = Some s'"
  shows "single_inv s'"
proof -
  obtain pc where pc: "coros s = [pc]" "kbad s = None"
    and ok: "single_ok pc (kstate s) (m_waiter s) (sum_list (map x_token (cancellers s)))"
    using inv by (auto simp: single_inv_def)
  with st have i: "i = 0" "pc = KRun" by (auto simp: wait_cancel_def split: if_splits)
  show ?thesis
  proof (cases "kstate s = ECanceled")
    case True
    with st inv show ?thesis by (simp add: wait_cancel_def split: if_splits)
  next
    case False
    with st i pc have "s' = set_k 0 KReset s" by (simp add: wait_cancel_def)
    with ok pc i show ?thesis by (intro single_invI [of _ KReset]) (simp_all add: single_ok_def)
  qed
qed

lemma single_kact:
  assumes inv: "single_inv s" and st: "kact_step a s = Some s'"
  shows "single_inv s'"
proof (cases a)
  case (KStep i)
  obtain pc where pc: "coros s = [pc]" using inv by (auto simp: single_inv_def)
  with KStep st have "suspend_step 0 pc s = Some s'" by (simp split: if_splits)
  with single_suspend [OF inv pc] show ?thesis by simp
next
  case (WaitCancel i)
  with st single_wait_cancel [OF inv] show ?thesis by simp
next
  case (CallCancel j)
  with st single_cancel [OF inv] show ?thesis by simp
next
  case (XStep j)
  with st single_cancel_resume [OF inv] show ?thesis by simp
qed

lemma single_step: "single_inv s \<Longrightarrow> kstep a s = Some s' \<Longrightarrow> single_inv s'"
  by (rule single_kact) (simp_all add: kstep_def split: if_splits)

interpretation single: machine_inv kstep "ksys_init 1 x" single_inv for x
  by unfold_locales (rule single_init, erule single_step)

text \<open>
  C16. \<open>wait_cancel\<close> for one coroutine: against any number of cancelling threads nothing
  faults, so no coroutine is resumed that is not suspended; the coroutine is suspended only
  while the promise is not canceled or a canceller is about to resume it; once the promise is
  canceled and the cancellers are through, it runs, and awaiting again does not suspend it.
\<close>

theorem wait_cancel_single:
  assumes "reachable kstep (ksys_init 1 x) s"
  shows "kbad s = None \<and>
    (coros s ! 0 = KSusp \<and> kstate s = ECanceled \<longrightarrow>
       (\<exists>j < length (cancellers s). \<exists>s'. cancellers s ! j = XResume \<and> kstep (XStep j) s = Some s' \<and> coros s' ! 0 = KRun)) \<and>
    (kstate s = ECanceled \<and> (\<forall>p \<in> set (cancellers s). p = XIdle) \<longrightarrow> coros s ! 0 \<noteq> KSusp) \<and>
    (kstate s = ECanceled \<and> coros s ! 0 = KRun \<longrightarrow> kstep (WaitCancel 0) s = Some s)"
proof -
  have inv: "single_inv s" using single.reachable_inv [OF assms] .
  then obtain pc where pc: "coros s = [pc]" "kbad s = None" by (auto simp: single_inv_def)
  have resume: "\<exists>j < length (cancellers s). \<exists>s'. cancellers s ! j = XResume \<and> kstep (XStep j) s = Some s' \<and> coros s' ! 0 = KRun"
    if "pc = KSusp" "kstate s = ECanceled"
  proof -
    from inv pc that have w: "m_waiter s = Some 0" "0 < sum_list (map x_token (cancellers s))"
      by (simp_all add: single_inv_def single_ok_def)
    from sum_map_pos [OF w(2)] obtain j where j: "j < length (cancellers s)" "0 < x_token (cancellers s ! j)" by blast
    then have "cancellers s ! j = XResume" by (cases "cancellers s ! j") simp_all
    with j(1) w(1) pc that show ?thesis by (auto simp: kstep_def cancel_resume_def resume_coro_def)
  qed
  moreover have "pc \<noteq> KSusp" if "kstate s = ECanceled" "\<forall>p \<in> set (cancellers s). p = XIdle"
    using resume that nth_mem by (metis xpc.distinct(1))
  ultimately show ?thesis using pc by (auto simp: kstep_def wait_cancel_def)
qed

theorem wait_cancel_single_witness:
  "\<exists>s. run kstep cancel_demo (ksys_init 1 2) = Some s \<and> kbad s = None \<and> coros s ! 0 \<noteq> KSusp"
proof -
  obtain s where s: "run kstep cancel_demo (ksys_init 1 2) = Some s" "kstate s = ECanceled"
    "cancellers s = [XIdle, XIdle]" using cancel_demo_runs by blast
  from wait_cancel_single [OF reachable_run [OF s(1)]] s show ?thesis by auto
qed

section \<open>Two waiting coroutines\<close>

text \<open>
  A second coroutine that waits may take the first one's place in \<open>m_waiter\<close> while a
  canceller that has found \<open>eWaiting\<close> is about to resume the first: \<open>set_cancel_waiter\<close>
  stores the waiter before it looks at the state. The canceller then resumes a coroutine that is
  not suspended, and the suspended one is in nobody's hands.
\<close>

theorem wait_cancel_overwrites:
  "\<exists>s. run kstep [WaitCancel 0, KStep 0, KStep 0, KStep 0, WaitCancel 1, CallCancel 0, KStep 1, KStep 1, XStep 0]
       (ksys_init 2 1) = Some s \<and>
     kbad s = Some Unreachable \<and> coros s = [KSusp, KCas] \<and> m_waiter s = Some 1"
  by (simp add: cancel_eval numeral_2_eq_2)

text \<open>
  The same loss on a single thread: the old waiter, resumed from inside the new
  waiter's \<open>await_suspend\<close>, waits again at once and registers; the new waiter then overwrites
  it, does not suspend, and a later \<open>cancel\<close> resumes a running coroutine while the registered
  one stays suspended.
\<close>

theorem wait_cancel_reentrant:
  "\<exists>s. run kstep [WaitCancel 0, KStep 0, KStep 0, KStep 0, WaitCancel 1, KStep 1, KStep 1, KStep 1,
       WaitCancel 0, KStep 0, KStep 0, KStep 0, KStep 1, KStep 1, CallCancel 0, XStep 0]
       (ksys_init 2 1) = Some s \<and>
     kbad s = Some Unreachable \<and> coros s = [KSusp, KRun] \<and> m_waiter s = Some 1"
  by (simp add: cancel_eval numeral_2_eq_2)

end
