(* ===== verification/Wait_Each.thy ===== *)
theory Wait_Each
  imports Atomic_Queue Await_Results
begin

text \<open>
  \<open>WaitEachAwaitable\<close> of \<open>include/awaitable.hpp\<close>: runners queue their outcomes, one
  coroutine awaits them one after the other. The queue operations are single steps here;
  \<open>Wait_Each_Queue\<close> takes them one access at a time.
\<close>

section \<open>The machine\<close>

text \<open>
  A runner awaits its child, queues the result, decrements \<open>remaining\<close>, exchanges
  \<open>coroutine_addr\<close> and resumes what it found. The awaiting coroutine runs, is between the two
  looks of \<open>await_ready\<close>, is about to dequeue in \<open>await_resume\<close>, or is suspended. Each
  suspension has a thread in \<open>await_suspend\<close>, which another thread's resumption may
  outrun. \<open>delivered\<close> logs the results of the awaits, \<open>queued\<close> the successful enqueues.
\<close>

datatype 'v epc = EAwait | EQueue "'v outcome" | ESub | EExch | EResume handle | EDone

datatype tpc = TPublish | TCheck | TExch | TResume handle | TDone

datatype fpc = FRun | FLook | FDequeue | FSusp

record 'v esys =
  remaining :: u64
  ecell :: "handle option"
  results :: "(nat \<times> 'v outcome) queue"
  erunners :: "'v epc list"
  threads :: "tpc list"
  awaiter :: fpc
  delivered :: "(nat \<times> 'v outcome) option list"
  queued :: "(nat \<times> 'v outcome) list"
  ebad :: "fault option"

definition esys_init :: "nat \<Rightarrow> addr \<Rightarrow> 'v esys" where
  "esys_init n stub = \<lparr>remaining = of_nat n, ecell = None, results = new_queue stub,
     erunners = replicate n EAwait, threads = [], awaiter = FRun, delivered = [], queued = [], ebad = None\<rparr>"

datatype 'v eact =
    Ends nat "'v outcome" | Queue nat "addr option" | ERun nat
  | EachReady | EachLook | EachDequeue | EThread nat handle

definition set_e :: "nat \<Rightarrow> 'v epc \<Rightarrow> 'v esys \<Rightarrow> 'v esys" where
  "set_e i pc s = s\<lparr>erunners := (erunners s)[i := pc]\<rparr>"

definition set_th :: "nat \<Rightarrow> tpc \<Rightarrow> 'v esys \<Rightarrow> 'v esys" where
  "set_th j pc s = s\<lparr>threads := (threads s)[j := pc]\<rparr>"

definition resume_awaiter :: "'v esys \<Rightarrow> 'v esys" where
  "resume_awaiter s = (if awaiter s = FSusp then s\<lparr>awaiter := FDequeue\<rparr> else s\<lparr>ebad := Some Unreachable\<rparr>)"

definition with_queue :: "'v esys \<Rightarrow> fault + 'b \<Rightarrow> ('b \<Rightarrow> 'v esys) \<Rightarrow> 'v esys" where
  "with_queue s r k = (case r of Inl e \<Rightarrow> s\<lparr>ebad := Some e\<rparr> | Inr x \<Rightarrow> k x)"

text \<open>The runner: its result goes into the queue, whatever \<open>enqueue\<close> answers.\<close>

definition each_enqueue :: "nat \<Rightarrow> 'v outcome \<Rightarrow> addr option \<Rightarrow> 'v esys \<Rightarrow> 'v esys" where
  "each_enqueue i oc alloc s = with_queue s (enqueue alloc (i, oc) (results s))
     (\<lambda>(b, q). set_e i ESub (s\<lparr>results := q, queued := (if b then queued s @ [(i, oc)] else queued s)\<rparr>))"

fun each_runner :: "nat \<Rightarrow> 'v epc \<Rightarrow> 'v esys \<Rightarrow> 'v esys option" where
  "each_runner i ESub s = Some (set_e i EExch (s\<lparr>remaining := remaining s - 1\<rparr>))"
| "each_runner i EExch s =
     Some (set_e i (case ecell s of None \<Rightarrow> EDone | Some h \<Rightarrow> EResume h) (s\<lparr>ecell := None\<rparr>))"
| "each_runner i (EResume h) s = Some (resume_awaiter (set_e i EDone s))"
| "each_runner i pc s = None"

text \<open>The thread of one \<open>await_suspend\<close>.\<close>

fun each_suspend :: "nat \<Rightarrow> handle \<Rightarrow> tpc \<Rightarrow> 'v esys \<Rightarrow> 'v esys option" where
  "each_suspend j h TPublish s = Some (set_th j TCheck (s\<lparr>ecell := Some h\<rparr>))"
| "each_suspend j h TCheck s = Some (with_queue s (maybe_empty (results s))
     (\<lambda>empty. set_th j (if empty then TDone else TExch) s))"
| "each_suspend j h TExch s =
     Some (set_th j (case ecell s of None \<Rightarrow> TDone | Some x \<Rightarrow> TResume x) (s\<lparr>ecell := None\<rparr>))"
| "each_suspend j h (TResume x) s = Some (resume_awaiter (set_th j TDone s))"
| "each_suspend j h TDone s = None"

fun each_act :: "'v eact \<Rightarrow> 'v esys \<Rightarrow> 'v esys option" where
  "each_act (Ends i oc) s =
     (if i < length (erunners s) \<and> erunners s ! i = EAwait then Some (set_e i (EQueue oc) s) else None)"
| "each_act (Queue i alloc) s =
     (if i < length (erunners s) \<and> (case alloc of None \<Rightarrow> True | Some n \<Rightarrow> mem (results s) n = None)
      then (case erunners s ! i of EQueue oc \<Rightarrow> Some (each_enqueue i oc alloc s) | _ \<Rightarrow> None) else None)"
| "each_act (ERun i) s = (if i < length (erunners s) then each_runner i (erunners s ! i) s else None)"
| "each_act EachReady s =
     (if awaiter s = FRun then Some (s\<lparr>awaiter := (if remaining s = 0 then FDequeue else FLook)\<rparr>) else None)"
| "each_act EachLook s =
     (if awaiter s = FLook
      then Some (with_queue s (maybe_empty (results s))
        (\<lambda>empty. if empty then s\<lparr>awaiter := FSusp, threads := threads s @ [TPublish]\<rparr> else s\<lparr>awaiter := FDequeue\<rparr>))
      else None)"
| "each_act EachDequeue s =
     (if awaiter s = FDequeue
      then Some (with_queue s (try_dequeue (results s))
        (\<lambda>(r, q). s\<lparr>results := q, awaiter := FRun, delivered := delivered s @ [r]\<rparr>))
      else None)"
| "each_act (EThread j h) s = (if j < length (threads s) then each_suspend j h (threads s ! j) s else None)"

definition each_step :: "'v eact \<Rightarrow> 'v esys \<Rightarrow> 'v esys option" where
  "each_step a s = (if ebad s \<noteq> None then None else each_act a s)"

section \<open>The invariant\<close>

fun e_token :: "'v epc \<Rightarrow> nat" where
  "e_token (EResume h) = 1"
| "e_token pc = 0"

fun t_token :: "tpc \<Rightarrow> nat" where
  "t_token (TResume h) = 1"
| "t_token pc = 0"

fun t_fresh :: "tpc \<Rightarrow> nat" where
  "t_fresh TPublish = 1"
| "t_fresh pc = 0"

definition somes :: "'a option list \<Rightarrow> 'a list" where
  "somes xs = List.map_filter id xs"

definition each_tokens :: "'v esys \<Rightarrow> nat" where
  "each_tokens s = (if ecell s = None then 0 else 1) + sum_list (map e_token (erunners s))
     + sum_list (map t_token (threads s)) + sum_list (map t_fresh (threads s))"

text \<open>Runners that still will exchange the cell after having queued something.\<close>

definition waking :: "'v epc \<Rightarrow> bool" where
  "waking pc \<longleftrightarrow> pc = ESub \<or> pc = EExch"

definition looking :: "tpc \<Rightarrow> bool" where
  "looking pc \<longleftrightarrow> pc = TCheck \<or> pc = TExch"

definition each_inv :: "'v esys \<Rightarrow> bool" where
  "each_inv s \<longleftrightarrow> ebad s = None \<and> each_tokens s = (if awaiter s = FSusp then 1 else 0) \<and>
     (\<exists>xs. running_holds (results s) xs \<and> queued s = somes (delivered s) @ xs \<and>
        (ecell s \<noteq> None \<and> xs \<noteq> [] \<longrightarrow>
           (\<exists>pc \<in> set (erunners s). waking pc) \<or> (\<exists>pc \<in> set (threads s). looking pc)))"

declare sum_list_eq_0_iff [simp del]

lemma each_fields [simp]:
  "ecell (set_e i pc s) = ecell s" "results (set_e i pc s) = results s" "threads (set_e i pc s) = threads s"
  "awaiter (set_e i pc s) = awaiter s" "delivered (set_e i pc s) = delivered s" "queued (set_e i pc s) = queued s"
  "ebad (set_e i pc s) = ebad s" "erunners (set_e i pc s) = (erunners s)[i := pc]" "remaining (set_e i pc s) = remaining s"
  "ecell (set_th i t s) = ecell s" "results (set_th i t s) = results s" "threads (set_th i t s) = (threads s)[i := t]"
  "awaiter (set_th i t s) = awaiter s" "delivered (set_th i t s) = delivered s" "queued (set_th i t s) = queued s"
  "ebad (set_th i t s) = ebad s" "erunners (set_th i t s) = erunners s" "remaining (set_th i t s) = remaining s"
  by (simp_all add: set_e_def set_th_def)

lemma e_token_update:
  "i < length xs \<Longrightarrow> sum_list (map e_token (xs[i := x])) + e_token (xs ! i) = sum_list (map e_token xs) + e_token x"
  by (rule sum_map_update)

lemma t_token_update:
  "i < length xs \<Longrightarrow> sum_list (map t_token (xs[i := x])) + t_token (xs ! i) = sum_list (map t_token xs) + t_token x"
  "i < length xs \<Longrightarrow> sum_list (map t_fresh (xs[i := x])) + t_fresh (xs ! i) = sum_list (map t_fresh xs) + t_fresh x"
  by (rule sum_map_update, assumption)+

lemma token_le:
  "i < length xs \<Longrightarrow> e_token (xs ! i) \<le> sum_list (map e_token xs)"
  "j < length ys \<Longrightarrow> t_token (ys ! j) \<le> sum_list (map t_token ys)"
  "j < length ys \<Longrightarrow> t_fresh (ys ! j) \<le> sum_list (map t_fresh ys)"
  by (rule nth_le_sum_map, assumption)+

lemma each_invI:
  assumes "ebad s = None" and "each_tokens s = (if awaiter s = FSusp then 1 else 0)"
    and "running_holds (results s) xs" and "queued s = somes (delivered s) @ xs"
    and "ecell s \<noteq> None \<Longrightarrow> xs \<noteq> [] \<Longrightarrow>
      (\<exists>pc \<in> set (erunners s). waking pc) \<or> (\<exists>pc \<in> set (threads s). looking pc)"
  shows "each_inv s"
  using assms unfolding each_inv_def by blast

lemma somes_snoc [simp]: "somes (xs @ [None]) = somes xs" "somes (xs @ [Some x]) = somes xs @ [x]" "somes [] = []"
  by (simp_all add: somes_def map_filter_def)

text \<open>Whoever holds the handle may resume, and is the only one.\<close>

lemma each_resume:
  assumes "each_tokens s = (if awaiter s = FSusp then 1 else 0)"
    and "0 < sum_list (map e_token (erunners s)) + sum_list (map t_token (threads s))"
  shows "awaiter s = FSusp" and "ecell s = None"
  using assms by (auto simp: each_tokens_def split: if_splits)

lemma each_runner_inv:
  assumes inv: "each_inv s" and i: "i < length (erunners s)" and st: "each_runner i (erunners s ! i) s = Some s'"
  shows "each_inv s'"
proof -
  obtain xs where b: "ebad s = None" and t: "each_tokens s = (if awaiter s = FSusp then 1 else 0)"
    and h: "running_holds (results s) xs" and q: "queued s = somes (delivered s) @ xs"
    and w: "ecell s \<noteq> None \<and> xs \<noteq> [] \<longrightarrow>
      (\<exists>pc \<in> set (erunners s). waking pc) \<or> (\<exists>pc \<in> set (threads s). looking pc)"
    using inv unfolding each_inv_def by blast
  show ?thesis
  proof (cases "erunners s ! i")
    case ESub
    with st have s': "s' = set_e i EExch (s\<lparr>remaining := remaining s - 1\<rparr>)" by simp
    have "each_tokens s' = each_tokens s"
      using e_token_update [OF i, of EExch] ESub by (simp add: s' each_tokens_def)
    with s' b t h q i show ?thesis
      by (intro each_invI [of _ xs]) (simp_all add: bex_set_updateI waking_def)
  next
    case EExch
    with st have s': "s' = set_e i (case ecell s of None \<Rightarrow> EDone | Some x \<Rightarrow> EResume x) (s\<lparr>ecell := None\<rparr>)" by simp
    have "each_tokens s' = each_tokens s"
      using e_token_update [OF i, of "case ecell s of None \<Rightarrow> EDone | Some x \<Rightarrow> EResume x"] EExch
      by (cases "ecell s") (simp_all add: s' each_tokens_def)
    with s' b t h q show ?thesis by (intro each_invI [of _ xs]) simp_all
  next
    case (EResume x)
    then have "0 < sum_list (map e_token (erunners s))" using token_le(1) [OF i] by simp
    then have r: "awaiter s = FSusp" "ecell s = None" using each_resume [OF t] by simp_all
    with EResume st have s': "s' = (set_e i EDone s)\<lparr>awaiter := FDequeue\<rparr>" by (simp add: resume_awaiter_def)
    have "each_tokens s' = 0"
      using e_token_update [OF i, of EDone] EResume t r by (simp add: s' each_tokens_def)
    with s' b h q r show ?thesis by (intro each_invI [of _ xs]) simp_all
  qed (use st in simp_all)
qed

lemma each_suspend_inv:
  assumes inv: "each_inv s" and j: "j < length (threads s)" and st: "each_suspend j x (threads s ! j) s = Some s'"
  shows "each_inv s'"
proof -
  obtain xs where b: "ebad s = None" and t: "each_tokens s = (if awaiter s = FSusp then 1 else 0)"
    and h: "running_holds (results s) xs" and q: "queued s = somes (delivered s) @ xs"
    and w: "ecell s \<noteq> None \<and> xs \<noteq> [] \<longrightarrow>
      (\<exists>pc \<in> set (erunners s). waking pc) \<or> (\<exists>pc \<in> set (threads s). looking pc)"
    using inv unfolding each_inv_def by blast
  show ?thesis
  proof (cases "threads s ! j")
    case TPublish
    with st have s': "s' = set_th j TCheck (s\<lparr>ecell := Some x\<rparr>)" by simp
    have "0 < sum_list (map t_fresh (threads s))" using token_le(3) [OF j] TPublish by simp
    then have "ecell s = None" using t by (auto simp: each_tokens_def split: if_splits)
    then have "each_tokens s' = each_tokens s"
      using t_token_update [OF j, of TCheck] TPublish by (simp add: s' each_tokens_def)
    with s' b t h q j show ?thesis
      by (intro each_invI [of _ xs]) (simp_all add: bex_set_updateI looking_def)
  next
    case TCheck
    have "maybe_empty (results s) = Inr (xs = [])"
      using maybe_empty_holds [of "results s" xs] h by (simp add: running_holds_def)
    with TCheck st have s': "s' = set_th j (if xs = [] then TDone else TExch) s" by (simp add: with_queue_def)
    have "each_tokens s' = each_tokens s"
      using t_token_update [OF j, of "if xs = [] then TDone else TExch"] TCheck
      by (simp add: s' each_tokens_def split: if_splits)
    with s' b t h q j show ?thesis
      by (intro each_invI [of _ xs]) (simp_all add: bex_set_updateI looking_def)
  next
    case TExch
    with st have s': "s' = set_th j (case ecell s of None \<Rightarrow> TDone | Some x \<Rightarrow> TResume x) (s\<lparr>ecell := None\<rparr>)" by simp
    have "each_tokens s' = each_tokens s"
      using t_token_update [OF j, of "case ecell s of None \<Rightarrow> TDone | Some x \<Rightarrow> TResume x"] TExch
      by (cases "ecell s") (simp_all add: s' each_tokens_def)
    with s' b t h q show ?thesis by (intro each_invI [of _ xs]) simp_all
  next
    case (TResume y)
    then have "0 < sum_list (map t_token (threads s))" using token_le(2) [OF j] by simp
    then have r: "awaiter s = FSusp" "ecell s = None" using each_resume [OF t] by simp_all
    with TResume st have s': "s' = (set_th j TDone s)\<lparr>awaiter := FDequeue\<rparr>" by (simp add: resume_awaiter_def)
    have "each_tokens s' = 0"
      using t_token_update [OF j, of TDone] TResume t r by (simp add: s' each_tokens_def)
    with s' b h q r show ?thesis by (intro each_invI [of _ xs]) simp_all
  qed (use st in simp_all)
qed

lemma each_enqueue_inv:
  assumes inv: "each_inv s" and i: "i < length (erunners s)" "erunners s ! i = EQueue oc"
    and a: "case alloc of None \<Rightarrow> True | Some n \<Rightarrow> mem (results s) n = None"
  shows "each_inv (each_enqueue i oc alloc s)"
proof -
  obtain xs where b: "ebad s = None" and t: "each_tokens s = (if awaiter s = FSusp then 1 else 0)"
    and h: "running_holds (results s) xs" and q: "queued s = somes (delivered s) @ xs"
    using inv unfolding each_inv_def by blast
  have tk: "each_tokens (set_e i ESub (s\<lparr>results := r, queued := l\<rparr>)) = each_tokens s" for r l
    using e_token_update [OF i(1), of ESub] i(2) by (simp add: each_tokens_def)
  show ?thesis
  proof (cases alloc)
    case None
    then have "each_enqueue i oc alloc s = set_e i ESub s"
      by (cases s) (simp add: each_enqueue_def with_queue_def enqueue_alloc_failed set_e_def)
    moreover have "each_tokens (set_e i ESub s) = each_tokens s"
      using e_token_update [OF i(1), of ESub] i(2) by (simp add: each_tokens_def)
    ultimately show ?thesis using b t h q i
      by (intro each_invI [of _ xs]) (simp_all add: bex_set_updateI waking_def)
  next
    case (Some n)
    with a aq.enq_ok [OF h, of n "(i, oc)"] obtain r where r: "enqueue alloc (i, oc) (results s) = Inr (True, r)"
      "running_holds r (xs @ [(i, oc)])" by auto
    then have "each_enqueue i oc alloc s = set_e i ESub (s\<lparr>results := r, queued := queued s @ [(i, oc)]\<rparr>)"
      by (simp add: each_enqueue_def with_queue_def)
    with b t r(2) q i tk show ?thesis
      by (intro each_invI [of _ "xs @ [(i, oc)]"]) (simp_all add: bex_set_updateI waking_def)
  qed
qed

lemma each_act_inv:
  assumes inv: "each_inv s" and st: "each_act a s = Some s'"
  shows "each_inv s'"
proof -
  obtain xs where b: "ebad s = None" and t: "each_tokens s = (if awaiter s = FSusp then 1 else 0)"
    and h: "running_holds (results s) xs" and q: "queued s = somes (delivered s) @ xs"
    and w: "ecell s \<noteq> None \<and> xs \<noteq> [] \<longrightarrow>
      (\<exists>pc \<in> set (erunners s). waking pc) \<or> (\<exists>pc \<in> set (threads s). looking pc)"
    using inv unfolding each_inv_def by blast
  show ?thesis
  proof (cases a)
    case (Ends i oc)
    then have i: "i < length (erunners s)" "erunners s ! i = EAwait" and s': "s' = set_e i (EQueue oc) s"
      using st by (simp_all split: if_splits)
    have "each_tokens s' = each_tokens s"
      using e_token_update [OF i(1), of "EQueue oc"] i(2) by (simp add: s' each_tokens_def)
    moreover have "(\<exists>pc \<in> set (erunners s). waking pc) \<Longrightarrow> (\<exists>pc \<in> set (erunners s'). waking pc)"
      using bex_set_update [of "erunners s" waking i "EQueue oc"] i by (simp add: s' waking_def)
    ultimately show ?thesis using s' b t h q w by (intro each_invI [of _ xs]) auto
  next
    case (Queue i alloc)
    with st obtain oc where "i < length (erunners s)" "erunners s ! i = EQueue oc"
      "case alloc of None \<Rightarrow> True | Some n \<Rightarrow> mem (results s) n = None" "s' = each_enqueue i oc alloc s"
      by (auto split: if_splits epc.splits)
    with each_enqueue_inv [OF inv] show ?thesis by simp
  next
    case (ERun i)
    with st each_runner_inv [OF inv] show ?thesis by (simp split: if_splits)
  next
    case (EThread j x)
    with st each_suspend_inv [OF inv] show ?thesis by (simp split: if_splits)
  next
    case EachReady
    then have a: "awaiter s = FRun" and s': "s' = s\<lparr>awaiter := (if remaining s = 0 then FDequeue else FLook)\<rparr>"
      using st by (simp_all split: if_splits)
    with b t h q w show ?thesis by (intro each_invI [of _ xs]) (simp_all add: each_tokens_def)
  next
    case EachLook
    have "maybe_empty (results s) = Inr (xs = [])"
      using maybe_empty_holds [of "results s" xs] h by (simp add: running_holds_def)
    with EachLook st have a: "awaiter s = FLook" and s': "s' = (if xs = []
        then s\<lparr>awaiter := FSusp, threads := threads s @ [TPublish]\<rparr> else s\<lparr>awaiter := FDequeue\<rparr>)"
      by (simp_all add: with_queue_def split: if_splits)
    from a t have z: "each_tokens s = 0" "ecell s = None" by (auto simp: each_tokens_def split: if_splits)
    have "each_tokens s' = (if xs = [] then 1 else 0)" using s' z by (simp add: each_tokens_def)
    with s' b h q z show ?thesis by (cases "xs = []") (auto intro!: each_invI [of _ xs])
  next
    case EachDequeue
    then have a: "awaiter s = FDequeue" and s': "s' = with_queue s (try_dequeue (results s))
        (\<lambda>(r, q). s\<lparr>results := q, awaiter := FRun, delivered := delivered s @ [r]\<rparr>)"
      using st by (simp_all split: if_splits)
    from a t have z: "each_tokens s = 0" "ecell s = None" by (auto simp: each_tokens_def split: if_splits)
    show ?thesis
    proof (cases xs)
      case Nil
      then have "try_dequeue (results s) = Inr (None, results s)" using aq.deq_empty [of "results s"] h by simp
      with s' a b z h q Nil show ?thesis
        by (intro each_invI [of _ "[]"]) (simp_all add: with_queue_def each_tokens_def)
    next
      case (Cons y ys)
      then obtain r where "try_dequeue (results s) = Inr (Some y, r)" "running_holds r ys"
        using aq.deq_ok [of "results s" y ys] h by auto
      with s' a b z q Cons show ?thesis
        by (intro each_invI [of _ ys]) (simp_all add: with_queue_def each_tokens_def)
    qed
  qed
qed

lemma each_inv_init: "each_inv (esys_init n stub)"
  by (rule each_invI [of _ "[]"])
    (auto simp: esys_init_def running_holds_new each_tokens_def somes_def map_filter_def
      intro: sum_map_zero [of "replicate n EAwait" e_token, simplified])

interpretation each: machine_inv each_step "esys_init n stub" each_inv for n stub
proof (unfold_locales, goal_cases)
  case 1
  show ?case by (rule each_inv_init)
next
  case (2 s a s')
  then show ?case using each_act_inv [OF 2(1)] by (simp add: each_step_def split: if_splits)
qed

section \<open>What the awaiter gets\<close>

text \<open>
  \<open>wait_each\<close> delivers results in the order in which they were queued, each once, under
  every interleaving: the results of the awaits so far, followed by what is in the queue, are the
  results queued so far; no coroutine is resumed that is not suspended and nothing faults. No
  queued result is left behind: when the coroutine is suspended and all threads have left the
  protocol, everything queued has been delivered.
\<close>

theorem wait_each_delivers:
  assumes "reachable each_step (esys_init n stub) s"
  shows "ebad s = None \<and>
    (\<exists>xs. running_holds (results s) xs \<and> queued s = somes (delivered s) @ xs) \<and>
    (awaiter s = FSusp \<and> (\<forall>pc \<in> set (erunners s). pc = EDone \<or> pc = EAwait) \<and> (\<forall>t \<in> set (threads s). t = TDone)
       \<longrightarrow> queued s = somes (delivered s))"
proof -
  have inv: "each_inv s" using each.reachable_inv [OF assms] .
  then obtain xs where b: "ebad s = None" and t: "each_tokens s = (if awaiter s = FSusp then 1 else 0)"
    and h: "running_holds (results s) xs" and q: "queued s = somes (delivered s) @ xs"
    and w: "ecell s \<noteq> None \<and> xs \<noteq> [] \<longrightarrow>
      (\<exists>pc \<in> set (erunners s). waking pc) \<or> (\<exists>pc \<in> set (threads s). looking pc)"
    unfolding each_inv_def by blast
  have "xs = []" if a: "awaiter s = FSusp" and e: "\<forall>pc \<in> set (erunners s). pc = EDone \<or> pc = EAwait"
    and th: "\<forall>t \<in> set (threads s). t = TDone"
  proof -
    have "sum_list (map e_token (erunners s)) = 0" "sum_list (map t_token (threads s)) = 0"
      "sum_list (map t_fresh (threads s)) = 0"
      using e th by (auto intro!: sum_map_zero)
    with t a have "ecell s \<noteq> None" by (auto simp: each_tokens_def split: if_splits)
    with w e th show ?thesis by (auto simp: waking_def looking_def)
  qed
  with b h q show ?thesis by auto
qed

lemmas each_eval = each_step_def esys_init_def set_e_def set_th_def resume_awaiter_def with_queue_def
  each_enqueue_def enqueue_def try_dequeue_def maybe_empty_def pop_front_def new_queue_def alloc_node_def
  take_value_def value_node_def stub_node_def store_next_def load_next_def delete_node_def Let_def

definition each_demo :: "nat eact list" where
  "each_demo = [EachReady, EachLook, EThread 0 3, EThread 0 3, Ends 1 (OValue 8), Queue 1 (Some 5), ERun 1, ERun 1,
     ERun 1, EachDequeue]"

theorem wait_each_delivers_witness:
  "\<exists>s. run each_step each_demo (esys_init 2 0) = Some s \<and> delivered s = [Some (1, OValue 8)] \<and>
     (\<exists>xs. queued s = somes (delivered s) @ xs) \<and> ebad s = None"
proof -
  obtain s where s: "run each_step each_demo (esys_init 2 0) = Some s" "delivered s = [Some (1, OValue 8)]"
    by (simp add: each_demo_def each_eval numeral_2_eq_2)
  from wait_each_delivers [OF reachable_run [OF s(1)]] s show ?thesis by auto
qed

section \<open>Where it goes wrong\<close>

text \<open>
  An early end. A runner that has queued its result but not yet exchanged the cell lets
  the awaiter take the result without suspending; when the awaiter then suspends for the next
  one, the same runner takes the handle and resumes it with an empty queue: \<open>await_resume\<close>
  returns \<open>nullopt\<close>, the sign that all results have been delivered, while another awaitable
  has not ended.
\<close>

theorem wait_each_early_end:
  "\<exists>s. run each_step [Ends 0 (OValue (8::nat)), Queue 0 (Some 5), EachReady, EachLook, EachDequeue,
       EachReady, ERun 0, EachLook, EThread 0 3, EThread 0 3, ERun 0, ERun 0, EachDequeue] (esys_init 2 0) = Some s \<and>
     delivered s = [Some (0, OValue 8), None] \<and> remaining s = 1 \<and> erunners s ! 1 = EAwait"
  by (simp add: each_eval numeral_2_eq_2)

text \<open>
  A lost wake-up at the end. \<open>await_suspend\<close> looks again only at the queue and not at
  \<open>remaining\<close>. An awaiter that has read \<open>remaining\<close> as not yet zero, after the last
  result was delivered, publishes its handle after the last runner has exchanged the cell: all
  runners are done, all results delivered, and the coroutine stays suspended instead of getting
  \<open>nullopt\<close>.
\<close>

theorem wait_each_lost_wakeup:
  "\<exists>s. run each_step [Ends 0 (OValue (8::nat)), Queue 0 (Some 5), EachReady, EachLook, EachDequeue,
       EachReady, ERun 0, ERun 0, EachLook, EThread 0 3, EThread 0 3] (esys_init 1 0) = Some s \<and>
     remaining s = 0 \<and> erunners s = [EDone] \<and> threads s = [TDone] \<and> awaiter s = FSusp \<and>
     delivered s = [Some (0, OValue 8)] \<and> ebad s = None"
  by (simp add: each_eval)

end
