(* ===== verification/Wait_Each_Queue.thy ===== *)
theory Wait_Each_Queue
  imports Wait_Each Queue_Steps
begin

text \<open>
  \<open>WaitEachAwaitable\<close> of \<open>include/awaitable.hpp\<close> over the real queue: the runners go through
  \<open>enqueue\<close>, the awaiting coroutine through \<open>try_dequeue\<close> and everybody through \<open>maybe_empty\<close> one
  access at a time, where \<open>Wait_Each\<close> takes each call as one action. An insertion in flight makes
  the queue look empty here; the comment of \<open>await_suspend\<close> says why no wake-up is lost by it.
\<close>

section \<open>The machine\<close>

text \<open>
  A runner awaits, is about to call \<open>enqueue\<close>, is inside it, decrements \<open>remaining\<close>, exchanges
  \<open>coroutine_addr\<close>, resumes what it found. A thread in \<open>await_suspend\<close> publishes the handle, looks at
  the head, then at that node's link, exchanges, resumes. The awaiter runs, looks in
  \<open>await_ready\<close>, is about to call \<open>try_dequeue\<close>, is inside it, or is suspended.
\<close>

datatype 'v xpc = XAwait | XQueue "'v outcome" | XIn "'v outcome" | XSub | XExch | XResume handle | XDone

datatype xtpc = XPublish | XCheck | XLink addr | XSwap | XWake handle | XEnd

datatype xfpc = XRun | XLook | XLookLink addr | XDequeue | XTaking | XSusp

text \<open>\<open>xended\<close> logs how each awaitable ended, \<open>xdelivered\<close> the results of the awaits.\<close>

record 'v xsys =
  xq :: "(nat \<times> 'v outcome) qsys"
  xremaining :: u64
  xcell :: "handle option"
  xrunners :: "'v xpc list"
  xthreads :: "xtpc list"
  xawaiter :: xfpc
  xended :: "nat \<Rightarrow> 'v outcome option"
  xdelivered :: "(nat \<times> 'v outcome) option list"
  xbad :: "fault option"

definition xsys_init :: "nat \<Rightarrow> addr \<Rightarrow> 'v xsys" where
  "xsys_init n stub = \<lparr>xq = qsys_init stub, xremaining = of_nat n, xcell = None, xrunners = replicate n XAwait,
     xthreads = [], xawaiter = XRun, xended = (\<lambda>i. None), xdelivered = [], xbad = None\<rparr>"

text \<open>\<open>XCheckBoth\<close> is \<open>maybe_empty\<close> of \<open>await_suspend\<close> with no step of another thread in between.\<close>

datatype 'v xact =
    XEnds nat "'v outcome" | XCall nat "addr option" | XEnq nat bool | XRet nat | XRunner nat
  | XReady | XLooking | XTry | XTryStep | XTryRet
  | XThread nat handle | XCheckHead nat | XCheckLink nat | XCheckBoth nat

definition set_x :: "nat \<Rightarrow> 'v xpc \<Rightarrow> 'v xsys \<Rightarrow> 'v xsys" where
  "set_x i pc s = s\<lparr>xrunners := (xrunners s)[i := pc]\<rparr>"

definition set_xt :: "nat \<Rightarrow> xtpc \<Rightarrow> 'v xsys \<Rightarrow> 'v xsys" where
  "set_xt j pc s = s\<lparr>xthreads := (xthreads s)[j := pc]\<rparr>"

definition via_xq :: "(nat \<times> 'v outcome) qact \<Rightarrow> 'v xsys \<Rightarrow> 'v xsys option" where
  "via_xq a s = (case qstep a (xq s) of None \<Rightarrow> None | Some q \<Rightarrow> Some (s\<lparr>xq := q\<rparr>))"

definition xresume :: "'v xsys \<Rightarrow> 'v xsys" where
  "xresume s = (if xawaiter s = XSusp then s\<lparr>xawaiter := XDequeue\<rparr> else s\<lparr>xbad := Some Unreachable\<rparr>)"

text \<open>The two accesses of \<open>maybe_empty\<close>.\<close>

definition look_head :: "'v xsys \<Rightarrow> (addr \<Rightarrow> 'v xsys) \<Rightarrow> 'v xsys" where
  "look_head s k = (case m_head (que (xq s)) of None \<Rightarrow> s\<lparr>xbad := Some NullDeref\<rparr> | Some h \<Rightarrow> k h)"

definition look_link :: "addr \<Rightarrow> 'v xsys \<Rightarrow> (bool \<Rightarrow> 'v xsys) \<Rightarrow> 'v xsys" where
  "look_link h s k = (case load_next (que (xq s)) h of Inl e \<Rightarrow> s\<lparr>xbad := Some e\<rparr> | Inr nxt \<Rightarrow> k (nxt = None))"

fun xrunner_step :: "nat \<Rightarrow> 'v xpc \<Rightarrow> 'v xsys \<Rightarrow> 'v xsys option" where
  "xrunner_step i XSub s = Some (set_x i XExch (s\<lparr>xremaining := xremaining s - 1\<rparr>))"
| "xrunner_step i XExch s =
     Some (set_x i (case xcell s of None \<Rightarrow> XDone | Some h \<Rightarrow> XResume h) (s\<lparr>xcell := None\<rparr>))"
| "xrunner_step i (XResume h) s = Some (xresume (set_x i XDone s))"
| "xrunner_step i pc s = None"

definition after_check :: "nat \<Rightarrow> 'v xsys \<Rightarrow> bool \<Rightarrow> 'v xsys" where
  "after_check j s no_link = set_xt j (if no_link then XEnd else XSwap) s"

fun xthread_step :: "nat \<Rightarrow> handle \<Rightarrow> xtpc \<Rightarrow> 'v xsys \<Rightarrow> 'v xsys option" where
  "xthread_step j h XPublish s = Some (set_xt j XCheck (s\<lparr>xcell := Some h\<rparr>))"
| "xthread_step j h XSwap s =
     Some (set_xt j (case xcell s of None \<Rightarrow> XEnd | Some x \<Rightarrow> XWake x) (s\<lparr>xcell := None\<rparr>))"
| "xthread_step j h (XWake x) s = Some (xresume (set_xt j XEnd s))"
| "xthread_step j h pc s = None"

text \<open>The steps of a runner, of the awaiter, of a thread in \<open>await_suspend\<close>.\<close>

definition x_runner_act :: "'v xact \<Rightarrow> nat \<Rightarrow> 'v xpc \<Rightarrow> 'v xsys \<Rightarrow> 'v xsys option" where
  "x_runner_act a i pc s = (case a of
     XEnds _ oc \<Rightarrow> if pc = XAwait then Some (set_x i (XQueue oc) (s\<lparr>xended := (xended s)(i := Some oc)\<rparr>)) else None
   | XCall _ alloc \<Rightarrow> (case pc of
       XQueue oc \<Rightarrow> map_option (set_x i (XIn oc)) (via_xq (PCall i (i, oc) alloc) s) | _ \<Rightarrow> None)
   | XEnq _ spurious \<Rightarrow> (case pc of XIn oc \<Rightarrow> via_xq (PStep i spurious) s | _ \<Rightarrow> None)
   | XRet _ \<Rightarrow> (case (pc, prods (xq s) i) of (XIn oc, PRet b) \<Rightarrow> Some (set_x i XSub s) | _ \<Rightarrow> None)
   | XRunner _ \<Rightarrow> xrunner_step i pc s
   | _ \<Rightarrow> None)"

definition x_awaiter_act :: "'v xact \<Rightarrow> xfpc \<Rightarrow> 'v xsys \<Rightarrow> 'v xsys option" where
  "x_awaiter_act a pc s = (case a of
     XReady \<Rightarrow> if pc = XRun then Some (s\<lparr>xawaiter := (if xremaining s = 0 then XDequeue else XLook)\<rparr>) else None
   | XLooking \<Rightarrow> (case pc of
       XLook \<Rightarrow> Some (look_head s (\<lambda>h. s\<lparr>xawaiter := XLookLink h\<rparr>))
     | XLookLink h \<Rightarrow> Some (look_link h s (\<lambda>no_link.
         if no_link then s\<lparr>xawaiter := XSusp, xthreads := xthreads s @ [XPublish]\<rparr> else s\<lparr>xawaiter := XDequeue\<rparr>))
     | _ \<Rightarrow> None)
   | XTry \<Rightarrow> if pc = XDequeue then map_option (\<lambda>t. t\<lparr>xawaiter := XTaking\<rparr>) (via_xq (CTry 0) s) else None
   | XTryStep \<Rightarrow> if pc = XTaking then via_xq (CStep 0) s else None
   | XTryRet \<Rightarrow> (case (pc, conss (xq s) 0) of
       (XTaking, CRet r) \<Rightarrow> Some (s\<lparr>xawaiter := XRun, xdelivered := xdelivered s @ [r]\<rparr>) | _ \<Rightarrow> None)
   | _ \<Rightarrow> None)"

definition x_thread_act :: "'v xact \<Rightarrow> nat \<Rightarrow> xtpc \<Rightarrow> 'v xsys \<Rightarrow> 'v xsys option" where
  "x_thread_act a j pc s = (case a of
     XThread _ h \<Rightarrow> xthread_step j h pc s
   | XCheckHead _ \<Rightarrow> if pc = XCheck then Some (look_head s (\<lambda>h. set_xt j (XLink h) s)) else None
   | XCheckLink _ \<Rightarrow> (case pc of XLink h \<Rightarrow> Some (look_link h s (after_check j s)) | _ \<Rightarrow> None)
   | XCheckBoth _ \<Rightarrow> if pc = XCheck then Some (look_head s (\<lambda>h. look_link h s (after_check j s))) else None
   | _ \<Rightarrow> None)"

fun xact_runner :: "'v xact \<Rightarrow> nat option" where
  "xact_runner (XEnds i oc) = Some i" | "xact_runner (XCall i alloc) = Some i" | "xact_runner (XEnq i sp) = Some i"
| "xact_runner (XRet i) = Some i" | "xact_runner (XRunner i) = Some i" | "xact_runner a = None"

fun xact_thread :: "'v xact \<Rightarrow> nat option" where
  "xact_thread (XThread j h) = Some j" | "xact_thread (XCheckHead j) = Some j" | "xact_thread (XCheckLink j) = Some j"
| "xact_thread (XCheckBoth j) = Some j" | "xact_thread a = None"

definition x_act :: "'v xact \<Rightarrow> 'v xsys \<Rightarrow> 'v xsys option" where
  "x_act a s = (case xact_runner a of
     Some i \<Rightarrow> if i < length (xrunners s) then x_runner_act a i (xrunners s ! i) s else None
   | None \<Rightarrow> (case xact_thread a of
       Some j \<Rightarrow> if j < length (xthreads s) then x_thread_act a j (xthreads s ! j) s else None
     | None \<Rightarrow> x_awaiter_act a (xawaiter s) s))"

definition x_step :: "'v xact \<Rightarrow> 'v xsys \<Rightarrow> 'v xsys option" where
  "x_step a s = (if xbad s \<noteq> None then None else x_act a s)"

section \<open>The invariant\<close>

fun xcalm :: "'v xact \<Rightarrow> bool" where
  "xcalm (XCheckHead j) = False" | "xcalm a = True"

fun x_token :: "'v xpc \<Rightarrow> nat" where
  "x_token (XResume h) = 1" | "x_token pc = 0"

fun xt_token :: "xtpc \<Rightarrow> nat" where
  "xt_token (XWake h) = 1" | "xt_token XPublish = 1" | "xt_token pc = 0"

text \<open>One resumption is owed exactly while the awaiter is suspended.\<close>

definition x_tokens :: "'v xsys \<Rightarrow> nat" where
  "x_tokens s = (if xcell s = None then 0 else 1) + sum_list (map x_token (xrunners s)) + sum_list (map xt_token (xthreads s))"

text \<open>A runner whose result is in the queue and that has still to exchange the cell.\<close>

fun x_waking :: "'v xpc \<Rightarrow> (nat \<times> 'v outcome) ppc \<Rightarrow> bool" where
  "x_waking (XIn oc) p = has_sent p" | "x_waking XSub p = True" | "x_waking XExch p = True" | "x_waking pc p = False"

fun x_looking :: "xtpc \<Rightarrow> bool" where
  "x_looking XCheck = True" | "x_looking XSwap = True" | "x_looking pc = False"

fun runner_ok :: "nat \<Rightarrow> 'v xpc \<Rightarrow> (nat \<times> 'v outcome) ppc \<Rightarrow> 'v outcome option \<Rightarrow> bool \<Rightarrow> bool" where
  "runner_ok i XAwait p e inq = (p_idle p \<and> e = None \<and> \<not> inq)"
| "runner_ok i (XQueue oc) p e inq = (p_idle p \<and> e = Some oc \<and> \<not> inq)"
| "runner_ok i (XIn oc) p e inq = ((carries (i, oc) p \<or> p = PRet False) \<and> e = Some oc \<and> inq = has_sent p)"
| "runner_ok i pc p e inq = p_idle p"

definition x_runners_inv :: "'v xsys \<Rightarrow> bool" where
  "x_runners_inv s \<longleftrightarrow>
     (\<forall>i < length (xrunners s). runner_ok i (xrunners s ! i) (prods (xq s) i) (xended s i) (i \<in> fst ` set (sent (xq s)))) \<and>
     (\<forall>i \<ge> length (xrunners s). prods (xq s) i = PIdle) \<and>
     distinct (map fst (sent (xq s))) \<and> (\<forall>(i, oc) \<in> set (sent (xq s)). i < length (xrunners s) \<and> xended s i = Some oc)"

fun awaiter_ok :: "xfpc \<Rightarrow> (nat \<times> 'v outcome) cpc \<Rightarrow> (nat \<times> 'v outcome) queue \<Rightarrow> bool" where
  "awaiter_ok XTaking c q = True" | "awaiter_ok (XLookLink h) c q = (c_idle c \<and> m_head q = Some h)"
| "awaiter_ok pc c q = c_idle c"

text \<open>The value the awaiter has taken out and not yet returned.\<close>

fun x_taken :: "xfpc \<Rightarrow> 'a cpc \<Rightarrow> 'a list" where
  "x_taken XTaking (CRet (Some v)) = [v]" | "x_taken pc c = []"

definition x_queue_inv :: "addr \<Rightarrow> 'v xsys \<Rightarrow> bool" where
  "x_queue_inv stub s \<longleftrightarrow> reachable qstep (qsys_init stub) (xq s) \<and> m_tail (que (xq s)) \<noteq> None \<and>
     (\<forall>c. c \<noteq> 0 \<longrightarrow> conss (xq s) c = CIdle) \<and> awaiter_ok (xawaiter s) (conss (xq s) 0) (que (xq s)) \<and>
     recvd (xq s) = somes (xdelivered s) @ x_taken (xawaiter s) (conss (xq s) 0)"

definition x_wake_inv :: "'v xsys \<Rightarrow> bool" where
  "x_wake_inv s \<longleftrightarrow> xbad s = None \<and> x_tokens s = (if xawaiter s = XSusp then 1 else 0) \<and>
     (\<forall>h. XLink h \<notin> set (xthreads s)) \<and>
     (xcell s \<noteq> None \<and> sent (xq s) \<noteq> recvd (xq s) \<longrightarrow>
        (\<exists>i < length (xrunners s). x_waking (xrunners s ! i) (prods (xq s) i)) \<or> (\<exists>t \<in> set (xthreads s). x_looking t))"

definition x_inv :: "addr \<Rightarrow> 'v xsys \<Rightarrow> bool" where
  "x_inv stub s \<longleftrightarrow> x_runners_inv s \<and> x_queue_inv stub s \<and> x_wake_inv s"

declare sum_list_eq_0_iff [simp del]

lemma x_fields [simp]:
  "xcell (set_x i pc s) = xcell s" "xq (set_x i pc s) = xq s" "xthreads (set_x i pc s) = xthreads s"
  "xawaiter (set_x i pc s) = xawaiter s" "xdelivered (set_x i pc s) = xdelivered s" "xended (set_x i pc s) = xended s"
  "xbad (set_x i pc s) = xbad s" "xrunners (set_x i pc s) = (xrunners s)[i := pc]" "xremaining (set_x i pc s) = xremaining s"
  "xcell (set_xt i t s) = xcell s" "xq (set_xt i t s) = xq s" "xthreads (set_xt i t s) = (xthreads s)[i := t]"
  "xawaiter (set_xt i t s) = xawaiter s" "xdelivered (set_xt i t s) = xdelivered s" "xended (set_xt i t s) = xended s"
  "xbad (set_xt i t s) = xbad s" "xrunners (set_xt i t s) = xrunners s" "xremaining (set_xt i t s) = xremaining s"
  by (simp_all add: set_x_def set_xt_def)

lemma via_xq_Some: "via_xq a s = Some s' \<longleftrightarrow> (\<exists>q. qstep a (xq s) = Some q \<and> s' = s\<lparr>xq := q\<rparr>)"
  by (auto simp: via_xq_def split: option.splits)

lemma x_inv_init: "x_inv stub (xsys_init n stub)"
proof -
  have "sum_list (map x_token (replicate n XAwait)) = 0" by (rule sum_map_zero) simp
  then show ?thesis
    by (auto simp: x_inv_def x_runners_inv_def x_queue_inv_def x_wake_inv_def xsys_init_def qsys_init_def x_tokens_def
      p_idle_def c_idle_def somes_def map_filter_def new_queue_def)
qed

section \<open>The steps of a runner\<close>

lemma x_runners_update:
  assumes inv: "x_runners_inv s" and i: "i < length (xrunners s)" and xr: "xrunners s' = (xrunners s)[i := pc]"
    and p: "\<And>j. j \<noteq> i \<Longrightarrow> prods (xq s') j = prods (xq s) j" and e: "\<And>j. j \<noteq> i \<Longrightarrow> xended s' j = xended s j"
    and snt: "sent (xq s') = sent (xq s) @ xs"
    and xs: "xs = [] \<or> (\<exists>oc. xs = [(i, oc)] \<and> xended s' i = Some oc \<and> i \<notin> fst ` set (sent (xq s)))"
    and old: "i \<in> fst ` set (sent (xq s)) \<Longrightarrow> xended s' i = xended s i"
    and ok: "runner_ok i pc (prods (xq s') i) (xended s' i) (i \<in> fst ` set (sent (xq s')))"
  shows "x_runners_inv s'"
proof -
  have I: "\<And>j. j < length (xrunners s) \<Longrightarrow>
      runner_ok j (xrunners s ! j) (prods (xq s) j) (xended s j) (j \<in> fst ` set (sent (xq s)))"
    "\<And>j. length (xrunners s) \<le> j \<Longrightarrow> prods (xq s) j = PIdle" "distinct (map fst (sent (xq s)))"
    "\<And>j oc. (j, oc) \<in> set (sent (xq s)) \<Longrightarrow> j < length (xrunners s) \<and> xended s j = Some oc"
    using inv unfolding x_runners_inv_def by blast+
  have fs: "j \<in> fst ` set (sent (xq s')) \<longleftrightarrow> j \<in> fst ` set (sent (xq s))" if "j \<noteq> i" for j
    using snt xs that by auto
  have "runner_ok j (xrunners s' ! j) (prods (xq s') j) (xended s' j) (j \<in> fst ` set (sent (xq s')))"
    if j: "j < length (xrunners s')" for j
  proof (cases "j = i")
    case True
    with ok i xr show ?thesis by simp
  next
    case False
    with I(1) [of j] p [OF False] e [OF False] fs [OF False] j xr show ?thesis by simp
  qed
  moreover have "prods (xq s') j = PIdle" if "length (xrunners s') \<le> j" for j
    using that p [of j] I(2) [of j] xr i by (cases "j = i") simp_all
  moreover have "distinct (map fst (sent (xq s')))" using I(3) snt xs by (elim disjE exE conjE) simp_all
  moreover have "j < length (xrunners s') \<and> xended s' j = Some oc" if "(j, oc) \<in> set (sent (xq s'))" for j oc
  proof (cases "(j, oc) \<in> set (sent (xq s))")
    case True
    with I(4) have "j < length (xrunners s)" "xended s j = Some oc" by blast+
    moreover have "j \<in> fst ` set (sent (xq s))" using True by force
    ultimately show ?thesis using old e [of j] xr by (cases "j = i") simp_all
  next
    case False
    with that snt xs i xr show ?thesis by auto
  qed
  ultimately show ?thesis unfolding x_runners_inv_def by blast
qed

lemma x_runners_cong:
  "x_runners_inv s \<Longrightarrow> xrunners s' = xrunners s \<Longrightarrow> prods (xq s') = prods (xq s) \<Longrightarrow> sent (xq s') = sent (xq s) \<Longrightarrow>
   xended s' = xended s \<Longrightarrow> x_runners_inv s'"
  by (simp add: x_runners_inv_def)

lemma x_runners_at:
  "x_runners_inv s \<Longrightarrow> i < length (xrunners s) \<Longrightarrow>
   runner_ok i (xrunners s ! i) (prods (xq s) i) (xended s i) (i \<in> fst ` set (sent (xq s)))"
  by (simp add: x_runners_inv_def)

text \<open>Steps that leave the consumer's side of the queue alone.\<close>

lemma x_queue_cong:
  "x_queue_inv stub s \<Longrightarrow> reachable qstep (qsys_init stub) (xq s') \<Longrightarrow> m_tail (que (xq s')) \<noteq> None \<Longrightarrow>
   m_head (que (xq s')) = m_head (que (xq s)) \<Longrightarrow> conss (xq s') = conss (xq s) \<Longrightarrow> recvd (xq s') = recvd (xq s) \<Longrightarrow>
   xawaiter s' = xawaiter s \<Longrightarrow> xdelivered s' = xdelivered s \<Longrightarrow> x_queue_inv stub s'"
  by (cases "xawaiter s") (simp_all add: x_queue_inv_def)

lemma x_queue_same:
  "x_queue_inv stub s \<Longrightarrow> xq s' = xq s \<Longrightarrow> xawaiter s' = xawaiter s \<Longrightarrow> xdelivered s' = xdelivered s \<Longrightarrow> x_queue_inv stub s'"
  by (simp add: x_queue_inv_def)

definition x_woken :: "'v xsys \<Rightarrow> bool" where
  "x_woken s \<longleftrightarrow> (\<exists>i < length (xrunners s). x_waking (xrunners s ! i) (prods (xq s) i)) \<or> (\<exists>t \<in> set (xthreads s). x_looking t)"

lemma x_wake_inv_alt:
  "x_wake_inv s \<longleftrightarrow> xbad s = None \<and> x_tokens s = (if xawaiter s = XSusp then 1 else 0) \<and>
     (\<forall>h. XLink h \<notin> set (xthreads s)) \<and> (xcell s \<noteq> None \<and> sent (xq s) \<noteq> recvd (xq s) \<longrightarrow> x_woken s)"
  unfolding x_wake_inv_def x_woken_def ..

lemma x_woken_runner:
  assumes "x_woken s" and "i < length (xrunners s)" and "xrunners s' = (xrunners s)[i := pc]" and "xthreads s' = xthreads s"
    and "\<And>j. j \<noteq> i \<Longrightarrow> prods (xq s') j = prods (xq s) j"
    and "x_waking (xrunners s ! i) (prods (xq s) i) \<Longrightarrow> x_waking pc (prods (xq s') i)"
  shows "x_woken s'"
proof -
  consider t where "t \<in> set (xthreads s)" "x_looking t"
    | j where "j < length (xrunners s)" "x_waking (xrunners s ! j) (prods (xq s) j)"
    using assms(1) unfolding x_woken_def by blast
  then show ?thesis
  proof cases
    case 1
    with assms(4) show ?thesis unfolding x_woken_def by auto
  next
    case (2 j)
    then have "x_waking (xrunners s' ! j) (prods (xq s') j)" using assms(2,3,5,6) by (cases "j = i") simp_all
    with 2(1) assms(3) show ?thesis unfolding x_woken_def by auto
  qed
qed

lemma x_woken_self:
  "i < length (xrunners s) \<Longrightarrow> xrunners s' = (xrunners s)[i := pc] \<Longrightarrow> x_waking pc (prods (xq s') i) \<Longrightarrow> x_woken s'"
  unfolding x_woken_def by (intro disjI1 exI [of _ i]) simp

lemma xq_token_update:
  "i < length xs \<Longrightarrow> sum_list (map x_token (xs[i := x])) + x_token (xs ! i) = sum_list (map x_token xs) + x_token x"
  by (rule sum_map_update)

lemma xt_token_update:
  "i < length xs \<Longrightarrow> sum_list (map xt_token (xs[i := x])) + xt_token (xs ! i) = sum_list (map xt_token xs) + xt_token x"
  by (rule sum_map_update)

lemma x_tokens_runner:
  "i < length (xrunners s) \<Longrightarrow> xrunners s' = (xrunners s)[i := pc] \<Longrightarrow> xcell s' = xcell s \<Longrightarrow> xthreads s' = xthreads s \<Longrightarrow>
   x_token pc = x_token (xrunners s ! i) \<Longrightarrow> x_tokens s' = x_tokens s"
  using xq_token_update [of i "xrunners s" pc] by (simp add: x_tokens_def)

text \<open>A resumption meets the suspended awaiter.\<close>

lemma x_resume_owed:
  assumes "x_tokens s = (if xawaiter s = XSusp then 1 else 0)"
    and "0 < sum_list (map x_token (xrunners s)) \<or> 0 < sum_list (map xt_token (xthreads s))"
  shows "xawaiter s = XSusp" and "xcell s = None"
  using assms by (auto simp: x_tokens_def split: if_splits)

lemma x_runner_step_inv:
  assumes inv: "x_inv stub s" and i: "i < length (xrunners s)" and st: "xrunner_step i (xrunners s ! i) s = Some s'"
  shows "x_inv stub s'"
proof -
  have R: "x_runners_inv s" and Q: "x_queue_inv stub s" and W: "x_wake_inv s" using inv by (simp_all add: x_inv_def)
  note ok = x_runners_at [OF R i]
  have W': "xbad s = None" "x_tokens s = (if xawaiter s = XSusp then 1 else 0)" "\<forall>h. XLink h \<notin> set (xthreads s)"
    "xcell s \<noteq> None \<and> sent (xq s) \<noteq> recvd (xq s) \<longrightarrow> x_woken s" using W by (simp_all add: x_wake_inv_alt)
  show ?thesis
  proof (cases "xrunners s ! i")
    case XSub
    with st have s': "s' = set_x i XExch (s\<lparr>xremaining := xremaining s - 1\<rparr>)" by simp
    have "x_runners_inv s'" by (rule x_runners_update [OF R i, of _ XExch "[]"]) (use ok XSub in \<open>simp_all add: s'\<close>)
    moreover have "x_queue_inv stub s'" by (rule x_queue_same [OF Q]) (simp_all add: s')
    moreover have "x_tokens s' = x_tokens s" by (rule x_tokens_runner [OF i, of _ XExch]) (simp_all add: s' XSub)
    moreover have "x_woken s'" by (rule x_woken_self [OF i, of _ XExch]) (simp_all add: s')
    ultimately show ?thesis using W' by (simp add: x_inv_def x_wake_inv_alt s')
  next
    case XExch
    let ?pc = "case xcell s of None \<Rightarrow> XDone | Some h \<Rightarrow> XResume h"
    from XExch st have s': "s' = set_x i ?pc (s\<lparr>xcell := None\<rparr>)" by simp
    have "x_runners_inv s'"
      by (rule x_runners_update [OF R i, of _ ?pc "[]"]) (use ok XExch in \<open>simp_all add: s' split: option.splits\<close>)
    moreover have "x_queue_inv stub s'" by (rule x_queue_same [OF Q]) (simp_all add: s')
    moreover have "x_tokens s' = x_tokens s"
      using xq_token_update [OF i, of ?pc] XExch by (cases "xcell s") (simp_all add: s' x_tokens_def)
    ultimately show ?thesis using W' by (simp add: x_inv_def x_wake_inv_alt s')
  next
    case (XResume h)
    have "0 < sum_list (map x_token (xrunners s))" using nth_le_sum_map [OF i, of x_token] XResume by simp
    then have r: "xawaiter s = XSusp" "xcell s = None" using x_resume_owed [OF W'(2)] by simp_all
    with XResume st have s': "s' = (set_x i XDone s)\<lparr>xawaiter := XDequeue\<rparr>" by (simp add: xresume_def)
    have "x_runners_inv s'" by (rule x_runners_update [OF R i, of _ XDone "[]"]) (use ok XResume in \<open>simp_all add: s'\<close>)
    moreover have "x_queue_inv stub s'" using Q r by (simp add: s' x_queue_inv_def)
    moreover have "x_tokens s' = 0"
      using xq_token_update [OF i, of XDone] XResume W'(2) r by (simp add: s' x_tokens_def)
    ultimately show ?thesis using W' r by (simp add: x_inv_def x_wake_inv_alt s')
  qed (use st in simp_all)
qed

lemma x_queue_reach:
  assumes "x_queue_inv stub s" and "qstep b (xq s) = Some q"
  shows "reachable qstep (qsys_init stub) q" and "bad q = None"
proof -
  show r: "reachable qstep (qsys_init stub) q" using assms by (auto simp: x_queue_inv_def intro: reachable_step)
  then show "bad q = None" by (rule not_bad)
qed

lemma x_enq_inv:
  assumes inv: "x_inv stub s" and i: "i < length (xrunners s)" and pc: "xrunners s ! i = XIn oc"
    and q: "qstep (PStep i sp) (xq s) = Some q"
  shows "x_inv stub (s\<lparr>xq := q\<rparr>)"
proof -
  let ?s = "s\<lparr>xq := q\<rparr>"
  have R: "x_runners_inv s" and Q: "x_queue_inv stub s" and W: "x_wake_inv s" using inv by (simp_all add: x_inv_def)
  note B = x_queue_reach [OF Q q]
  have e: "enqueue_step i sp (xq s) (prods (xq s) i) = Some q" using q by (simp add: qstep_def split: if_splits)
  then have "prods (xq s) i \<noteq> PRet False" by auto
  with x_runners_at [OF R i] pc have c: "carries (i, oc) (prods (xq s) i)" "xended s i = Some oc"
    "i \<in> fst ` set (sent (xq s)) \<longleftrightarrow> has_sent (prods (xq s) i)" by simp_all
  have t: "m_tail (que (xq s)) \<noteq> None" using Q by (simp add: x_queue_inv_def)
  note E = enqueue_step_effect [OF e B(2) t c(1)] and F = enqueue_step_frame [OF e]
  have sm: "xrunners ?s = (xrunners s)[i := XIn oc]" using list_update_id [of "xrunners s" i] pc by simp
  have "x_queue_inv stub ?s" by (rule x_queue_cong [OF Q]) (use B E F in simp_all)
  moreover have "x_tokens ?s = x_tokens s" by (simp add: x_tokens_def)
  moreover have "x_runners_inv ?s \<and> (sent q = sent (xq s) \<and> has_sent (prods q i) = has_sent (prods (xq s) i) \<or> x_woken ?s)"
  proof (cases "has_sent (prods q i) = has_sent (prods (xq s) i)")
    case True
    with E have s: "sent q = sent (xq s)" by auto
    have "x_runners_inv ?s"
      by (rule x_runners_update [OF R i sm, of "[]"]) (use E c s True in simp_all)
    with True s show ?thesis by simp
  next
    case False
    with E have s: "sent q = sent (xq s) @ [(i, oc)]" "\<not> has_sent (prods (xq s) i)" "has_sent (prods q i)" by auto
    have "x_runners_inv ?s"
      by (rule x_runners_update [OF R i sm, of "[(i, oc)]"]) (use E c s in simp_all)
    moreover have "x_woken ?s" by (rule x_woken_self [OF i sm]) (use s in simp)
    ultimately show ?thesis by simp
  qed
  moreover have "x_woken ?s" if "x_woken s" "has_sent (prods q i) = has_sent (prods (xq s) i)"
    by (rule x_woken_runner [OF that(1) i sm]) (use E pc that in simp_all)
  ultimately show ?thesis using W E by (auto simp: x_inv_def x_wake_inv_alt)
qed

lemma x_runner_act_inv:
  assumes inv: "x_inv stub s" and i: "i < length (xrunners s)" and st: "x_runner_act a i (xrunners s ! i) s = Some s'"
  shows "x_inv stub s'"
proof -
  have R: "x_runners_inv s" and Q: "x_queue_inv stub s" and W: "x_wake_inv s" using inv by (simp_all add: x_inv_def)
  note ok = x_runners_at [OF R i]
  have W': "xbad s = None" "x_tokens s = (if xawaiter s = XSusp then 1 else 0)" "\<forall>h. XLink h \<notin> set (xthreads s)"
    "xcell s \<noteq> None \<and> sent (xq s) \<noteq> recvd (xq s) \<longrightarrow> x_woken s" using W by (simp_all add: x_wake_inv_alt)
  show ?thesis
  proof (cases a)
    case (XEnds k oc)
    with st have pc: "xrunners s ! i = XAwait" and s': "s' = set_x i (XQueue oc) (s\<lparr>xended := (xended s)(i := Some oc)\<rparr>)"
      by (simp_all add: x_runner_act_def split: if_splits)
    have "x_runners_inv s'" by (rule x_runners_update [OF R i, of _ "XQueue oc" "[]"]) (use ok pc in \<open>simp_all add: s'\<close>)
    moreover have "x_queue_inv stub s'" by (rule x_queue_same [OF Q]) (simp_all add: s')
    moreover have "x_tokens s' = x_tokens s" by (rule x_tokens_runner [OF i, of _ "XQueue oc"]) (simp_all add: s' pc)
    moreover have "x_woken s \<Longrightarrow> x_woken s'"
      by (rule x_woken_runner [OF _ i, of _ "XQueue oc"]) (simp_all add: s' pc)
    ultimately show ?thesis using W' by (simp add: x_inv_def x_wake_inv_alt s')
  next
    case (XCall k alloc)
    with st obtain oc q where pc: "xrunners s ! i = XQueue oc" and q: "qstep (PCall i (i, oc) alloc) (xq s) = Some q"
      and s': "s' = set_x i (XIn oc) (s\<lparr>xq := q\<rparr>)"
      by (auto simp: x_runner_act_def via_xq_Some split: xpc.splits)
    note B = x_queue_reach [OF Q q]
    have E: "sent q = sent (xq s)" "recvd q = recvd (xq s)" "conss q = conss (xq s)"
      "\<And>j. j \<noteq> i \<Longrightarrow> prods q j = prods (xq s) j" "m_head (que q) = m_head (que (xq s))" "m_tail (que q) = m_tail (que (xq s))"
      "(carries (i, oc) (prods q i) \<or> prods q i = PRet False) \<and> \<not> has_sent (prods q i)"
      using q by (auto simp: qstep_def alloc_node_def split: if_splits option.splits)
    have "x_runners_inv s'" by (rule x_runners_update [OF R i, of _ "XIn oc" "[]"]) (use ok pc E in \<open>simp_all add: s'\<close>)
    moreover have "x_queue_inv stub s'" by (rule x_queue_cong [OF Q]) (use B E Q in \<open>simp_all add: s' x_queue_inv_def\<close>)
    moreover have "x_tokens s' = x_tokens s" by (rule x_tokens_runner [OF i, of _ "XIn oc"]) (simp_all add: s' pc)
    moreover have "x_woken s \<Longrightarrow> x_woken s'"
      by (rule x_woken_runner [OF _ i, of _ "XIn oc"]) (simp_all add: s' pc E)
    ultimately show ?thesis using W' E by (simp add: x_inv_def x_wake_inv_alt s')
  next
    case (XEnq k sp)
    with st obtain oc q where "xrunners s ! i = XIn oc" "qstep (PStep i sp) (xq s) = Some q" "s' = s\<lparr>xq := q\<rparr>"
      by (auto simp: x_runner_act_def via_xq_Some split: xpc.splits)
    with x_enq_inv [OF inv i] show ?thesis by simp
  next
    case (XRet k)
    with st obtain oc b where pc: "xrunners s ! i = XIn oc" "prods (xq s) i = PRet b" and s': "s' = set_x i XSub s"
      by (auto simp: x_runner_act_def split: xpc.splits ppc.splits)
    have "x_runners_inv s'"
      by (rule x_runners_update [OF R i, of _ XSub "[]"]) (use ok pc in \<open>auto simp add: s' p_idle_def\<close>)
    moreover have "x_queue_inv stub s'" by (rule x_queue_same [OF Q]) (simp_all add: s')
    moreover have "x_tokens s' = x_tokens s" by (rule x_tokens_runner [OF i, of _ XSub]) (simp_all add: s' pc)
    moreover have "x_woken s'" by (rule x_woken_self [OF i, of _ XSub]) (simp_all add: s')
    ultimately show ?thesis using W' by (simp add: x_inv_def x_wake_inv_alt s')
  next
    case (XRunner k)
    with st have "xrunner_step i (xrunners s ! i) s = Some s'" by (simp add: x_runner_act_def)
    then show ?thesis by (rule x_runner_step_inv [OF inv i])
  qed (use st in \<open>simp_all add: x_runner_act_def\<close>)
qed

section \<open>The steps of a thread in \<open>await_suspend\<close>\<close>

text \<open>
  The look at the queue while the awaiter is suspended: a missing link with something in the queue
  is an insertion in flight, whose runner has still to exchange the cell.
\<close>

lemma x_missed_insertion:
  assumes R: "x_runners_inv s" and Q: "x_queue_inv stub s" and a: "xawaiter s = XSusp"
    and h: "m_head (que (xq s)) = Some h" and n: "load_next (que (xq s)) h = Inr None"
    and ne: "sent (xq s) \<noteq> recvd (xq s)"
  shows "\<exists>i < length (xrunners s). x_waking (xrunners s ! i) (prods (xq s) i)"
proof -
  have r: "reachable qstep (qsys_init stub) (xq s)" using Q by (simp add: x_queue_inv_def)
  obtain ch where inv: "qinv_at (xq s) ch" using qmachine.reachable_inv [OF r] by (auto simp: qinv_def)
  note D = qinv_atD [OF inv]
  have ci: "c_idle (conss (xq s) c)" for c using Q a by (cases "c = 0") (auto simp: x_queue_inv_def c_idle_def)
  have "\<not> critical (conss (xq s) c)" for c
    using ci [of c] by (cases "conss (xq s) c") (simp_all add: c_idle_def)
  then have "owner (xq s) = None" using qinv_atD(9) [OF inv] by (metis option.exhaust)
  then have hd: "holder (xq s) = CIdle" by (simp add: holder_def)
  obtain pend where pend: "sent (xq s) = recvd (xq s) @ pend" using recvd_prefix [OF r] by blast
  with ne obtain v ps where "pend = v # ps" by (cases pend) auto
  with pend have snt: "sent (xq s) = recvd (xq s) @ v # ps" by simp
  have "nx (mem (que (xq s))) (hd ch) = None" using n h D(4) qinv_at_load_next [OF inv] by simp
  with linked_second [OF inv _ _ snt] hd have "\<exists>i. link_of (prods (xq s) i) \<noteq> None" by fastforce
  then obtain i where "link_of (prods (xq s) i) \<noteq> None" by blast
  then obtain t m where l: "prods (xq s) i = PLink t m" by (cases "prods (xq s) i") auto
  have i: "i < length (xrunners s)"
  proof (rule ccontr)
    assume "\<not> i < length (xrunners s)"
    with R l show False by (simp add: x_runners_inv_def)
  qed
  from x_runners_at [OF R i] l have "\<exists>oc. xrunners s ! i = XIn oc"
    by (cases "xrunners s ! i") (auto simp: p_idle_def)
  with i l show ?thesis by auto
qed

lemma x_woken_thread:
  assumes "x_woken s" and "j < length (xthreads s)" and "xthreads s' = (xthreads s)[j := t]" and "xrunners s' = xrunners s"
    and "xq s' = xq s" and "x_looking (xthreads s ! j) \<Longrightarrow> x_looking t"
  shows "x_woken s'"
  using assms bex_set_update [of "xthreads s" x_looking j t] unfolding x_woken_def by metis

lemma x_tokens_thread:
  "j < length (xthreads s) \<Longrightarrow> xthreads s' = (xthreads s)[j := t] \<Longrightarrow> xcell s' = xcell s \<Longrightarrow> xrunners s' = xrunners s \<Longrightarrow>
   xt_token t = xt_token (xthreads s ! j) \<Longrightarrow> x_tokens s' = x_tokens s"
  using xt_token_update [of j "xthreads s" t] by (simp add: x_tokens_def)

lemma no_link_update: "\<forall>h. XLink h \<notin> set ts \<Longrightarrow> \<forall>h. t \<noteq> XLink h \<Longrightarrow> \<forall>h. XLink h \<notin> set (ts[j := t])"
  using set_update_subset_insert [of ts j t] by blast

lemma x_look:
  assumes "x_queue_inv stub s"
  obtains h nxt where "m_head (que (xq s)) = Some h" and "load_next (que (xq s)) h = Inr nxt"
proof -
  obtain ch where inv: "qinv_at (xq s) ch"
    using assms qmachine.reachable_inv unfolding x_queue_inv_def qinv_def by blast
  from that [of "hd ch"] qinv_atD(4) [OF inv] qinv_at_load_next [OF inv] show thesis by simp
qed

lemma x_thread_inv:
  assumes inv: "x_inv stub s" and j: "j < length (xthreads s)" and ok: "xcalm a"
    and st: "x_thread_act a j (xthreads s ! j) s = Some s'"
  shows "x_inv stub s'"
proof -
  have R: "x_runners_inv s" and Q: "x_queue_inv stub s" and W: "x_wake_inv s" using inv by (simp_all add: x_inv_def)
  have W': "xbad s = None" "x_tokens s = (if xawaiter s = XSusp then 1 else 0)" "\<forall>h. XLink h \<notin> set (xthreads s)"
    "xcell s \<noteq> None \<and> sent (xq s) \<noteq> recvd (xq s) \<longrightarrow> x_woken s" using W by (simp_all add: x_wake_inv_alt)
  have RQ: "x_runners_inv s' \<and> x_queue_inv stub s'"
    if "xrunners s' = xrunners s" "xq s' = xq s" "xended s' = xended s" "xawaiter s' = xawaiter s" "xdelivered s' = xdelivered s"
    using x_runners_cong [OF R] x_queue_same [OF Q] that by simp
  have tok: "xt_token (xthreads s ! j) \<le> sum_list (map xt_token (xthreads s))" by (rule nth_le_sum_map [OF j])
  show ?thesis
  proof (cases a)
    case (XThread k h)
    with st have t: "xthread_step j h (xthreads s ! j) s = Some s'" by (simp add: x_thread_act_def)
    show ?thesis
    proof (cases "xthreads s ! j")
      case XPublish
      with t have s': "s' = set_xt j XCheck (s\<lparr>xcell := Some h\<rparr>)" by simp
      have "0 < sum_list (map xt_token (xthreads s))" using tok XPublish by simp
      then have "xawaiter s = XSusp" "xcell s = None" using x_resume_owed [OF W'(2)] by simp_all
      then have "x_tokens s' = x_tokens s"
        using xt_token_update [OF j, of XCheck] XPublish by (simp add: s' x_tokens_def)
      moreover have "x_woken s'" unfolding x_woken_def s' using bex_set_updateI [OF j, of x_looking XCheck] by simp
      ultimately show ?thesis using W' RQ no_link_update [OF W'(3), of XCheck j] by (simp add: x_inv_def x_wake_inv_alt s')
    next
      case XSwap
      let ?t = "case xcell s of None \<Rightarrow> XEnd | Some x \<Rightarrow> XWake x"
      from XSwap t have s': "s' = set_xt j ?t (s\<lparr>xcell := None\<rparr>)" by simp
      have "x_tokens s' = x_tokens s"
        using xt_token_update [OF j, of ?t] XSwap by (cases "xcell s") (simp_all add: s' x_tokens_def)
      moreover have "\<forall>h. XLink h \<notin> set ((xthreads s)[j := ?t])"
        by (rule no_link_update [OF W'(3)]) (simp split: option.split)
      ultimately show ?thesis using W' RQ by (simp add: x_inv_def x_wake_inv_alt s')
    next
      case (XWake x)
      have "0 < sum_list (map xt_token (xthreads s))" using tok XWake by simp
      then have r: "xawaiter s = XSusp" "xcell s = None" using x_resume_owed [OF W'(2)] by simp_all
      with XWake t have s': "s' = (set_xt j XEnd s)\<lparr>xawaiter := XDequeue\<rparr>" by (simp add: xresume_def)
      have "x_runners_inv s'" by (rule x_runners_cong [OF R]) (simp_all add: s')
      moreover have "x_queue_inv stub s'" using Q r by (simp add: s' x_queue_inv_def)
      moreover have "x_tokens s' = 0"
        using xt_token_update [OF j, of XEnd] XWake W'(2) r by (simp add: s' x_tokens_def)
      ultimately show ?thesis using W' r no_link_update [OF W'(3), of XEnd j] by (simp add: x_inv_def x_wake_inv_alt s')
    qed (use t in simp_all)
  next
    case (XCheckBoth k)
    with st have pc: "xthreads s ! j = XCheck" and s0: "s' = look_head s (\<lambda>h. look_link h s (after_check j s))"
      by (simp_all add: x_thread_act_def split: if_splits)
    obtain h nxt where h: "m_head (que (xq s)) = Some h" "load_next (que (xq s)) h = Inr nxt" using x_look [OF Q] .
    let ?t = "if nxt = None then XEnd else XSwap"
    have s': "s' = set_xt j ?t s" using s0 h by (simp add: look_head_def look_link_def after_check_def)
    have "x_tokens s' = x_tokens s" by (rule x_tokens_thread [OF j, of _ ?t]) (simp_all add: s' pc)
    moreover have "xcell s \<noteq> None \<and> sent (xq s) \<noteq> recvd (xq s) \<longrightarrow> x_woken s'"
    proof (intro impI)
      assume c: "xcell s \<noteq> None \<and> sent (xq s) \<noteq> recvd (xq s)"
      show "x_woken s'"
      proof (cases "nxt = None")
        case True
        have "xawaiter s = XSusp" using c W'(2) by (auto simp: x_tokens_def split: if_splits)
        with x_missed_insertion [OF R Q _ h(1)] h(2) True c show ?thesis by (auto simp: x_woken_def s')
      next
        case False
        then have "s' = set_xt j XSwap s" by (auto simp: s')
        then show ?thesis using bex_set_updateI [OF j, of x_looking XSwap] by (simp add: x_woken_def)
      qed
    qed
    moreover have "\<forall>h. XLink h \<notin> set ((xthreads s)[j := ?t])" by (rule no_link_update [OF W'(3)]) simp
    ultimately show ?thesis using W' RQ by (simp add: x_inv_def x_wake_inv_alt s')
  next
    case (XCheckLink k)
    with st obtain h where "xthreads s ! j = XLink h" by (auto simp: x_thread_act_def split: xtpc.splits)
    with j W'(3) show ?thesis by (metis nth_mem)
  qed (use st ok in \<open>simp_all add: x_thread_act_def\<close>)
qed

section \<open>The steps of the awaiter\<close>

lemma somes_append: "somes (xs @ [r]) = somes xs @ (case r of None \<Rightarrow> [] | Some v \<Rightarrow> [v])"
  by (cases r) (simp_all add: somes_def map_filter_def)

lemma x_taken_none: "(\<forall>v. c \<noteq> CRet (Some v)) \<Longrightarrow> x_taken a c = []"
  by (cases "(a, c)" rule: x_taken.cases) auto

lemma x_wake_awake:
  "xbad s = None \<Longrightarrow> x_tokens s = 0 \<Longrightarrow> \<forall>h. XLink h \<notin> set (xthreads s) \<Longrightarrow> xawaiter s \<noteq> XSusp \<Longrightarrow> x_wake_inv s"
  by (auto simp: x_wake_inv_alt x_tokens_def split: if_splits)

lemma x_try_step_inv:
  assumes inv: "x_inv stub s" and a: "xawaiter s = XTaking" and q: "qstep (CStep 0) (xq s) = Some q"
  shows "x_inv stub (s\<lparr>xq := q\<rparr>)"
proof -
  have R: "x_runners_inv s" and Q: "x_queue_inv stub s" and W: "x_wake_inv s" using inv by (simp_all add: x_inv_def)
  note B = x_queue_reach [OF Q q]
  have e: "consumer_step 0 (xq s) = Some q" using q by (simp add: qstep_def split: if_splits)
  note E = consumer_step_effect [OF e B(2)]
  have nr: "\<forall>v. conss (xq s) 0 \<noteq> CRet (Some v)" using E by (auto simp: c_idle_def)
  have "recvd q = somes (xdelivered s) @ x_taken XTaking (conss q 0)"
    using Q E a x_taken_none [OF nr] x_taken_none [of "conss q 0" XTaking] by (auto simp: x_queue_inv_def)
  with Q E B a have "x_queue_inv stub (s\<lparr>xq := q\<rparr>)" by (simp add: x_queue_inv_def)
  moreover have "x_runners_inv (s\<lparr>xq := q\<rparr>)" by (rule x_runners_cong [OF R]) (use E in simp_all)
  moreover have "x_wake_inv (s\<lparr>xq := q\<rparr>)"
    by (rule x_wake_awake) (use W a in \<open>simp_all add: x_wake_inv_def x_tokens_def\<close>)
  ultimately show ?thesis by (simp add: x_inv_def)
qed

lemma x_awaiter_inv:
  assumes inv: "x_inv stub s" and st: "x_awaiter_act a (xawaiter s) s = Some s'"
  shows "x_inv stub s'"
proof -
  have R: "x_runners_inv s" and Q: "x_queue_inv stub s" and W: "x_wake_inv s" using inv by (simp_all add: x_inv_def)
  have W': "xbad s = None" "x_tokens s = (if xawaiter s = XSusp then 1 else 0)" "\<forall>h. XLink h \<notin> set (xthreads s)"
    using W by (simp_all add: x_wake_inv_alt)
  obtain h nxt where h: "m_head (que (xq s)) = Some h" "load_next (que (xq s)) h = Inr nxt" using x_look [OF Q] .
  show ?thesis
  proof (cases a)
    case XReady
    with st have a: "xawaiter s = XRun" and s': "s' = s\<lparr>xawaiter := (if xremaining s = 0 then XDequeue else XLook)\<rparr>"
      by (simp_all add: x_awaiter_act_def split: if_splits)
    have "x_runners_inv s'" by (rule x_runners_cong [OF R]) (simp_all add: s')
    moreover have "x_queue_inv stub s'" using Q a by (simp add: s' x_queue_inv_def)
    moreover have "x_wake_inv s'" by (rule x_wake_awake) (use W' a in \<open>simp_all add: s' x_tokens_def\<close>)
    ultimately show ?thesis by (simp add: x_inv_def)
  next
    case XLooking
    show ?thesis
    proof (cases "xawaiter s")
      case XLook
      with XLooking st h have s': "s' = s\<lparr>xawaiter := XLookLink h\<rparr>" by (simp add: x_awaiter_act_def look_head_def)
      have "x_runners_inv s'" by (rule x_runners_cong [OF R]) (simp_all add: s')
      moreover have "x_queue_inv stub s'" using Q XLook h by (simp add: s' x_queue_inv_def)
      moreover have "x_wake_inv s'" by (rule x_wake_awake) (use W' XLook in \<open>simp_all add: s' x_tokens_def\<close>)
      ultimately show ?thesis by (simp add: x_inv_def)
    next
      case (XLookLink h')
      with Q h have "h' = h" by (simp add: x_queue_inv_def)
      with XLooking XLookLink st h have s': "s' = (if nxt = None then s\<lparr>xawaiter := XSusp, xthreads := xthreads s @ [XPublish]\<rparr>
          else s\<lparr>xawaiter := XDequeue\<rparr>)" by (simp add: x_awaiter_act_def look_link_def)
      have z: "x_tokens s = 0" "xcell s = None" using W'(2) XLookLink by (auto simp: x_tokens_def split: if_splits)
      have "x_runners_inv s'" by (rule x_runners_cong [OF R]) (simp_all add: s')
      moreover have "x_queue_inv stub s'" using Q XLookLink by (simp add: s' x_queue_inv_def)
      moreover have "x_wake_inv s'" using W' z by (auto simp: s' x_wake_inv_alt x_tokens_def)
      ultimately show ?thesis by (simp add: x_inv_def)
    qed (use XLooking st in \<open>simp_all add: x_awaiter_act_def\<close>)
  next
    case XTry
    with st obtain q where a: "xawaiter s = XDequeue" and q: "qstep (CTry 0) (xq s) = Some q"
      and s': "s' = s\<lparr>xq := q, xawaiter := XTaking\<rparr>"
      by (auto simp: x_awaiter_act_def via_xq_Some split: if_splits)
    note B = x_queue_reach [OF Q q]
    have E: "q = (set_c 0 THead (xq s))\<lparr>owner := Some 0\<rparr>" using q by (simp add: qstep_def split: if_splits)
    have "x_runners_inv s'" by (rule x_runners_cong [OF R]) (simp_all add: s' E)
    moreover have "x_queue_inv stub s'" using Q a B by (simp add: s' x_queue_inv_def E)
    moreover have "x_wake_inv s'" by (rule x_wake_awake) (use W' a in \<open>simp_all add: s' x_tokens_def\<close>)
    ultimately show ?thesis by (simp add: x_inv_def)
  next
    case XTryStep
    with st obtain q where "xawaiter s = XTaking" "qstep (CStep 0) (xq s) = Some q" "s' = s\<lparr>xq := q\<rparr>"
      by (auto simp: x_awaiter_act_def via_xq_Some split: if_splits)
    with x_try_step_inv [OF inv] show ?thesis by simp
  next
    case XTryRet
    with st obtain r where a: "xawaiter s = XTaking" and c: "conss (xq s) 0 = CRet r"
      and s': "s' = s\<lparr>xawaiter := XRun, xdelivered := xdelivered s @ [r]\<rparr>"
      by (auto simp: x_awaiter_act_def split: xfpc.splits cpc.splits)
    have "x_runners_inv s'" by (rule x_runners_cong [OF R]) (simp_all add: s')
    moreover have "x_queue_inv stub s'"
      using Q a c by (cases r) (simp_all add: s' x_queue_inv_def somes_append c_idle_def)
    moreover have "x_wake_inv s'" by (rule x_wake_awake) (use W' a in \<open>simp_all add: s' x_tokens_def\<close>)
    ultimately show ?thesis by (simp add: x_inv_def)
  qed (use st in \<open>simp_all add: x_awaiter_act_def\<close>)
qed

lemma x_inv_step:
  assumes inv: "x_inv stub s" and ok: "xcalm a" and st: "x_step a s = Some s'"
  shows "x_inv stub s'"
proof -
  have st: "x_act a s = Some s'" using st by (simp add: x_step_def split: if_splits)
  show ?thesis
  proof (cases "xact_runner a")
    case (Some i)
    with st x_runner_act_inv [OF inv] show ?thesis by (simp add: x_act_def split: if_splits)
  next
    case None
    with st x_thread_inv [OF inv _ ok] x_awaiter_inv [OF inv] show ?thesis
      by (auto simp: x_act_def split: if_splits option.splits)
  qed
qed

interpretation each_queue: machine_inv_on x_step xcalm "xsys_init n stub" "x_inv stub" for n stub
  by unfold_locales (auto intro: x_inv_init x_inv_step)

section \<open>What the awaiter gets\<close>


lemmas x_eval = x_step_def x_act_def x_runner_act_def x_awaiter_act_def x_thread_act_def xsys_init_def set_x_def set_xt_def
  via_xq_def xresume_def look_head_def look_link_def after_check_def queue_eval

text \<open>
  The awaiter suspends while a runner is between its exchange and its link; \<open>await_suspend\<close> sees no
  link, and that runner wakes the awaiter later.
\<close>

definition x_demo :: "nat xact list" where
  "x_demo = [XReady, XLooking, XLooking, XEnds 1 (OValue 8), XCall 1 (Some 5), XEnq 1 False, XEnq 1 False, XThread 0 3,
     XCheckBoth 0, XEnq 1 False, XEnq 1 False, XRet 1, XRunner 1, XRunner 1, XRunner 1] @
     [XTry, XTryStep, XTryStep, XTryStep, XTryStep, XTryStep, XTryRet]"

lemma x_demo_run:
  "\<exists>s. run x_step x_demo (xsys_init 2 0) = Some s \<and> xdelivered s = [Some (1, OValue 8)] \<and> xthreads s = [XEnd]"
  by (simp add: x_demo_def x_eval numeral_2_eq_2)


section \<open>Where it goes wrong\<close>

text \<open>
  Freed memory. \<open>await_suspend\<close> calls \<open>maybe_empty\<close> after it has published the handle. When a runner
  resumes the coroutine between the two accesses of \<open>maybe_empty\<close>, the coroutine takes a value out
  and deletes the head, whose link \<open>await_suspend\<close> then reads.
\<close>

definition x_uaf :: "nat xact list" where
  "x_uaf = [XReady, XLooking, XLooking, XThread 0 3, XCheckHead 0,
     XEnds 1 (OValue 8), XCall 1 (Some 5), XEnq 1 False, XEnq 1 False, XEnq 1 False, XEnq 1 False, XRet 1,
     XRunner 1, XRunner 1, XRunner 1, XTry, XTryStep, XTryStep, XTryStep, XTryStep, XCheckLink 0]"

theorem wait_each_check_use_after_free:
  "\<exists>s. run x_step x_uaf (xsys_init 2 0) = Some s \<and> xbad s = Some UseAfterFree"
  by (simp add: x_uaf_def x_eval numeral_2_eq_2)

text \<open>
  An early end. A runner between its exchange and its link hides everything queued after it: another
  runner queues its result behind, takes the handle and resumes the awaiter, which finds no link and
  gives \<open>nullopt\<close>, the sign of the end, with two results in the queue.
\<close>

definition x_hidden :: "nat xact list" where
  "x_hidden = [XReady, XLooking, XLooking, XThread 0 3, XCheckBoth 0,
     XEnds 0 (OValue 7), XCall 0 (Some 4), XEnq 0 False, XEnq 0 False,
     XEnds 1 (OValue 8), XCall 1 (Some 5), XEnq 1 False, XEnq 1 False, XEnq 1 False, XEnq 1 False, XRet 1,
     XRunner 1, XRunner 1, XRunner 1, XTry, XTryStep, XTryStep, XTryRet]"

theorem wait_each_hidden_results:
  "\<exists>s. run x_step x_hidden (xsys_init 2 0) = Some s \<and> xdelivered s = [None] \<and>
     sent (xq s) = [(0, OValue 7), (1, OValue 8)] \<and> xremaining s = 1 \<and> xbad s = None"
  by (simp add: x_hidden_def x_eval numeral_2_eq_2)

end
