(* ===== verification/Promise.thy ===== *)
theory Promise
  imports Await_Results
begin

text \<open>
  The promise types of \<open>include/coro.hpp\<close> and what their coroutines do with them:
  \<open>Promise\<close> and \<open>WaitablePromise\<close> for the four kinds of result, the ownership of
  coroutine frames by \<open>Future\<close>, \<open>WaitableFuture\<close> and \<open>DetachedWaitableFuture\<close>,
  \<open>with_callback\<close>, \<open>forget\<close> and \<open>make_waitable\<close>.
\<close>

section \<open>Promises\<close>

text \<open>
  The four specialisations: \<open>T\<close>, \<open>T&\<close>, \<open>T&&\<close>, \<open>void\<close>. A value that was moved out
  leaves the optional engaged.
\<close>

datatype kind = ByValue | ByLRef | ByRRef | ByVoid

datatype 'v stored = Empty | Full 'v | MovedFrom

record 'v promise =
  pkind :: kind
  nothrow :: bool
  caller :: "handle option"
  pexn :: "exn option"
  pvalue :: "'v stored"

definition new_promise :: "kind \<Rightarrow> bool \<Rightarrow> 'v promise" where
  "new_promise k n = \<lparr>pkind = k, nothrow = n, caller = None, pexn = None, pvalue = Empty\<rparr>"

definition set_caller :: "handle \<Rightarrow> 'v promise \<Rightarrow> 'v promise" where
  "set_caller h p = p\<lparr>caller := Some h\<rparr>"

definition return_value :: "'v \<Rightarrow> 'v promise \<Rightarrow> 'v promise" where
  "return_value v p = p\<lparr>pvalue := Full v\<rparr>"

definition return_void :: "'v promise \<Rightarrow> 'v promise" where
  "return_void p = p"

text \<open>
  \<open>PromiseBase<true>\<close> rethrows out of a \<open>noexcept\<close> function, \<open>PromiseBase<false>\<close>
  keeps the exception.
\<close>

definition unhandled_exception :: "exn \<Rightarrow> 'v promise \<Rightarrow> fault + 'v promise" where
  "unhandled_exception e p = (if nothrow p then Inl Terminate else Inr (p\<lparr>pexn := Some e\<rparr>))"

datatype 'v got = GValue 'v | GMoved | GVoid | GThrow exn | GBadOptional | GFault fault

definition get_optional :: "'v promise \<Rightarrow> 'v got" where
  "get_optional p = (case pvalue p of
     Full v \<Rightarrow> GValue v
   | MovedFrom \<Rightarrow> GMoved
   | Empty \<Rightarrow> if nothrow p then GFault Terminate else GBadOptional)"

definition promise_get :: "'v promise \<Rightarrow> 'v got \<times> 'v promise" where
  "promise_get p = (case (if nothrow p then None else pexn p) of
     Some e \<Rightarrow> (GThrow e, p)
   | None \<Rightarrow> (case pkind p of
       ByValue \<Rightarrow> (get_optional p, if pvalue p = Empty then p else p\<lparr>pvalue := MovedFrom\<rparr>)
     | ByRRef \<Rightarrow> (get_optional p, p)
     | ByLRef \<Rightarrow> (case pvalue p of Full v \<Rightarrow> (GValue v, p) | _ \<Rightarrow> (GFault NullDeref, p))
     | ByVoid \<Rightarrow> (GVoid, p)))"

text \<open>The end of a coroutine body: it returned or an exception escaped.\<close>

definition finish :: "'v outcome \<Rightarrow> 'v promise \<Rightarrow> fault + 'v promise" where
  "finish oc p = (case oc of
     OValue v \<Rightarrow> Inr (if pkind p = ByVoid then return_void p else return_value v p)
   | OThrow e \<Rightarrow> unhandled_exception e p)"

definition outcome_got :: "kind \<Rightarrow> 'v outcome \<Rightarrow> 'v got" where
  "outcome_got k oc = (case oc of
     OThrow e \<Rightarrow> GThrow e | OValue v \<Rightarrow> if k = ByVoid then GVoid else GValue v)"

text \<open>
  A promise transports the outcome of its coroutine: whatever the result kind, \<open>get\<close>
  after the body has ended gives the value that was returned or rethrows the exception that
  escaped, and gives it again on a second call, except that a result by value is moved out by
  the first. A \<open>Nothrow\<close> promise ends the program when an exception escapes. Before the
  body has ended, \<open>get\<close> throws, terminates or dereferences null, and returns only for
  \<open>void\<close>.
\<close>

theorem promise_transports_outcome:
  "(case finish oc (new_promise k n) of
      Inl e \<Rightarrow> e = Terminate \<and> n \<and> (\<exists>x. oc = OThrow x)
    | Inr p \<Rightarrow> fst (promise_get p) = outcome_got k oc \<and>
        fst (promise_get (snd (promise_get p))) =
          (if k = ByValue \<and> (\<exists>v. oc = OValue v) then GMoved else outcome_got k oc)) \<and>
   fst (promise_get (new_promise k n)) =
     (case k of ByVoid \<Rightarrow> GVoid | ByLRef \<Rightarrow> GFault NullDeref | _ \<Rightarrow> if n then GFault Terminate else GBadOptional)"
  by (cases oc; cases k)
     (simp_all add: finish_def new_promise_def unhandled_exception_def return_value_def return_void_def
       promise_get_def get_optional_def outcome_got_def)

section \<open>Ownership of frames\<close>

text \<open>
  A future owns at most one coroutine frame. Moving and \<open>detach\<close> transfer it by
  \<open>std::exchange(m_coroutine, nullptr)\<close>, the destructor destroys it; the destructor of a
  \<open>WaitableFuture\<close> first waits for \<open>m_state\<close>. \<open>frames\<close> are the live frames, with the
  flag whether the coroutine has ended.
\<close>

datatype fkind = FutureK | WaitableK | DetachedK

record owners =
  frames :: "handle \<Rightarrow> bool option"
  futures :: "(fkind \<times> handle option) list"

datatype oact = Create fkind handle | MoveCtor nat | Detach nat | Finish handle | Destruct nat

definition future_move :: "nat \<Rightarrow> fkind \<Rightarrow> owners \<Rightarrow> owners" where
  "future_move i k s =
     s\<lparr>futures := (futures s)[i := (fst (futures s ! i), None)] @ [(k, snd (futures s ! i))]\<rparr>"

definition destroy_frame :: "handle \<Rightarrow> owners \<Rightarrow> fault + owners" where
  "destroy_frame h s = (if frames s h = None then Inl UseAfterFree else Inr (s\<lparr>frames := (frames s)(h := None)\<rparr>))"

definition future_dtor :: "nat \<Rightarrow> owners \<Rightarrow> (fault + owners) option" where
  "future_dtor i s = (case futures s ! i of (k, m) \<Rightarrow> (case m of
     None \<Rightarrow> Some (Inr s)
   | Some h \<Rightarrow>
       if k = WaitableK \<and> frames s h = Some False then None
       else Some (bindE (destroy_frame h s) (\<lambda>t. Inr (t\<lparr>futures := (futures t)[i := (k, None)]\<rparr>)))))"

definition own_step :: "oact \<Rightarrow> fault + owners \<Rightarrow> (fault + owners) option" where
  "own_step a r = (case r of Inl e \<Rightarrow> None | Inr s \<Rightarrow> (case a of
     Create k h \<Rightarrow> if frames s h \<noteq> None \<or> k = DetachedK then None
       else Some (Inr (s\<lparr>frames := (frames s)(h \<mapsto> False), futures := futures s @ [(k, Some h)]\<rparr>))
   | MoveCtor i \<Rightarrow> if i < length (futures s) then Some (Inr (future_move i (fst (futures s ! i)) s)) else None
   | Detach i \<Rightarrow> if i < length (futures s) \<and> fst (futures s ! i) = WaitableK
       then Some (Inr (future_move i DetachedK s)) else None
   | Finish h \<Rightarrow> if frames s h = Some False then Some (Inr (s\<lparr>frames := (frames s)(h \<mapsto> True)\<rparr>)) else None
   | Destruct i \<Rightarrow> if i < length (futures s) then future_dtor i s else None))"

definition no_futures :: owners where
  "no_futures = \<lparr>frames = (\<lambda>_. None), futures = []\<rparr>"

text \<open>Each live frame has exactly one owner.\<close>

definition handles :: "(fkind \<times> handle option) list \<Rightarrow> handle option multiset" where
  "handles fs = mset (map snd fs)"

definition owned_once :: "fault + owners \<Rightarrow> bool" where
  "owned_once r \<longleftrightarrow> (\<exists>s. r = Inr s \<and>
     (\<forall>h. count (handles (futures s)) (Some h) = (if frames s h = None then 0 else 1)))"

lemma handles_update:
  "i < length fs \<Longrightarrow> add_mset (snd (fs ! i)) (handles (fs[i := (k, m)])) = add_mset m (handles fs)"
  by (simp add: handles_def map_update mset_update)

lemma count_handles_update:
  "i < length fs \<Longrightarrow> count (handles (fs[i := (k, None)])) (Some h)
     = count (handles fs) (Some h) - (if snd (fs ! i) = Some h then 1 else 0)"
  using arg_cong [OF handles_update [of i fs k None], of "\<lambda>M. count M (Some h)"] by (auto split: if_splits)

lemma count_handles_move:
  assumes "i < length (futures s)"
  shows "count (handles (futures (future_move i k s))) (Some h) = count (handles (futures s)) (Some h)"
proof -
  have "snd (futures s ! i) = Some h \<Longrightarrow> 0 < count (handles (futures s)) (Some h)"
    using nth_mem [OF assms] by (force simp: handles_def)
  then show ?thesis using count_handles_update [OF assms, of "fst (futures s ! i)" h]
    by (auto simp: future_move_def handles_def)
qed

lemma owned_step:
  assumes "owned_once r" and "own_step a r = Some r'"
  shows "owned_once r'"
proof -
  obtain s where s: "r = Inr s"
    and c: "\<And>h. count (handles (futures s)) (Some h) = (if frames s h = None then 0 else 1)"
    using assms(1) by (auto simp: owned_once_def)
  show ?thesis
  proof (cases a)
    case (Create k h)
    with assms(2) s have "frames s h = None"
      "r' = Inr (s\<lparr>frames := (frames s)(h \<mapsto> False), futures := futures s @ [(k, Some h)]\<rparr>)"
      by (simp_all add: own_step_def split: if_splits)
    then show ?thesis using c by (auto simp: owned_once_def handles_def)
  next
    case (MoveCtor i)
    with assms(2) s have "i < length (futures s)" "r' = Inr (future_move i (fst (futures s ! i)) s)"
      by (simp_all add: own_step_def split: if_splits)
    moreover have "frames (future_move i (fst (futures s ! i)) s) = frames s" by (simp add: future_move_def)
    ultimately show ?thesis using c by (simp add: owned_once_def count_handles_move)
  next
    case (Detach i)
    with assms(2) s have "i < length (futures s)" "r' = Inr (future_move i DetachedK s)"
      by (simp_all add: own_step_def split: if_splits)
    moreover have "frames (future_move i DetachedK s) = frames s" by (simp add: future_move_def)
    ultimately show ?thesis using c by (simp add: owned_once_def count_handles_move)
  next
    case (Finish h)
    with assms(2) s c show ?thesis by (auto simp: own_step_def owned_once_def split: if_splits)
  next
    case (Destruct i)
    then have i: "i < length (futures s)" and d: "future_dtor i s = Some r'"
      using assms(2) s by (simp_all add: own_step_def split: if_splits)
    obtain k m where km: "futures s ! i = (k, m)" by (cases "futures s ! i")
    show ?thesis
    proof (cases m)
      case None
      with d km assms(1) s show ?thesis by (simp add: future_dtor_def)
    next
      case (Some h)
      have "Some h \<in># handles (futures s)" using nth_mem [OF i] km Some by (force simp: handles_def)
      then have "count (handles (futures s)) (Some h) \<noteq> 0" by simp
      then have "frames s h \<noteq> None" using c [of h] by (auto split: if_splits)
      with d km Some have r': "r' = Inr (s\<lparr>frames := (frames s)(h := None), futures := (futures s)[i := (k, None)]\<rparr>)"
        by (auto simp: future_dtor_def destroy_frame_def split: if_splits)
      have "count (handles ((futures s)[i := (k, None)])) (Some x) = (if ((frames s)(h := None)) x = None then 0 else 1)" for x
        using count_handles_update [OF i, of k x] c [of x] c [of h] km Some \<open>frames s h \<noteq> None\<close> by auto
      with r' show ?thesis by (simp add: owned_once_def)
    qed
  qed
qed

lemma owned_no_futures: "owned_once (Inr no_futures)"
  by (simp add: owned_once_def no_futures_def handles_def)

interpretation own: machine_inv own_step "Inr no_futures" owned_once
  by unfold_locales (auto intro: owned_no_futures owned_step)



section \<open>Fire-and-forget coroutines\<close>

text \<open>
  \<open>TrivialPromise\<close> rethrows an escaping exception out of a \<open>noexcept\<close> function, which ends
  the program, and never suspends at the end, so that the frame destroys itself. A
  callback is given by the exception it throws on an argument, if any; the result is the
  sequence of calls and how the coroutine ended.
\<close>

datatype 'v event = CallValue 'v | CallVoid | CallException exn | CallFinally

datatype ending = FrameDestroyed | Terminated

text \<open>How a statement block ends: normally or with an exception in flight.\<close>

type_synonym 'v block = "'v event list \<times> exn option"

definition trivial_end :: "'v block \<Rightarrow> 'v event list \<times> ending" where
  "trivial_end b = (fst b, case snd b of None \<Rightarrow> FrameDestroyed | Some e \<Rightarrow> Terminated)"

text \<open>\<open>co_await awaitable\<close> and the call of the callback with its result.\<close>

definition await_and_call :: "bool \<Rightarrow> 'v outcome \<Rightarrow> ('v option \<Rightarrow> exn option) \<Rightarrow> 'v block" where
  "await_and_call is_void oc callback = (case oc of
     OThrow e \<Rightarrow> ([], Some e)
   | OValue v \<Rightarrow> if is_void then ([CallVoid], callback None) else ([CallValue v], callback (Some v)))"

definition with_callback :: "bool \<Rightarrow> 'v outcome \<Rightarrow> ('v option \<Rightarrow> exn option) \<Rightarrow> 'v event list \<times> ending" where
  "with_callback is_void oc callback = trivial_end (await_and_call is_void oc callback)"

definition catch_all :: "'v block \<Rightarrow> (exn \<Rightarrow> exn option) \<Rightarrow> 'v block" where
  "catch_all b handler = (case snd b of
     None \<Rightarrow> b
   | Some e \<Rightarrow> (fst b @ [CallException e], handler e))"

definition with_callback_catch ::
  "bool \<Rightarrow> 'v outcome \<Rightarrow> ('v option \<Rightarrow> exn option) \<Rightarrow> (exn \<Rightarrow> exn option) \<Rightarrow> 'v event list \<times> ending" where
  "with_callback_catch is_void oc callback ecallback =
     trivial_end (catch_all (await_and_call is_void oc callback) ecallback)"

definition with_callback_finally ::
  "bool \<Rightarrow> 'v outcome \<Rightarrow> ('v option \<Rightarrow> exn option) \<Rightarrow> (exn \<Rightarrow> exn option) \<Rightarrow> exn option
     \<Rightarrow> 'v event list \<times> ending" where
  "with_callback_finally is_void oc callback ecallback fcallback =
     (let b = catch_all (await_and_call is_void oc callback) ecallback
      in trivial_end (case snd b of Some e \<Rightarrow> b | None \<Rightarrow> (fst b @ [CallFinally], fcallback)))"

definition forget :: "'v outcome \<Rightarrow> 'v event list \<times> ending" where
  "forget oc = trivial_end ([], case oc of OThrow e \<Rightarrow> Some e | OValue v \<Rightarrow> None)"

text \<open>
  The callback combinators call what they promise. With all three callbacks and an
  exception callback that does not throw, the result callback is called exactly when the
  awaitable gave a result, the exception callback exactly when the awaitable or the result
  callback threw, and the finally callback always, once, last. Without an exception callback an
  exception of either ends the program; an exception out of the exception or finally callback
  does so too, and in the first case the finally callback is not called.
\<close>

theorem callbacks_called:
  "(let (ev, en) = with_callback_finally vd oc cb ecb fin;
        threw = (case oc of OThrow e \<Rightarrow> Some e | OValue v \<Rightarrow> cb (if vd then None else Some v));
        results = (case oc of OThrow e \<Rightarrow> [] | OValue v \<Rightarrow> [if vd then CallVoid else CallValue v])
    in (case threw of
          None \<Rightarrow> ev = results @ [CallFinally] \<and> (en = Terminated \<longleftrightarrow> fin \<noteq> None)
        | Some e \<Rightarrow> (if ecb e = None then ev = results @ [CallException e, CallFinally] \<and> (en = Terminated \<longleftrightarrow> fin \<noteq> None)
                    else ev = results @ [CallException e] \<and> en = Terminated)) \<and>
       with_callback vd oc cb = (results, if threw = None then FrameDestroyed else Terminated) \<and>
       with_callback_catch vd oc cb ecb = (case threw of
          None \<Rightarrow> (results, FrameDestroyed)
        | Some e \<Rightarrow> (results @ [CallException e], if ecb e = None then FrameDestroyed else Terminated)))"
  by (cases oc)
    (auto simp: with_callback_finally_def with_callback_catch_def with_callback_def await_and_call_def
      catch_all_def trivial_end_def Let_def split: option.splits)

section \<open>\<open>make_waitable\<close> and \<open>awaitable_cast_strict\<close>\<close>

text \<open>\<open>co_return co_await awaitable\<close> in a coroutine with a \<open>WaitablePromise\<close>.\<close>

definition make_waitable :: "kind \<Rightarrow> bool \<Rightarrow> 'v outcome \<Rightarrow> fault + 'v promise" where
  "make_waitable k n oc = finish oc (new_promise k n)"

text \<open>
  What \<open>operator co_await\<close> gives, repeatedly: an awaitable has the three functions, other
  types have a member or a free operator, or none, which does not compile.
\<close>

datatype co_type = Awaitable nat | MemberCoAwait co_type | FreeCoAwait co_type | NotAwaitable

fun awaitable_cast_strict :: "co_type \<Rightarrow> nat option" where
  "awaitable_cast_strict (Awaitable a) = Some a"
| "awaitable_cast_strict (MemberCoAwait t) = awaitable_cast_strict t"
| "awaitable_cast_strict (FreeCoAwait t) = awaitable_cast_strict t"
| "awaitable_cast_strict NotAwaitable = None"

text \<open>
  \<open>ThisPromiseAwaitable\<close>: never ready, does not suspend, and gives the promise of the
  coroutine that awaits it.
\<close>

record 'p this_promise =
  m_this :: "'p option"

definition this_promise_suspend :: "'p \<Rightarrow> 'p this_promise \<Rightarrow> bool \<times> 'p this_promise" where
  "this_promise_suspend promise a = (False, a\<lparr>m_this := Some promise\<rparr>)"

definition this_promise_resume :: "'p this_promise \<Rightarrow> fault + 'p" where
  "this_promise_resume a = (case m_this a of None \<Rightarrow> Inl NullDeref | Some p \<Rightarrow> Inr p)"

end
