(* ===== verification/Future_Await.thy ===== *)
theory Future_Await
  imports Promise
begin

text \<open>
  The end of a coroutine against those who wait for it (\<open>include/coro.hpp\<close>): the final
  awaiters of \<open>Promise\<close> and \<open>WaitablePromise\<close>, a coroutine that awaits a \<open>Future\<close> or a
  \<open>DetachedWaitableFuture\<close>, and a thread that waits on a \<open>WaitableFuture\<close>, gets the result
  and destroys it. One access of the code is one action.
\<close>

section \<open>The machine\<close>

text \<open>
  The child is in its body, or suspended at its final suspension point with
  \<open>FinalWaiter::await_suspend\<close> still to run: \<open>set_valid\<close> when the promise is waitable, two
  calls of \<open>get_caller\<close>, the transfer. \<open>outc\<close> logs how the body ended.
\<close>

datatype child_pc = CBody | CFinal | CNotify | CRead1 | CRead2 | CTransfer handle | CEnd

datatype parent_pc = PStart | PSet | PSuspended | PRunning

datatype owner_pc = OStart | OWaited | ODestroyed

record 'v fsys =
  waitable :: bool
  parent_handle :: handle
  prom :: "'v promise"
  child :: child_pc
  m_state :: bool
  frame_alive :: bool
  parent :: parent_pc
  presumed :: nat
  owner_st :: owner_pc
  outc :: "'v outcome option"
  read :: "'v got option"
  fbad :: "fault option"

definition fsys_init :: "bool \<Rightarrow> handle \<Rightarrow> kind \<Rightarrow> bool \<Rightarrow> 'v fsys" where
  "fsys_init w h k n = \<lparr>waitable = w, parent_handle = h, prom = new_promise k n, child = CBody, m_state = False,
     frame_alive = True, parent = PStart, presumed = 0, owner_st = OStart, outc = None, read = None, fbad = None\<rparr>"

text \<open>
  \<open>Await\<close> is \<open>await_ready\<close> and \<open>await_suspend\<close> of the parent with no step of the child
  in between, as when both run on one thread; \<open>Ready\<close> and \<open>Suspend\<close> are the two
  separately. The result is consumed once, by the parent or by the owner.
\<close>

datatype 'v fact =
    Finish_body "'v outcome" | Child_step
  | Await | Ready | Suspend | Parent_get
  | Wait | Owner_get | Destroy

definition touch :: "'v fsys \<Rightarrow> 'v fsys \<Rightarrow> 'v fsys" where
  "touch s t = (if frame_alive s then t else s\<lparr>fbad := Some UseAfterFree\<rparr>)"

definition child_done :: "'v fsys \<Rightarrow> bool" where
  "child_done s \<longleftrightarrow> child s \<noteq> CBody"

fun final_waiter :: "child_pc \<Rightarrow> 'v fsys \<Rightarrow> 'v fsys option" where
  "final_waiter CBody s = None"
| "final_waiter CFinal s =
     Some (if waitable s then touch s (s\<lparr>m_state := True, child := CNotify\<rparr>) else s\<lparr>child := CRead1\<rparr>)"
| "final_waiter CNotify s = Some (touch s (s\<lparr>child := CRead1\<rparr>))"
| "final_waiter CRead1 s =
     Some (touch s (s\<lparr>child := (if caller (prom s) = None then CEnd else CRead2)\<rparr>))"
| "final_waiter CRead2 s =
     Some (touch s (s\<lparr>child := (case caller (prom s) of None \<Rightarrow> CEnd | Some h \<Rightarrow> CTransfer h)\<rparr>))"
| "final_waiter (CTransfer h) s =
     Some (if parent s = PSuspended \<and> h = parent_handle s
       then s\<lparr>child := CEnd, parent := PRunning, presumed := presumed s + 1\<rparr>
       else s\<lparr>fbad := Some Unreachable\<rparr>)"
| "final_waiter CEnd s = None"

definition await_suspend :: "'v fsys \<Rightarrow> 'v fsys" where
  "await_suspend s = touch s (s\<lparr>prom := set_caller (parent_handle s) (prom s), parent := PSuspended\<rparr>)"

definition fetch_result :: "'v fsys \<Rightarrow> 'v fsys" where
  "fetch_result s = touch s (case promise_get (prom s) of (g, p) \<Rightarrow> s\<lparr>read := Some g, prom := p\<rparr>)"

fun fact_step :: "'v fact \<Rightarrow> 'v fsys \<Rightarrow> 'v fsys option" where
  "fact_step (Finish_body oc) s =
     (if child s \<noteq> CBody then None
      else Some (case finish oc (prom s) of
        Inl e \<Rightarrow> s\<lparr>fbad := Some e\<rparr>
      | Inr p \<Rightarrow> touch s (s\<lparr>prom := p, outc := Some oc, child := CFinal\<rparr>)))"
| "fact_step Child_step s = final_waiter (child s) s"
| "fact_step Await s =
     (if parent s \<noteq> PStart then None
      else Some (if child_done s then s\<lparr>parent := PRunning\<rparr> else await_suspend s))"
| "fact_step Ready s =
     (if parent s \<noteq> PStart then None
      else Some (s\<lparr>parent := (if child_done s then PRunning else PSet)\<rparr>))"
| "fact_step Suspend s = (if parent s \<noteq> PSet then None else Some (await_suspend s))"
| "fact_step Parent_get s =
     (if parent s \<noteq> PRunning \<or> read s \<noteq> None then None else Some (fetch_result s))"
| "fact_step Wait s =
     (if owner_st s \<noteq> OStart \<or> \<not> waitable s \<or> \<not> m_state s then None else Some (s\<lparr>owner_st := OWaited\<rparr>))"
| "fact_step Owner_get s =
     (if owner_st s \<noteq> OWaited \<or> read s \<noteq> None then None else Some (fetch_result s))"
| "fact_step Destroy s =
     (if owner_st s \<noteq> OWaited then None else Some (s\<lparr>owner_st := ODestroyed, frame_alive := False\<rparr>))"

definition fstep :: "'v fact \<Rightarrow> 'v fsys \<Rightarrow> 'v fsys option" where
  "fstep a s = (if fbad s \<noteq> None then None else fact_step a s)"

section \<open>Without races\<close>

text \<open>
  The discipline: the parent looks and registers in one go, and the frame is not destroyed
  while the child still uses it.
\<close>

fun calm :: "'v fact \<Rightarrow> bool" where
  "calm Ready = False" | "calm Suspend = False" | "calm Destroy = False" | "calm a = True"

fun transferring :: "child_pc \<Rightarrow> bool" where
  "transferring CRead2 = True"
| "transferring (CTransfer h) = True"
| "transferring pc = False"

text \<open>Where the parent stands, by the program counters alone.\<close>

definition parent_inv :: "'v fsys \<Rightarrow> bool" where
  "parent_inv s \<longleftrightarrow> (case parent s of
     PStart \<Rightarrow> caller (prom s) = None \<and> presumed s = 0 \<and> \<not> transferring (child s)
   | PSet \<Rightarrow> False
   | PSuspended \<Rightarrow> caller (prom s) = Some (parent_handle s) \<and> presumed s = 0 \<and>
       (child s \<in> {CBody, CFinal, CNotify, CRead1, CRead2} \<or> child s = CTransfer (parent_handle s))
   | PRunning \<Rightarrow> child s \<noteq> CBody \<and>
       (caller (prom s) = None \<and> presumed s = 0 \<and> \<not> transferring (child s)
        \<or> caller (prom s) = Some (parent_handle s) \<and> presumed s = 1 \<and> child s = CEnd))"

definition value_inv :: "'v fsys \<Rightarrow> bool" where
  "value_inv s \<longleftrightarrow>
     (if child s = CBody then outc s = None \<and> pexn (prom s) = None \<and> pvalue (prom s) = Empty \<and> read s = None
      else \<exists>oc. outc s = Some oc \<and>
        (read s = None \<longrightarrow> fst (promise_get (prom s)) = outcome_got (pkind (prom s)) oc) \<and>
        (\<forall>g. read s = Some g \<longrightarrow> g = outcome_got (pkind (prom s)) oc))"

definition finv :: "'v fsys \<Rightarrow> bool" where
  "finv s \<longleftrightarrow> frame_alive s \<and> fbad s \<in> {None, Some Terminate} \<and> parent_inv s \<and> value_inv s \<and>
     (m_state s \<longrightarrow> child s \<noteq> CBody \<and> child s \<noteq> CFinal) \<and> (owner_st s = OWaited \<longrightarrow> m_state s) \<and>
     (\<not> waitable s \<longrightarrow> child s \<noteq> CNotify)"

lemma inv_owner [simp]:
  "parent_inv (s\<lparr>owner_st := x\<rparr>) = parent_inv s" "value_inv (s\<lparr>owner_st := x\<rparr>) = value_inv s"
  by (cases "parent s") (simp_all add: parent_inv_def value_inv_def)

lemma finv_init: "finv (fsys_init w h k n)"
  by (simp add: finv_def fsys_init_def parent_inv_def value_inv_def new_promise_def)

lemma finish_facts:
  assumes "finish oc p = Inr q"
  shows "caller q = caller p" and "pkind q = pkind p"
    and "pexn p = None \<Longrightarrow> fst (promise_get q) = outcome_got (pkind p) oc"
  using assms
  by (auto simp: finish_def unhandled_exception_def return_value_def return_void_def promise_get_def
      get_optional_def outcome_got_def split: outcome.splits if_splits kind.splits)

lemma promise_get_facts:
  "caller (snd (promise_get p)) = caller p" "pkind (snd (promise_get p)) = pkind p"
  by (auto simp: promise_get_def split: option.splits kind.splits stored.splits)

lemma promise_get_set_caller:
  "fst (promise_get (set_caller h p)) = fst (promise_get p)"
  by (auto simp: promise_get_def set_caller_def get_optional_def split: option.splits kind.splits stored.splits)

lemma value_inv_get:
  assumes "value_inv s" and "child s \<noteq> CBody" and "read s = None"
  shows "value_inv (case promise_get (prom s) of (g, p) \<Rightarrow> s\<lparr>read := Some g, prom := p\<rparr>)"
proof -
  obtain g p where gp: "promise_get (prom s) = (g, p)" by (cases "promise_get (prom s)")
  with promise_get_facts [of "prom s"] have "pkind p = pkind (prom s)" by simp
  with gp assms show ?thesis by (auto simp: value_inv_def)
qed

lemma parent_inv_get:
  "parent_inv s \<Longrightarrow> parent_inv (case promise_get (prom s) of (g, p) \<Rightarrow> s\<lparr>read := Some g, prom := p\<rparr>)"
  using promise_get_facts [of "prom s"] by (cases "promise_get (prom s)"; cases "parent s") (simp_all add: parent_inv_def)

lemma finv_get:
  assumes "finv s" and "child s \<noteq> CBody" and "read s = None"
  shows "finv (fetch_result s)"
proof -
  have "frame_alive s" "parent_inv s" "value_inv s" using assms(1) by (simp_all add: finv_def)
  with parent_inv_get [of s] value_inv_get [OF _ assms(2,3)] assms(1) show ?thesis
    by (cases "promise_get (prom s)") (simp add: finv_def fetch_result_def touch_def)
qed

lemma finv_finish:
  assumes inv: "finv s" and c: "child s = CBody" and p: "finish oc (prom s) = Inr p"
  shows "finv (s\<lparr>prom := p, outc := Some oc, child := CFinal\<rparr>)"
proof -
  have v: "pexn (prom s) = None" "read s = None" using inv c by (simp_all add: finv_def value_inv_def)
  have "value_inv (s\<lparr>prom := p, outc := Some oc, child := CFinal\<rparr>)"
    using finish_facts [OF p] v by (simp add: value_inv_def)
  moreover have "parent_inv (s\<lparr>prom := p, outc := Some oc, child := CFinal\<rparr>)"
    using inv c finish_facts(1) [OF p] by (auto simp: finv_def parent_inv_def split: parent_pc.splits)
  ultimately show ?thesis using inv c by (auto simp: finv_def)
qed

lemma value_inv_frame:
  "value_inv s \<Longrightarrow> child s \<noteq> CBody \<Longrightarrow> child t \<noteq> CBody \<Longrightarrow> prom t = prom s \<Longrightarrow> outc t = outc s \<Longrightarrow>
   read t = read s \<Longrightarrow> value_inv t"
  by (simp add: value_inv_def)

lemma finv_child:
  assumes inv: "finv s" and st: "final_waiter (child s) s = Some s'"
  shows "finv s'"
proof -
  have al: "frame_alive s" and pi: "parent_inv s" and vi: "value_inv s" using inv by (simp_all add: finv_def)
  show ?thesis
  proof (cases "child s")
    case CFinal
    with st al have s': "s' = (if waitable s then s\<lparr>m_state := True, child := CNotify\<rparr> else s\<lparr>child := CRead1\<rparr>)"
      by (simp add: touch_def split: if_splits)
    have "value_inv s'" by (rule value_inv_frame [OF vi]) (simp_all add: CFinal s')
    moreover have "parent_inv s'" using pi CFinal s' by (auto simp: parent_inv_def split: parent_pc.splits)
    ultimately show ?thesis using inv CFinal s' by (auto simp: finv_def)
  next
    case CNotify
    with st al have s': "s' = s\<lparr>child := CRead1\<rparr>" by (simp add: touch_def)
    have "value_inv s'" by (rule value_inv_frame [OF vi]) (simp_all add: CNotify s')
    moreover have "parent_inv s'" using pi CNotify s' by (auto simp: parent_inv_def split: parent_pc.splits)
    ultimately show ?thesis using inv CNotify s' by (simp add: finv_def)
  next
    case CRead1
    with st al have s': "s' = s\<lparr>child := (if caller (prom s) = None then CEnd else CRead2)\<rparr>" by (simp add: touch_def)
    have "value_inv s'" by (rule value_inv_frame [OF vi]) (simp_all add: CRead1 s')
    moreover have "parent_inv s'" using pi CRead1 s' by (auto simp: parent_inv_def split: parent_pc.splits)
    ultimately show ?thesis using inv CRead1 s' by (simp add: finv_def)
  next
    case CRead2
    with pi have p: "parent s = PSuspended" "caller (prom s) = Some (parent_handle s)"
      by (auto simp: parent_inv_def split: parent_pc.splits)
    with CRead2 st al have s': "s' = s\<lparr>child := CTransfer (parent_handle s)\<rparr>" by (simp add: touch_def)
    have "value_inv s'" by (rule value_inv_frame [OF vi]) (simp_all add: CRead2 s')
    moreover have "parent_inv s'" using pi p s' by (simp add: parent_inv_def)
    ultimately show ?thesis using inv CRead2 s' by (simp add: finv_def)
  next
    case (CTransfer h)
    with pi have p: "parent s = PSuspended" "caller (prom s) = Some (parent_handle s)" "h = parent_handle s"
      by (auto simp: parent_inv_def split: parent_pc.splits)
    with CTransfer st have s': "s' = s\<lparr>child := CEnd, parent := PRunning, presumed := presumed s + 1\<rparr>" by simp
    have "value_inv s'" by (rule value_inv_frame [OF vi]) (simp_all add: CTransfer s')
    moreover have "parent_inv s'" using pi p s' by (simp add: parent_inv_def)
    ultimately show ?thesis using inv CTransfer s' by (simp add: finv_def)
  qed (use st in simp_all)
qed

lemma finv_step:
  assumes inv: "finv s" and ok: "calm a" and st: "fstep a s = Some s'"
  shows "finv s'"
proof -
  have st: "fact_step a s = Some s'" using st by (simp add: fstep_def split: if_splits)
  have al: "frame_alive s" and pi: "parent_inv s" and vi: "value_inv s" using inv by (simp_all add: finv_def)
  show ?thesis
  proof (cases a)
    case (Finish_body oc)
    with st al have c: "child s = CBody" and s': "s' = (case finish oc (prom s) of Inl e \<Rightarrow> s\<lparr>fbad := Some e\<rparr>
        | Inr p \<Rightarrow> s\<lparr>prom := p, outc := Some oc, child := CFinal\<rparr>)"
      by (auto simp: touch_def split: if_splits sum.splits)
    show ?thesis
    proof (cases "finish oc (prom s)")
      case (Inl e)
      then have "e = Terminate"
        by (simp add: finish_def unhandled_exception_def split: outcome.splits if_splits)
      with Inl s' inv show ?thesis
        by (cases "parent s") (simp_all add: finv_def parent_inv_def value_inv_def)
    next
      case (Inr p)
      with finv_finish [OF inv c] s' show ?thesis by simp
    qed
  next
    case Child_step
    with st finv_child [OF inv] show ?thesis by simp
  next
    case Await
    with st have p: "parent s = PStart" by (simp split: if_splits)
    show ?thesis
    proof (cases "child_done s")
      case True
      with Await st p have s': "s' = s\<lparr>parent := PRunning\<rparr>" by simp
      have "value_inv s'" using vi s' by (simp add: value_inv_def)
      moreover have "parent_inv s'" using pi p s' True by (simp add: parent_inv_def child_done_def)
      ultimately show ?thesis using inv s' by (simp add: finv_def)
    next
      case False
      with Await st p al have s': "s' = s\<lparr>prom := set_caller (parent_handle s) (prom s), parent := PSuspended\<rparr>"
        by (simp add: await_suspend_def touch_def)
      have "value_inv s'" using vi s' False by (simp add: value_inv_def child_done_def set_caller_def)
      moreover have "parent_inv s'" using pi p s' False by (simp add: parent_inv_def child_done_def set_caller_def)
      ultimately show ?thesis using inv s' by (simp add: finv_def)
    qed
  next
    case Parent_get
    with st have "s' = fetch_result s" "read s = None" "parent s = PRunning" by (simp_all split: if_splits)
    moreover from this pi have "child s \<noteq> CBody" by (simp add: parent_inv_def)
    ultimately show ?thesis using finv_get [OF inv] by simp
  next
    case Wait
    with st inv show ?thesis by (auto simp: finv_def split: if_splits)
  next
    case Owner_get
    with st have "s' = fetch_result s" "read s = None" "owner_st s = OWaited" by (simp_all split: if_splits)
    moreover from this inv have "child s \<noteq> CBody" by (simp add: finv_def)
    ultimately show ?thesis using finv_get [OF inv] by simp
  qed (use ok in simp_all)
qed

interpretation future_calm: machine_inv_on fstep calm "fsys_init w h k n" finv for w h k n
  by unfold_locales (auto intro: finv_init finv_step)


lemmas future_eval = fstep_def fsys_init_def touch_def child_done_def await_suspend_def fetch_result_def
  finish_def new_promise_def return_value_def return_void_def unhandled_exception_def set_caller_def
  promise_get_def get_optional_def

definition await_demo :: "nat fact list" where
  "await_demo = [Await, Finish_body (OValue 42), Child_step, Child_step, Child_step, Child_step, Parent_get]"


section \<open>The races\<close>

text \<open>
  \<open>await_ready\<close> and \<open>await_suspend\<close> of \<open>Future\<close> do not exclude the child. When the
  child ends on another thread between the look at \<open>done()\<close> and \<open>set_caller\<close>, its final
  awaiter finds no caller, and the parent stays suspended with nobody left to resume it.
\<close>

theorem future_await_race:
  "\<exists>s. run fstep [Ready, Finish_body (OValue (1::nat)), Child_step, Child_step, Suspend]
       (fsys_init False 3 ByValue False) = Some s \<and>
     parent s = PSuspended \<and> child s = CEnd \<and> presumed s = 0 \<and> fbad s = None \<and>
     fstep Child_step s = None"
  by (simp add: future_eval)

text \<open>
  The final awaiter of a \<open>WaitablePromise\<close> uses the promise after \<open>m_state\<close> is set.
  The destructor of the \<open>WaitableFuture\<close>, which waits for nothing else, may destroy the
  frame before \<open>notify_all\<close> and \<open>get_caller\<close> have run.
\<close>

theorem waitable_destroy_race:
  "\<exists>s. run fstep [Finish_body (OValue (1::nat)), Child_step, Wait, Owner_get, Destroy, Child_step]
       (fsys_init True 3 ByValue False) = Some s \<and>
     read s = Some (GValue 1) \<and> fbad s = Some UseAfterFree"
  by (simp add: future_eval)

end
