(* ===== verification/Waitable_Atomic.thy ===== *)
theory Waitable_Atomic
  imports Prelude
begin

text \<open>
  \<open>include/waitable_atomic.hpp\<close>, the Linux version: the spin-then-block loops of \<open>wait\<close> and
  \<open>wait_until\<close> over what their loads observe, the arithmetic and the retry loop of
  \<open>wait_for_impl\<close>, the size tables, the read-modify-write operations.
  \<open>Futex\<close> has the waiters against writers that store and notify.
\<close>

section \<open>\<open>wait\<close>\<close>

definition SPIN_TIMES :: nat where
  "SPIN_TIMES = 1000"

text \<open>
  The loops consume the values that their loads return, in order. The spin loop gives
  whether it saw another value and the loads left; \<open>None\<close> is a loop that has not ended
  within the loads given. A blocking \<open>wait_impl\<close> may return for any reason.
\<close>

fun spin :: "nat \<Rightarrow> 'v \<Rightarrow> 'v list \<Rightarrow> (bool \<times> 'v list) option" where
  "spin 0 e loads = Some (False, loads)"
| "spin (Suc n) e [] = None"
| "spin (Suc n) e (v # loads) = (if v \<noteq> e then Some (True, loads) else spin n e loads)"

fun block_loop :: "'v \<Rightarrow> 'v list \<Rightarrow> 'v list option" where
  "block_loop e [] = None"
| "block_loop e (v # loads) = (if v = e then block_loop e loads else Some loads)"

definition wait :: "'v \<Rightarrow> 'v list \<Rightarrow> 'v list option" where
  "wait e loads = (case spin SPIN_TIMES e loads of
     None \<Rightarrow> None
   | Some (True, rest) \<Rightarrow> Some rest
   | Some (False, rest) \<Rightarrow> block_loop e rest)"

lemma block_loop_first:
  "block_loop e loads = Some rest \<longleftrightarrow> (\<exists>n v. loads = replicate n e @ v # rest \<and> v \<noteq> e)"
proof (induction loads)
  case (Cons x loads)
  show ?case
  proof (cases "x = e")
    case True
    have "(\<exists>n v. x # loads = replicate n e @ v # rest \<and> v \<noteq> e)
        \<longleftrightarrow> (\<exists>n v. loads = replicate n e @ v # rest \<and> v \<noteq> e)"
    proof
      assume "\<exists>n v. x # loads = replicate n e @ v # rest \<and> v \<noteq> e"
      then obtain n v where nv: "x # loads = replicate n e @ v # rest" "v \<noteq> e" by blast
      with True show "\<exists>n v. loads = replicate n e @ v # rest \<and> v \<noteq> e" by (cases n) auto
    next
      assume "\<exists>n v. loads = replicate n e @ v # rest \<and> v \<noteq> e"
      then obtain n v where "loads = replicate n e @ v # rest" "v \<noteq> e" by blast
      with True show "\<exists>n v. x # loads = replicate n e @ v # rest \<and> v \<noteq> e"
        by (intro exI [of _ "Suc n"]) auto
    qed
    with True Cons show ?thesis by simp
  next
    case False
    have "(\<exists>n v. x # loads = replicate n e @ v # rest \<and> v \<noteq> e) \<longleftrightarrow> loads = rest"
    proof
      assume "\<exists>n v. x # loads = replicate n e @ v # rest \<and> v \<noteq> e"
      then obtain n v where "x # loads = replicate n e @ v # rest" by blast
      with False show "loads = rest" by (cases n) auto
    next
      assume "loads = rest"
      with False show "\<exists>n v. x # loads = replicate n e @ v # rest \<and> v \<noteq> e"
        by (intro exI [of _ 0]) auto
    qed
    with False show ?thesis by simp
  qed
qed simp

lemma spin_block: "(case spin n e loads of
     None \<Rightarrow> None | Some (True, rest) \<Rightarrow> Some rest | Some (False, rest) \<Rightarrow> block_loop e rest) = block_loop e loads"
  by (induction n e loads rule: spin.induct) auto

text \<open>
  \<open>wait\<close> returns at the first load that gives another value than the expected one, and
  not before, whether it is still spinning or blocks and however often the kernel wakes it for
  nothing; so it returns exactly when some load gives another value.
\<close>

theorem wait_returns_at_change:
  "(wait e loads = Some rest \<longleftrightarrow> (\<exists>n v. loads = replicate n e @ v # rest \<and> v \<noteq> e)) \<and>
   ((\<exists>r. wait e loads = Some r) \<longleftrightarrow> (\<exists>v \<in> set loads. v \<noteq> e))"
proof -
  have w: "wait e loads = block_loop e loads" by (simp add: wait_def spin_block)
  have "(\<exists>r. block_loop e loads = Some r) \<longleftrightarrow> (\<exists>v \<in> set loads. v \<noteq> e)"
    by (induction loads) auto
  with block_loop_first [of e loads rest] show ?thesis by (simp only: w)
qed

section \<open>\<open>wait_until\<close>\<close>

text \<open>
  The timed loop also consumes readings of the clock, one per iteration, and ends with one
  more load.
\<close>

fun until_loop :: "'v \<Rightarrow> int \<Rightarrow> 'v list \<Rightarrow> int list \<Rightarrow> bool option" where
  "until_loop e atime [] clock = None"
| "until_loop e atime (v # loads) clock =
     (if v \<noteq> e then (case loads of [] \<Rightarrow> None | w # _ \<Rightarrow> Some (w \<noteq> e))
      else (case clock of
          [] \<Rightarrow> None
        | now # clock' \<Rightarrow> if now \<ge> atime then Some False else until_loop e atime loads clock'))"

definition wait_until :: "'v \<Rightarrow> int \<Rightarrow> 'v list \<Rightarrow> int list \<Rightarrow> bool option" where
  "wait_until e atime loads clock = (case spin SPIN_TIMES e loads of
     None \<Rightarrow> None
   | Some (True, rest) \<Rightarrow> Some True
   | Some (False, rest) \<Rightarrow> until_loop e atime rest clock)"

definition wait_for :: "'v \<Rightarrow> int \<Rightarrow> 'v list \<Rightarrow> int list \<Rightarrow> bool option" where
  "wait_for e dur loads clock = (case clock of
     [] \<Rightarrow> None | now # clock' \<Rightarrow> wait_until e (now + dur) loads clock')"

lemma until_loop_True: "until_loop e atime loads clock = Some True \<Longrightarrow> \<exists>v \<in> set loads. v \<noteq> e"
  by (induction e atime loads clock rule: until_loop.induct) (auto split: if_splits list.splits)

lemma until_loop_False:
  "until_loop e atime loads clock = Some False \<Longrightarrow> sorted_wrt (\<lambda>v w. v \<noteq> e \<longrightarrow> w \<noteq> e) loads \<Longrightarrow>
   \<exists>now \<in> set clock. now \<ge> atime"
  by (induction e atime loads clock rule: until_loop.induct) (auto split: if_splits list.splits)

lemma until_loop_ends:
  "length clock < length loads \<Longrightarrow> \<exists>now \<in> set clock. now \<ge> atime \<Longrightarrow> \<exists>r. until_loop e atime loads clock = Some r"
proof (induction e atime loads clock rule: until_loop.induct)
  case (2 e atime v loads clock)
  show ?case
  proof (cases "v = e")
    case True
    with 2 show ?thesis by (cases clock) auto
  next
    case False
    from 2(2,3) have "loads \<noteq> []" by (cases clock) auto
    with False show ?thesis by (cases loads) auto
  qed
qed simp

lemma spin_suffix: "spin n e loads = Some (b, rest) \<Longrightarrow>
   \<exists>k \<le> n. \<exists>pre. loads = pre @ rest \<and> length pre = k \<and> (b = (\<exists>v \<in> set pre. v \<noteq> e))"
proof (induction n e loads rule: spin.induct)
  case (3 n e v loads)
  show ?case
  proof (cases "v = e")
    case False
    with 3(2) have "b" "rest = loads" by auto
    with False show ?thesis by (intro exI [of _ 1]) (auto intro: exI [of _ "[v]"])
  next
    case True
    with 3 obtain k pre where "k \<le> n" "loads = pre @ rest" "length pre = k" "b = (\<exists>v \<in> set pre. v \<noteq> e)" by auto
    with True show ?thesis by (intro exI [of _ "Suc k"]) (auto intro: exI [of _ "v # pre"])
  qed
qed auto

lemma spin_returns: "n \<le> length loads \<Longrightarrow> spin n e loads \<noteq> None"
  by (induction n e loads rule: spin.induct) auto

lemma wait_until_facts:
  "(wait_until e atime loads clock = Some True \<longrightarrow> (\<exists>v \<in> set loads. v \<noteq> e)) \<and>
   (wait_until e atime loads clock = Some False \<and> sorted_wrt (\<lambda>v w. v \<noteq> e \<longrightarrow> w \<noteq> e) loads \<longrightarrow>
      (\<exists>now \<in> set clock. now \<ge> atime)) \<and>
   (SPIN_TIMES + length clock < length loads \<and> (\<exists>now \<in> set clock. now \<ge> atime) \<longrightarrow>
      (\<exists>r. wait_until e atime loads clock = Some r))"
proof (cases "spin SPIN_TIMES e loads")
  case None
  then have "length loads < SPIN_TIMES" using spin_returns [of SPIN_TIMES loads e] by linarith
  with None show ?thesis by (simp add: wait_until_def)
next
  case (Some br)
  obtain b rest where br: "br = (b, rest)" by (cases br)
  obtain pre where pre: "loads = pre @ rest" "length pre \<le> SPIN_TIMES" "b = (\<exists>v \<in> set pre. v \<noteq> e)"
    using spin_suffix [OF Some [unfolded br]] by blast
  show ?thesis
  proof (cases b)
    case True
    with Some br pre show ?thesis by (auto simp: wait_until_def)
  next
    case False
    with Some br have w: "wait_until e atime loads clock = until_loop e atime rest clock"
      by (simp add: wait_until_def)
    have "SPIN_TIMES + length clock < length loads \<Longrightarrow> length clock < length rest" using pre by simp
    with w until_loop_True [of e atime rest clock] until_loop_False [of e atime rest clock]
      until_loop_ends [of clock rest atime e] pre show ?thesis by (auto simp: sorted_wrt_append)
  qed
qed



section \<open>\<open>wait_for_impl\<close>\<close>

text \<open>
  Durations in nanoseconds. \<open>duration_cast<seconds>\<close> truncates towards zero.
\<close>

record timespec =
  tv_sec :: int
  tv_nsec :: int

definition nsecs :: int where
  "nsecs = 1000000000"

definition duration_cast_seconds :: "int \<Rightarrow> int" where
  "duration_cast_seconds d = (if d \<ge> 0 then d div nsecs else - ((- d) div nsecs))"

definition deadline :: "timespec \<Rightarrow> int \<Rightarrow> timespec" where
  "deadline now d = (let s = duration_cast_seconds d; ns = d - s * nsecs;
       ts = now\<lparr>tv_sec := tv_sec now + s, tv_nsec := tv_nsec now + ns\<rparr>
     in if tv_nsec ts \<ge> nsecs then ts\<lparr>tv_sec := tv_sec ts + 1, tv_nsec := tv_nsec ts - nsecs\<rparr> else ts)"

definition valid_timespec :: "timespec \<Rightarrow> bool" where
  "valid_timespec ts \<longleftrightarrow> 0 \<le> tv_nsec ts \<and> tv_nsec ts < nsecs"

definition total_ns :: "timespec \<Rightarrow> int" where
  "total_ns ts = tv_sec ts * nsecs + tv_nsec ts"

text \<open>The answers of the system call: the retry loop repeats on \<open>EINTR\<close>.\<close>

datatype futex_result = FOk | EAGAIN | ETIMEDOUT | EINTR | EOTHER

fun wait_for_impl :: "futex_result list \<Rightarrow> bool option" where
  "wait_for_impl [] = None"
| "wait_for_impl (r # rs) = (case r of
     EINTR \<Rightarrow> wait_for_impl rs
   | ETIMEDOUT \<Rightarrow> Some False
   | _ \<Rightarrow> Some True)"

lemma seconds_split:
  "0 \<le> d \<Longrightarrow> 0 \<le> d - duration_cast_seconds d * nsecs \<and> d - duration_cast_seconds d * nsecs < nsecs"
  "d < 0 \<Longrightarrow> - nsecs < d - duration_cast_seconds d * nsecs \<and> d - duration_cast_seconds d * nsecs \<le> 0"
proof -
  have dm: "x - x div nsecs * nsecs = x mod nsecs" for x :: int by (simp add: minus_div_mult_eq_mod)
  have m: "0 \<le> x mod nsecs" "x mod nsecs < nsecs" for x :: int by (simp_all add: nsecs_def)
  show "0 \<le> d \<Longrightarrow> 0 \<le> d - duration_cast_seconds d * nsecs \<and> d - duration_cast_seconds d * nsecs < nsecs"
    using dm [of d] m [of d] by (simp add: duration_cast_seconds_def)
  show "d < 0 \<Longrightarrow> - nsecs < d - duration_cast_seconds d * nsecs \<and> d - duration_cast_seconds d * nsecs \<le> 0"
    using dm [of "- d"] m [of "- d"] by (simp add: duration_cast_seconds_def)
qed

text \<open>
  The deadline handed to the kernel is the present plus the duration, whatever the
  sign, and for a duration that is not negative it is a valid \<open>timespec\<close>. A negative
  duration, which \<open>wait_until_impl\<close> produces when the clock passes the deadline after the
  check, can give a negative \<open>tv_nsec\<close>.
\<close>

theorem deadline_exact:
  assumes "valid_timespec now"
  shows "total_ns (deadline now d) = total_ns now + d \<and> (0 \<le> d \<longrightarrow> valid_timespec (deadline now d)) \<and>
    (d < 0 \<longrightarrow> (valid_timespec (deadline now d) \<longleftrightarrow> 0 \<le> tv_nsec now + (d - duration_cast_seconds d * nsecs)))"
proof -
  let ?s = "duration_cast_seconds d"
  let ?ns = "d - ?s * nsecs"
  have n: "0 \<le> tv_nsec now" "tv_nsec now < nsecs" using assms by (simp_all add: valid_timespec_def)
  have t: "(tv_sec now + ?s) * nsecs + (tv_nsec now + ?ns) = total_ns now + d"
    "(tv_sec now + ?s + 1) * nsecs + (tv_nsec now + ?ns - nsecs) = total_ns now + d"
    by (simp_all add: total_ns_def algebra_simps)
  show ?thesis
  proof (cases "tv_nsec now + ?ns \<ge> nsecs")
    case True
    then have d: "deadline now d = now\<lparr>tv_sec := tv_sec now + ?s + 1, tv_nsec := tv_nsec now + ?ns - nsecs\<rparr>"
      by (simp add: deadline_def Let_def)
    have "total_ns (deadline now d) = total_ns now + d" using t(2) by (simp add: d total_ns_def)
    moreover have "\<not> d < 0" using seconds_split(2) [of d] True n by linarith
    moreover have "0 \<le> d \<Longrightarrow> tv_nsec now + ?ns - nsecs < nsecs" using seconds_split(1) [of d] n by linarith
    then have "0 \<le> d \<longrightarrow> valid_timespec (deadline now d)" using True by (simp add: d valid_timespec_def)
    ultimately show ?thesis by simp
  next
    case False
    then have d: "deadline now d = now\<lparr>tv_sec := tv_sec now + ?s, tv_nsec := tv_nsec now + ?ns\<rparr>"
      by (simp add: deadline_def Let_def)
    have "total_ns (deadline now d) = total_ns now + d" using t(1) by (simp add: d total_ns_def)
    moreover have "0 \<le> d \<Longrightarrow> 0 \<le> tv_nsec now + ?ns" using seconds_split(1) [of d] n by linarith
    then have "0 \<le> d \<longrightarrow> valid_timespec (deadline now d)" using False by (simp add: d valid_timespec_def)
    moreover have "valid_timespec (deadline now d) \<longleftrightarrow> 0 \<le> tv_nsec now + ?ns"
      using False by (simp add: d valid_timespec_def)
    ultimately show ?thesis by simp
  qed
qed

theorem deadline_exact_witness:
  "total_ns (deadline \<lparr>tv_sec = 5, tv_nsec = 900000000\<rparr> 1200000000) = 7100000000"
proof -
  have "valid_timespec \<lparr>tv_sec = 5, tv_nsec = 900000000\<rparr>" by (simp add: valid_timespec_def nsecs_def)
  from deadline_exact [OF this, of 1200000000] show ?thesis by (simp add: total_ns_def nsecs_def)
qed

section \<open>Sizes and read-modify-write\<close>

definition get_alignment :: "nat \<Rightarrow> nat option" where
  "get_alignment sz =
     (if sz \<le> 1 then Some 1 else if sz \<le> 2 then Some 2 else if sz \<le> 4 then Some 4
      else if sz \<le> 8 then Some 8 else None)"

definition FUTEX2_SIZE_FLAG :: "nat \<Rightarrow> u32" where
  "FUTEX2_SIZE_FLAG sz =
     (if sz = 1 then 0 else if sz \<le> 2 then 1 else if sz \<le> 4 then 2 else if sz \<le> 8 then 3 else -1)"

text \<open>
  For every admitted size the alignment forced on the cell is the futex size, two to the
  power of the flag, and the least of the four that the value fits in; a larger value does
  not compile.
\<close>

theorem futex_size_matches_alignment:
  "(sz \<in> {1..8} \<longrightarrow> get_alignment sz = Some (2 ^ unat (FUTEX2_SIZE_FLAG sz)) \<and>
      sz \<le> 2 ^ unat (FUTEX2_SIZE_FLAG sz) \<and>
      (\<forall>k. sz \<le> 2 ^ k \<longrightarrow> unat (FUTEX2_SIZE_FLAG sz) \<le> k)) \<and>
   (8 < sz \<longrightarrow> get_alignment sz = None \<and> 3 < FUTEX2_SIZE_FLAG sz)"
proof -
  have least: "n \<le> k" if "2 ^ n < 2 * sz" "sz \<le> 2 ^ k" for n k
  proof -
    have "(2 :: nat) ^ n < 2 ^ Suc k" using that by simp
    then have "n < Suc k" by (rule power_less_imp_less_exp [rotated]) simp
    then show ?thesis by simp
  qed
  have "sz \<in> {1..8} \<Longrightarrow> sz = 1 \<or> sz = 2 \<or> sz = 3 \<or> sz = 4 \<or> sz = 5 \<or> sz = 6 \<or> sz = 7 \<or> sz = 8"
    by auto
  then show ?thesis
    using least [of 0] least [of 1] least [of 2] least [of 3]
    by (auto simp: get_alignment_def FUTEX2_SIZE_FLAG_def)
qed

theorem futex_size_matches_alignment_witness: "get_alignment 3 = Some (2 ^ unat (FUTEX2_SIZE_FLAG 3))"
  using futex_size_matches_alignment [of 3] by simp

definition wa_load :: "'v \<Rightarrow> 'v" where "wa_load m = m"
definition wa_store :: "'v \<Rightarrow> 'v \<Rightarrow> 'v" where "wa_store d m = d"

definition wa_cas_strong :: "'v \<Rightarrow> 'v \<Rightarrow> 'v \<Rightarrow> bool \<times> 'v \<times> 'v" where
  "wa_cas_strong expected desired m = (if m = expected then (True, expected, desired) else (False, m, m))"

definition wa_cas_weak :: "bool \<Rightarrow> 'v \<Rightarrow> 'v \<Rightarrow> 'v \<Rightarrow> bool \<times> 'v \<times> 'v" where
  "wa_cas_weak spurious expected desired m = (if m = expected \<and> \<not> spurious then (True, expected, desired) else (False, m, m))"

unbundle bit_operations_syntax

definition wa_fetch_add :: "'a::len word \<Rightarrow> 'a word \<Rightarrow> 'a word \<times> 'a word" where "wa_fetch_add v m = (m, m + v)"
definition wa_fetch_sub :: "'a::len word \<Rightarrow> 'a word \<Rightarrow> 'a word \<times> 'a word" where "wa_fetch_sub v m = (m, m - v)"
definition wa_fetch_and :: "'a::len word \<Rightarrow> 'a word \<Rightarrow> 'a word \<times> 'a word" where "wa_fetch_and v m = (m, m AND v)"
definition wa_fetch_or :: "'a::len word \<Rightarrow> 'a word \<Rightarrow> 'a word \<times> 'a word" where "wa_fetch_or v m = (m, m OR v)"
definition wa_fetch_xor :: "'a::len word \<Rightarrow> 'a word \<Rightarrow> 'a word \<times> 'a word" where "wa_fetch_xor v m = (m, m XOR v)"

end
