(* ===== verification/Futex.thy ===== *)
theory Futex
  imports Waitable_Atomic
begin

text \<open>
  Waiters against writers on one \<open>waitable_atomic\<close> (\<open>include/waitable_atomic.hpp\<close>): the loads
  and blocking calls of \<open>wait\<close>, stores followed by \<open>notify_all\<close> or \<open>notify_one\<close>. The kernel's
  part is documented behaviour: a futex wait compares and goes to sleep in one step.
\<close>

section \<open>The machine\<close>

text \<open>
  A waiter loads the cell, spinning or in the blocking loop; calls \<open>wait_impl\<close>; sleeps; has
  returned. A writer has stored and is about to notify all waiters or one.
\<close>

datatype waiter_pc = WLoad | WCall | WAsleep | WReturned

datatype writer_pc = NIdle | NAll | NOne

record 'v futex =
  cell :: 'v
  waiting :: "waiter_pc list"
  writers :: "writer_pc list"

definition futex_init :: "'v \<Rightarrow> nat \<Rightarrow> nat \<Rightarrow> 'v futex" where
  "futex_init v n m = \<lparr>cell = v, waiting = replicate n WLoad, writers = replicate m NIdle\<rparr>"

datatype 'v fxact = WaiterStep nat | Interrupt nat | StoreAll nat 'v | StoreOne nat 'v | NotifyAll nat | NotifyOne nat nat

fun waiter_step :: "'v \<Rightarrow> nat \<Rightarrow> waiter_pc \<Rightarrow> 'v futex \<Rightarrow> 'v futex option" where
  "waiter_step e i WLoad s = Some (s\<lparr>waiting := (waiting s)[i := (if cell s = e then WCall else WReturned)]\<rparr>)"
| "waiter_step e i WCall s = Some (s\<lparr>waiting := (waiting s)[i := (if cell s = e then WAsleep else WLoad)]\<rparr>)"
| "waiter_step e i pc s = None"

definition wake :: "waiter_pc \<Rightarrow> waiter_pc" where
  "wake pc = (if pc = WAsleep then WLoad else pc)"

definition store_then :: "writer_pc \<Rightarrow> nat \<Rightarrow> 'v \<Rightarrow> 'v futex \<Rightarrow> 'v futex option" where
  "store_then pc j v s = (if j < length (writers s) \<and> writers s ! j = NIdle
     then Some (s\<lparr>cell := wa_store v (cell s), writers := (writers s)[j := pc]\<rparr>) else None)"

definition notify_all :: "nat \<Rightarrow> 'v futex \<Rightarrow> 'v futex option" where
  "notify_all j s = (if j < length (writers s) \<and> writers s ! j = NAll
     then Some (s\<lparr>waiting := map wake (waiting s), writers := (writers s)[j := NIdle]\<rparr>) else None)"

definition notify_one :: "nat \<Rightarrow> nat \<Rightarrow> 'v futex \<Rightarrow> 'v futex option" where
  "notify_one j i s = (if j < length (writers s) \<and> writers s ! j = NOne \<and>
       (i < length (waiting s) \<and> waiting s ! i = WAsleep \<or> WAsleep \<notin> set (waiting s))
     then Some (s\<lparr>waiting := (waiting s)[i := wake (waiting s ! i)], writers := (writers s)[j := NIdle]\<rparr>) else None)"

fun futex_step :: "'v \<Rightarrow> 'v fxact \<Rightarrow> 'v futex \<Rightarrow> 'v futex option" where
  "futex_step e (WaiterStep i) s = (if i < length (waiting s) then waiter_step e i (waiting s ! i) s else None)"
| "futex_step e (Interrupt i) s = (if i < length (waiting s) \<and> waiting s ! i = WAsleep
     then Some (s\<lparr>waiting := (waiting s)[i := WLoad]\<rparr>) else None)"
| "futex_step e (StoreAll j v) s = store_then NAll j v s"
| "futex_step e (StoreOne j v) s = store_then NOne j v s"
| "futex_step e (NotifyAll j) s = notify_all j s"
| "futex_step e (NotifyOne j i) s = notify_one j i s"

section \<open>No lost wake-up\<close>

fun notifies_all :: "'v fxact \<Rightarrow> bool" where
  "notifies_all (StoreOne j v) = False" | "notifies_all a = True"

definition futex_inv :: "'v \<Rightarrow> 'v futex \<Rightarrow> bool" where
  "futex_inv e s \<longleftrightarrow> NOne \<notin> set (writers s) \<and> (WAsleep \<in> set (waiting s) \<and> cell s \<noteq> e \<longrightarrow> NAll \<in> set (writers s))"

lemma in_set_update: "x \<in> set (xs[i := y]) \<Longrightarrow> x = y \<or> x \<in> set xs"
  using set_update_subset_insert by fastforce

lemma wake_all: "WAsleep \<notin> set (map wake xs)"
  by (auto simp: wake_def split: if_splits)

lemma futex_inv_step:
  assumes inv: "futex_inv e s" and ok: "notifies_all a" and st: "futex_step e a s = Some s'"
  shows "futex_inv e s'"
proof (cases a)
  case (WaiterStep i)
  with st have "waiter_step e i (waiting s ! i) s = Some s'" by (simp split: if_splits)
  with inv show ?thesis
    by (cases "waiting s ! i") (auto simp: futex_inv_def split: if_splits dest!: in_set_update)
next
  case (Interrupt i)
  with st inv show ?thesis by (auto simp: futex_inv_def split: if_splits dest!: in_set_update)
next
  case (StoreAll j v)
  with st inv show ?thesis
    by (auto simp: store_then_def futex_inv_def split: if_splits dest!: in_set_update intro: set_update_memI)
next
  case (NotifyAll j)
  with st inv wake_all [of "waiting s"] show ?thesis
    by (auto simp: notify_all_def futex_inv_def split: if_splits dest!: in_set_update)
next
  case (NotifyOne j i)
  with st inv show ?thesis by (auto simp: notify_one_def futex_inv_def in_set_conv_nth split: if_splits)
qed (use ok in simp)

lemma futex_inv_init: "futex_inv e (futex_init v n m)"
  by (simp add: futex_inv_def futex_init_def)

interpretation futexes: machine_inv_on "futex_step e" notifies_all "futex_init v n m" "futex_inv e" for e v n m
  by unfold_locales (auto intro: futex_inv_init futex_inv_step)

text \<open>
  No wake-up is lost. Among any number of waiters for a change from \<open>e\<close> and of writers that
  notify all after each store, a waiter sleeps while the cell differs from \<open>e\<close> only as long
  as some writer has still to notify, and that notification wakes every sleeper; so once the
  writers are through, only a cell that holds \<open>e\<close> has sleepers. And a waiter that wakes up
  returns with its next load when the cell still differs.
\<close>

theorem futex_no_lost_wakeup:
  assumes "run (futex_step e) as (futex_init v n m) = Some s" and "\<forall>a \<in> set as. notifies_all a"
    and "WAsleep \<in> set (waiting s)" and "cell s \<noteq> e"
  shows "\<exists>j s'. futex_step e (NotifyAll j) s = Some s' \<and> cell s' = cell s \<and> WAsleep \<notin> set (waiting s') \<and>
    (\<forall>i < length (waiting s). waiting s ! i = WAsleep \<longrightarrow>
       (\<exists>s''. futex_step e (WaiterStep i) s' = Some s'' \<and> waiting s'' ! i = WReturned))"
proof -
  have "futex_inv e s" using futexes.init_run_inv_on [OF assms(1,2)] .
  with assms(3,4) obtain j where j: "j < length (writers s)" "writers s ! j = NAll"
    by (auto simp: futex_inv_def in_set_conv_nth)
  let ?t = "s\<lparr>waiting := map wake (waiting s), writers := (writers s)[j := NIdle]\<rparr>"
  have "futex_step e (NotifyAll j) s = Some ?t" using j by (simp add: notify_all_def)
  moreover have "WAsleep \<notin> set (waiting ?t)" using wake_all by simp
  moreover have "\<exists>s''. futex_step e (WaiterStep i) ?t = Some s'' \<and> waiting s'' ! i = WReturned"
    if "i < length (waiting s)" "waiting s ! i = WAsleep" for i
    using that assms(4) by (simp add: wake_def)
  ultimately show ?thesis by (intro exI [of _ j] exI [of _ ?t]) simp
qed

theorem futex_no_lost_wakeup_witness:
  "\<exists>s. run (futex_step (0::nat)) [WaiterStep 0, WaiterStep 0, StoreAll 0 1] (futex_init 0 1 1) = Some s \<and>
     (\<exists>j s'. futex_step 0 (NotifyAll j) s = Some s' \<and> WAsleep \<notin> set (waiting s'))"
proof -
  have "\<exists>s. run (futex_step (0::nat)) [WaiterStep 0, WaiterStep 0, StoreAll 0 1] (futex_init 0 1 1) = Some s \<and>
     waiting s = [WAsleep] \<and> cell s = 1"
    by (simp add: futex_init_def store_then_def wa_store_def)
  then obtain s where s: "run (futex_step (0::nat)) [WaiterStep 0, WaiterStep 0, StoreAll 0 1] (futex_init 0 1 1) = Some s"
     "waiting s = [WAsleep]" "cell s = 1" by (elim exE conjE)
  have "\<forall>a \<in> set [WaiterStep 0, WaiterStep 0, StoreAll 0 (1::nat)]. notifies_all a" by simp
  from futex_no_lost_wakeup [OF s(1) this] s show ?thesis by auto
qed

text \<open>Notifying one waiter after a store leaves the others asleep on a cell that has changed.\<close>

theorem notify_one_leaves_sleepers:
  "\<exists>s. run (futex_step (0::nat)) [WaiterStep 0, WaiterStep 0, WaiterStep 1, WaiterStep 1, StoreOne 0 1, NotifyOne 0 1]
     (futex_init 0 2 1) = Some s \<and> waiting s = [WAsleep, WLoad] \<and> writers s = [NIdle] \<and> cell s = 1"
  by (simp add: futex_init_def store_then_def wa_store_def notify_one_def wake_def numeral_2_eq_2)

end
