(* ===== verification/Waitable_Future.thy ===== *)
theory Waitable_Future
  imports Future_Await Futex
begin

text \<open>
  \<open>WaitableFuture\<close> (\<open>coro.hpp\<close>) over its cell: the machine of \<open>Future_Await\<close>, whose owner waits in
  one step, composed with the machine of \<open>Futex\<close>, in which the threads inside \<open>wait\<close> load, block
  and are woken and \<open>set_valid\<close> is a store and a notification. \<open>valid\<close> and the timed waits are
  functions of what they observe of a run.
\<close>

section \<open>The machine\<close>

record 'v wfut =
  wfs :: "'v fsys"
  wx :: "bool futex"
  wfbad :: "fault option"

definition wfut_init :: "handle \<Rightarrow> kind \<Rightarrow> bool \<Rightarrow> nat \<Rightarrow> 'v wfut" where
  "wfut_init h k n threads = \<lparr>wfs = fsys_init True h k n, wx = futex_init False threads 1, wfbad = None\<rparr>"

text \<open>
  The child's next access; an access of thread \<open>i\<close> inside \<open>wait\<close>, or the kernel waking it for nothing;
  the owner going on after the \<open>wait\<close> of thread \<open>i\<close> has returned; any other action of
  \<open>Future_Await\<close> (the body ending, the parent, \<open>get\<close>, the destruction of the frame).
\<close>

datatype 'v wfact = WChild | WThread nat | WSpurious nat | WOwner nat | WOther "'v fact"

text \<open>The two accesses of \<open>set_valid\<close>, on the cell.\<close>

fun set_valid :: "child_pc \<Rightarrow> bool fxact option" where
  "set_valid CFinal = Some (StoreAll 0 True)"
| "set_valid CNotify = Some (NotifyAll 0)"
| "set_valid pc = None"

text \<open>An access of the cell, which is part of the frame.\<close>

definition on_cell :: "bool fxact \<Rightarrow> 'v wfut \<Rightarrow> 'v wfut option" where
  "on_cell b s = (case futex_step False b (wx s) of
     None \<Rightarrow> None
   | Some x \<Rightarrow> Some (if frame_alive (wfs s) then s\<lparr>wx := x\<rparr> else s\<lparr>wfbad := Some UseAfterFree\<rparr>))"

definition on_future :: "'v fact \<Rightarrow> 'v wfut \<Rightarrow> 'v wfut option" where
  "on_future a s = (case fstep a (wfs s) of None \<Rightarrow> None | Some f \<Rightarrow> Some (s\<lparr>wfs := f\<rparr>))"

fun wfut_act :: "'v wfact \<Rightarrow> 'v wfut \<Rightarrow> 'v wfut option" where
  "wfut_act WChild s = (case set_valid (child (wfs s)) of
     None \<Rightarrow> on_future Child_step s
   | Some b \<Rightarrow> (case on_cell b s of None \<Rightarrow> None | Some t \<Rightarrow> on_future Child_step t))"
| "wfut_act (WThread i) s = on_cell (WaiterStep i) s"
| "wfut_act (WSpurious i) s = on_cell (Interrupt i) s"
| "wfut_act (WOwner i) s =
     (if i < length (waiting (wx s)) \<and> waiting (wx s) ! i = WReturned then on_future Wait s else None)"
| "wfut_act (WOther a) s = (if a = Child_step \<or> a = Wait then None else on_future a s)"

definition wfut_step :: "'v wfact \<Rightarrow> 'v wfut \<Rightarrow> 'v wfut option" where
  "wfut_step a s = (if wfbad s \<noteq> None then None else wfut_act a s)"

section \<open>Without races\<close>

text \<open>The discipline of \<open>Future_Await\<close>.\<close>

fun wcalm :: "'v wfact \<Rightarrow> bool" where
  "wcalm (WOther a) = calm a" | "wcalm a = True"

text \<open>The cell is the promise's \<open>m_state\<close>, and the child is the writer that has still to notify.\<close>

definition wfut_inv :: "nat \<Rightarrow> 'v wfut \<Rightarrow> bool" where
  "wfut_inv threads s \<longleftrightarrow> wfbad s = None \<and> finv (wfs s) \<and> futex_inv False (wx s) \<and> waitable (wfs s) \<and>
     cell (wx s) = m_state (wfs s) \<and> (m_state (wfs s) \<longleftrightarrow> child (wfs s) \<noteq> CBody \<and> child (wfs s) \<noteq> CFinal) \<and>
     writers (wx s) = [if child (wfs s) = CNotify then NAll else NIdle] \<and>
     length (waiting (wx s)) = threads \<and> (WReturned \<in> set (waiting (wx s)) \<longrightarrow> m_state (wfs s))"

lemma wfut_inv_init: "wfut_inv threads (wfut_init h k n threads)"
  unfolding wfut_inv_def wfut_init_def
  by (simp add: finv_init futex_inv_init) (auto simp: fsys_init_def futex_init_def)

text \<open>What an action of the future's machine does to the fields that the cell shares.\<close>

lemma fetch_result_frame:
  "waitable (fetch_result s) = waitable s" "m_state (fetch_result s) = m_state s" "child (fetch_result s) = child s"
  by (simp_all add: fetch_result_def touch_def split: prod.split)

lemma fstep_frame:
  assumes "fstep a s = Some s'" and "calm a" and "a \<noteq> Child_step"
  shows "waitable s' = waitable s \<and> m_state s' = m_state s \<and>
    (child s' = child s \<or> child s = CBody \<and> child s' = CFinal)"
  using assms
  by (cases a) (auto simp: fstep_def touch_def await_suspend_def fetch_result_frame split: if_splits sum.splits)

lemma wfut_inv_other:
  assumes inv: "wfut_inv threads s" and st: "fstep a (wfs s) = Some f" and ok: "calm a" "a \<noteq> Child_step"
  shows "wfut_inv threads (s\<lparr>wfs := f\<rparr>)"
proof -
  have "finv f" using inv finv_step [OF _ ok(1) st] by (simp add: wfut_inv_def)
  with fstep_frame [OF st ok] inv show ?thesis unfolding wfut_inv_def by auto
qed

lemma wfut_inv_waiter:
  assumes inv: "wfut_inv threads s" and st: "futex_step False b (wx s) = Some x" and b: "b = WaiterStep i \<or> b = Interrupt i"
  shows "wfut_inv threads (s\<lparr>wx := x\<rparr>)"
proof -
  have fi: "futex_inv False x" using inv b st by (intro futex_inv_step [of False "wx s" b x]) (auto simp: wfut_inv_def)
  have "cell x = cell (wx s) \<and> writers x = writers (wx s) \<and> length (waiting x) = length (waiting (wx s)) \<and>
    (WReturned \<in> set (waiting x) \<longrightarrow> WReturned \<in> set (waiting (wx s)) \<or> cell (wx s))"
  proof -
    have st': "i < length (waiting (wx s))" using st b by (auto split: if_splits)
    show ?thesis using st b st'
      by (cases "waiting (wx s) ! i") (auto split: if_splits dest!: in_set_update)
  qed
  with fi inv show ?thesis unfolding wfut_inv_def by auto
qed

lemma wfut_inv_child:
  assumes inv: "wfut_inv threads s" and st: "wfut_act WChild s = Some s'"
  shows "wfut_inv threads s'"
proof -
  have al: "frame_alive (wfs s)" and W: "waitable (wfs s)" using inv by (simp_all add: wfut_inv_def finv_def)
  have fi: "finv f" if "fstep Child_step (wfs s) = Some f" for f
    using inv finv_step [OF _ _ that] by (simp add: wfut_inv_def)
  show ?thesis
  proof (cases "child (wfs s)")
    case CFinal
    let ?x = "(wx s)\<lparr>cell := True, writers := [NAll]\<rparr>"
    have w: "writers (wx s) = [NIdle]" using inv CFinal by (simp add: wfut_inv_def)
    then have x: "futex_step False (StoreAll 0 True) (wx s) = Some ?x" by (simp add: store_then_def wa_store_def)
    from st CFinal x al obtain f where f: "fstep Child_step (wfs s) = Some f" "s' = s\<lparr>wx := ?x, wfs := f\<rparr>"
      by (auto simp: on_cell_def on_future_def split: option.splits)
    have "f = (wfs s)\<lparr>m_state := True, child := CNotify\<rparr>"
      using f(1) CFinal al W by (simp add: fstep_def touch_def split: if_splits)
    moreover have "futex_inv False ?x"
      by (rule futex_inv_step [OF _ _ x]) (use inv in \<open>simp_all add: wfut_inv_def\<close>)
    ultimately show ?thesis using inv fi [OF f(1)] f(2) by (simp add: wfut_inv_def)
  next
    case CNotify
    let ?x = "(wx s)\<lparr>waiting := map wake (waiting (wx s)), writers := [NIdle]\<rparr>"
    have w: "writers (wx s) = [NAll]" using inv CNotify by (simp add: wfut_inv_def)
    then have x: "futex_step False (NotifyAll 0) (wx s) = Some ?x" by (simp add: notify_all_def)
    from st CNotify x al obtain f where f: "fstep Child_step (wfs s) = Some f" "s' = s\<lparr>wx := ?x, wfs := f\<rparr>"
      by (auto simp: on_cell_def on_future_def split: option.splits)
    have "f = (wfs s)\<lparr>child := CRead1\<rparr>" using f(1) CNotify al by (simp add: fstep_def touch_def split: if_splits)
    moreover have "futex_inv False ?x"
      by (rule futex_inv_step [OF _ _ x]) (use inv in \<open>simp_all add: wfut_inv_def\<close>)
    ultimately show ?thesis using inv fi [OF f(1)] f(2) CNotify by (simp add: wfut_inv_def)
  qed (use st inv fi al in \<open>auto simp: on_future_def fstep_def touch_def wfut_inv_def
        split: option.splits if_splits\<close>)
qed

lemma wfut_inv_step:
  assumes inv: "wfut_inv threads s" and ok: "wcalm a" and st: "wfut_step a s = Some s'"
  shows "wfut_inv threads s'"
proof -
  have st: "wfut_act a s = Some s'" using st by (simp add: wfut_step_def split: if_splits)
  have al: "frame_alive (wfs s)" using inv by (simp add: wfut_inv_def finv_def)
  show ?thesis
  proof (cases a)
    case WChild
    with wfut_inv_child [OF inv] st show ?thesis by simp
  next
    case (WThread i)
    with st al wfut_inv_waiter [OF inv] show ?thesis
      by (auto simp: on_cell_def simp del: futex_step.simps split: option.splits)
  next
    case (WSpurious i)
    with st al wfut_inv_waiter [OF inv] show ?thesis
      by (auto simp: on_cell_def simp del: futex_step.simps split: option.splits)
  next
    case (WOwner i)
    with st wfut_inv_other [OF inv] show ?thesis by (auto simp: on_future_def split: if_splits option.splits)
  next
    case (WOther b)
    with st ok wfut_inv_other [OF inv] show ?thesis by (auto simp: on_future_def split: if_splits option.splits)
  qed
qed

interpretation wfutures: machine_inv_on wfut_step wcalm "wfut_init h k n threads" "wfut_inv threads" for h k n threads
  by unfold_locales (auto intro: wfut_inv_init wfut_inv_step)

section \<open>Waiting for a coroutine\<close>

text \<open>What is left of \<open>set_valid\<close> wakes every sleeper.\<close>

fun to_notify :: "child_pc \<Rightarrow> nat" where
  "to_notify CFinal = 2" | "to_notify CNotify = 1" | "to_notify pc = 0"

lemma notify_wakes:
  assumes inv: "wfut_inv threads s" and fb: "fbad (wfs s) = None" and c: "child (wfs s) = CNotify"
  shows "\<exists>s'. wfut_step WChild s = Some s' \<and> WAsleep \<notin> set (waiting (wx s')) \<and> m_state (wfs s')"
proof -
  have I: "frame_alive (wfs s)" "writers (wx s) = [NAll]" "wfbad s = None" "m_state (wfs s)"
    using inv c by (simp_all add: wfut_inv_def finv_def)
  then have "wfut_step WChild s = Some (s\<lparr>wx := (wx s)\<lparr>waiting := map wake (waiting (wx s)), writers := [NIdle]\<rparr>,
      wfs := (wfs s)\<lparr>child := CRead1\<rparr>\<rparr>)"
    using c fb by (simp add: wfut_step_def on_cell_def notify_all_def on_future_def fstep_def touch_def)
  with I wake_all show ?thesis by auto
qed

lemma set_valid_wakes:
  assumes inv: "wfut_inv threads s" and fb: "fbad (wfs s) = None" and sl: "WAsleep \<in> set (waiting (wx s))"
    and c: "child (wfs s) \<noteq> CBody"
  shows "\<exists>s'. run wfut_step (replicate (to_notify (child (wfs s))) WChild) s = Some s' \<and>
    WAsleep \<notin> set (waiting (wx s')) \<and> m_state (wfs s')"
proof (cases "child (wfs s) = CFinal")
  case True
  have I: "frame_alive (wfs s)" "writers (wx s) = [NIdle]" "wfbad s = None" "waitable (wfs s)"
    using inv True by (simp_all add: wfut_inv_def finv_def)
  let ?r = "s\<lparr>wx := (wx s)\<lparr>cell := True, writers := [NAll]\<rparr>, wfs := (wfs s)\<lparr>m_state := True, child := CNotify\<rparr>\<rparr>"
  have r: "wfut_step WChild s = Some ?r"
    using I True fb by (simp add: wfut_step_def on_cell_def store_then_def wa_store_def on_future_def fstep_def touch_def)
  have "wfut_inv threads ?r" by (rule wfut_inv_step [OF inv _ r]) simp
  from notify_wakes [OF this] fb obtain s' where "wfut_step WChild ?r = Some s'" "WAsleep \<notin> set (waiting (wx s'))"
    "m_state (wfs s')" by auto
  with r True show ?thesis by (intro exI [of _ s']) (simp add: numeral_2_eq_2)
next
  case False
  with inv c have "cell (wx s)" by (auto simp: wfut_inv_def)
  moreover have "futex_inv False (wx s)" using inv by (simp add: wfut_inv_def)
  ultimately have na: "NAll \<in> set (writers (wx s))" using sl by (simp add: futex_inv_def)
  have n: "child (wfs s) = CNotify"
  proof (rule ccontr)
    assume "child (wfs s) \<noteq> CNotify"
    then have "writers (wx s) = [NIdle]" using inv by (simp add: wfut_inv_def)
    with na show False by simp
  qed
  from notify_wakes [OF inv fb n] n show ?thesis by (auto split: option.splits)
qed

lemma awake_returns:
  assumes inv: "wfut_inv threads s" and ms: "m_state (wfs s)" and i: "i < threads" "waiting (wx s) ! i \<noteq> WAsleep"
  shows "\<exists>m \<le> 2. \<exists>s'. run wfut_step (replicate m (WThread i)) s = Some s' \<and> waiting (wx s') ! i = WReturned"
proof -
  have I: "frame_alive (wfs s)" "wfbad s = None" "cell (wx s)" "i < length (waiting (wx s))"
    using inv ms i(1) by (simp_all add: wfut_inv_def finv_def)
  have st: "wfut_step (WThread i) r = Some (r\<lparr>wx := (wx r)\<lparr>waiting := (waiting (wx r))[i := pc]\<rparr>\<rparr>)"
    if "frame_alive (wfs r)" "wfbad r = None" "cell (wx r)" "i < length (waiting (wx r))"
      "waiting (wx r) ! i = WLoad \<and> pc = WReturned \<or> waiting (wx r) ! i = WCall \<and> pc = WLoad" for r pc
    using that by (auto simp: wfut_step_def on_cell_def)
  show ?thesis
  proof (cases "waiting (wx s) ! i")
    case WLoad
    with st [of s WReturned] I show ?thesis by (intro exI [of _ 1]) (simp add: exI)
  next
    case WCall
    with I st [of s WLoad] st [of "s\<lparr>wx := (wx s)\<lparr>waiting := (waiting (wx s))[i := WLoad]\<rparr>\<rparr>" WReturned]
    show ?thesis by (intro exI [of _ 2]) (simp add: numeral_2_eq_2)
  next
    case WReturned
    then show ?thesis by (intro exI [of _ 0]) simp
  qed (use i in simp)
qed


text \<open>The two sides of a state, each reached on its own.\<close>

definition projects :: "handle \<Rightarrow> kind \<Rightarrow> bool \<Rightarrow> nat \<Rightarrow> 'v wfut \<Rightarrow> bool" where
  "projects h k n threads s \<longleftrightarrow> reachable fstep (fsys_init True h k n) (wfs s) \<and>
    (\<exists>xs. run (futex_step False) xs (futex_init False threads 1) = Some (wx s) \<and> (\<forall>x \<in> set xs. notifies_all x))"

lemma projects_cell:
  assumes p: "projects h k n threads s" and st: "on_cell b s = Some s'" and b: "notifies_all b"
  shows "projects h k n threads s'"
proof -
  obtain xs where xs: "run (futex_step False) xs (futex_init False threads 1) = Some (wx s)" "\<forall>x \<in> set xs. notifies_all x"
    using p by (auto simp: projects_def)
  obtain x where x: "futex_step False b (wx s) = Some x"
    "s' = (if frame_alive (wfs s) then s\<lparr>wx := x\<rparr> else s\<lparr>wfbad := Some UseAfterFree\<rparr>)"
    using st by (auto simp: on_cell_def split: option.splits)
  have "run (futex_step False) (xs @ [b]) (futex_init False threads 1) = Some x" using xs(1) x(1) by (simp add: run_append)
  moreover have "\<forall>y \<in> set (xs @ [b]). notifies_all y" using xs(2) b by simp
  moreover have "wfs s' = wfs s" "wx s' = x \<or> wx s' = wx s" using x(2) by simp_all
  ultimately show ?thesis using xs p unfolding projects_def by metis
qed

lemma projects_future: "projects h k n threads s \<Longrightarrow> on_future a s = Some s' \<Longrightarrow> projects h k n threads s'"
  by (auto simp: projects_def on_future_def split: option.splits intro: reachable_step)

lemma projects_step:
  assumes p: "projects h k n threads s" and "wfut_step a s = Some s'"
  shows "projects h k n threads s'"
proof -
  have st: "wfut_act a s = Some s'" using assms(2) by (simp add: wfut_step_def split: if_splits)
  show ?thesis
  proof (cases a)
    case WChild
    show ?thesis
    proof (cases "set_valid (child (wfs s))")
      case None
      with WChild st projects_future [OF p] show ?thesis by simp
    next
      case (Some b)
      then have "notifies_all b" by (cases "child (wfs s)") auto
      moreover obtain t where "on_cell b s = Some t" "on_future Child_step t = Some s'"
        using WChild Some st by (auto split: option.splits)
      ultimately show ?thesis using projects_cell [OF p] projects_future by blast
    qed
  qed (use st projects_cell [OF p] projects_future [OF p] in \<open>auto split: if_splits\<close>)
qed

lemma projects_init: "projects h k n threads (wfut_init h k n threads)"
  by (auto simp: projects_def wfut_init_def intro: exI [of _ "[]"])

interpretation wprojection: machine_inv wfut_step "wfut_init h k n threads" "projects h k n threads" for h k n threads
  by unfold_locales (auto intro: projects_init projects_step)


section \<open>\<open>valid\<close> and the timed waits\<close>

text \<open>
  The timed waits load \<open>m_state\<close> now and then: \<open>seen\<close> are the states of the coroutine at these
  loads, in order, and \<open>clock\<close> the readings of the clock.
\<close>

definition valid :: "'v fsys \<Rightarrow> bool" where
  "valid s \<longleftrightarrow> m_state s \<noteq> False"

definition future_wait_until :: "int \<Rightarrow> 'v fsys list \<Rightarrow> int list \<Rightarrow> bool option" where
  "future_wait_until atime seen clock = Waitable_Atomic.wait_until False atime (map m_state seen) clock"

definition future_wait_for :: "int \<Rightarrow> 'v fsys list \<Rightarrow> int list \<Rightarrow> bool option" where
  "future_wait_for dur seen clock = wait_for False dur (map m_state seen) clock"

text \<open>The states at given points of a run, which may come again before the coroutine moves.\<close>

definition seen_at :: "nat list \<Rightarrow> 'v fact list \<Rightarrow> 'v fsys \<Rightarrow> 'v fsys list" where
  "seen_at ks as s = map (\<lambda>k. the (run fstep (take k as) s)) ks"

lemma m_state_stays: "fstep a s = Some s' \<Longrightarrow> m_state s \<Longrightarrow> m_state s'"
proof (cases "a = Child_step")
  case True
  then show "fstep a s = Some s' \<Longrightarrow> m_state s \<Longrightarrow> m_state s'"
    by (cases "child s") (auto simp: fstep_def touch_def split: if_splits)
next
  case False
  then show "fstep a s = Some s' \<Longrightarrow> m_state s \<Longrightarrow> m_state s'"
    by (cases a) (auto simp: fstep_def touch_def await_suspend_def fetch_result_frame split: if_splits sum.splits)
qed

lemma m_state_run: "run fstep as s = Some s' \<Longrightarrow> m_state s \<Longrightarrow> m_state s'"
  by (induction as arbitrary: s) (auto split: option.splits dest: m_state_stays)

lemma run_take:
  assumes "run step as s = Some s'"
  obtains r where "run step (take k as) s = Some r"
  using assms by (metis append_take_drop_id option.exhaust option.simps(3,4) run_append)

lemma seen_monotone:
  assumes "run fstep as s = Some s'" and "k \<le> l" and "m_state (the (run fstep (take k as) s))"
  shows "m_state (the (run fstep (take l as) s))"
proof -
  obtain r where r: "run fstep (take k as) s = Some r" using run_take [OF assms(1)] .
  obtain r' where r': "run fstep (take l as) s = Some r'" using run_take [OF assms(1)] .
  have "take l as = take k as @ take (l - k) (drop k as)"
    using assms(2) by (metis le_add_diff_inverse take_add)
  with r r' have "run fstep (take (l - k) (drop k as)) r = Some r'" by (simp add: run_append)
  with assms(3) r r' show ?thesis by (simp add: m_state_run)
qed

text \<open>
  The timed waits of a \<open>WaitableFuture\<close> tell the truth. Over what they load in the course of a run
  without races, \<open>wait_until\<close> answers true only when the body has ended, so that \<open>get\<close> will give
  its outcome, and false only when the clock has reached the deadline; \<open>valid\<close> is
  true only after the end of the body; and once the clock reaches the deadline the wait ends.
\<close>

theorem future_timed_wait:
  assumes "run fstep as (fsys_init True h k n) = Some s'" and "\<forall>a \<in> set as. calm a" and "sorted ks"
    and "seen = seen_at ks as (fsys_init True h k n)"
  shows "(future_wait_until atime seen clock = Some True \<longrightarrow> (\<exists>s \<in> set seen. \<exists>oc. outc s = Some oc \<and>
      (read s = None \<longrightarrow> fst (promise_get (prom s)) = outcome_got (pkind (prom s)) oc))) \<and>
    (future_wait_until atime seen clock = Some False \<longrightarrow> (\<exists>now \<in> set clock. now \<ge> atime)) \<and>
    (\<forall>s \<in> set seen. valid s \<longrightarrow> outc s \<noteq> None) \<and>
    (SPIN_TIMES + length clock < length seen \<and> (\<exists>now \<in> set clock. now \<ge> atime) \<longrightarrow>
      (\<exists>r. future_wait_until atime seen clock = Some r))"
proof -
  have inv: "finv s" if s: "s \<in> set seen" for s
  proof -
    obtain j where j: "s = the (run fstep (take j as) (fsys_init True h k n))" using s assms(4) by (auto simp: seen_at_def)
    obtain r where r: "run fstep (take j as) (fsys_init True h k n) = Some r" using run_take [OF assms(1)] .
    have "finv r" using r assms(2) by (intro future_calm.init_run_inv_on [OF r]) (auto dest: in_set_takeD)
    with r j show ?thesis by simp
  qed
  have ended: "\<exists>oc. outc s = Some oc \<and> (read s = None \<longrightarrow> fst (promise_get (prom s)) = outcome_got (pkind (prom s)) oc)"
    if s: "s \<in> set seen" "m_state s" for s
  proof -
    have "child s \<noteq> CBody" "value_inv s" using inv [OF s(1)] s(2) by (auto simp: finv_def)
    then show ?thesis by (auto simp: value_inv_def)
  qed
  have "sorted_wrt (\<lambda>v w. v \<noteq> False \<longrightarrow> w \<noteq> False) (map m_state seen)"
    unfolding assms(4) seen_at_def sorted_wrt_map
    by (rule sorted_wrt_mono_rel [OF _ assms(3)]) (use seen_monotone [OF assms(1)] in auto)
  then have W: "(future_wait_until atime seen clock = Some True \<longrightarrow> (\<exists>v \<in> set (map m_state seen). v \<noteq> False)) \<and>
    (future_wait_until atime seen clock = Some False \<longrightarrow> (\<exists>now \<in> set clock. now \<ge> atime)) \<and>
    (SPIN_TIMES + length clock < length seen \<and> (\<exists>now \<in> set clock. now \<ge> atime) \<longrightarrow>
      (\<exists>r. future_wait_until atime seen clock = Some r))"
    using wait_until_facts [of False atime "map m_state seen" clock] by (simp only: future_wait_until_def length_map) blast
  then have "future_wait_until atime seen clock = Some True \<longrightarrow> (\<exists>s \<in> set seen. m_state s)" by auto
  moreover have "\<forall>s \<in> set seen. valid s \<longrightarrow> outc s \<noteq> None" using ended by (auto simp: valid_def)
  ultimately show ?thesis using W ended by blast
qed

section \<open>Concrete runs\<close>

lemmas wfut_eval = wfut_step_def wfut_init_def on_cell_def on_future_def futex_init_def store_then_def
  notify_all_def wa_store_def wake_def future_eval

text \<open>Two threads wait, one is asleep when the body ends, the other is still between its load and the call.\<close>

definition wait_demo :: "nat wfact list" where
  "wait_demo = [WThread 0, WThread 0, WThread 1, WOther (Finish_body (OValue 42)), WChild, WThread 1]"

definition wait_demo_rest :: "nat wfact list" where
  "wait_demo_rest = [WChild, WThread 0, WOwner 0, WOther Owner_get]"

lemma wait_demo_run:
  "\<exists>s. run wfut_step wait_demo (wfut_init 3 ByValue False 2) = Some s \<and> waiting (wx s) = [WAsleep, WLoad] \<and>
     fbad (wfs s) = None \<and> child (wfs s) = CNotify \<and> m_state (wfs s) \<and> outc (wfs s) = Some (OValue 42)"
  by (simp add: wait_demo_def wfut_eval numeral_2_eq_2)



text \<open>A wait that spins a thousand times before the body ends, then blocks and sees the end.\<close>

lemma seen_demo:
  "\<exists>s. run fstep [Finish_body (OValue (42::nat)), Child_step] (fsys_init True 3 ByValue False) = Some s \<and>
     future_wait_until 5 (seen_at (replicate 1000 0 @ [2, 2]) [Finish_body (OValue (42::nat)), Child_step]
       (fsys_init True 3 ByValue False)) [] = Some True"
proof -
  have spin: "spin n False (replicate n False @ rest) = Some (False, rest)" for n rest
    by (induction n) simp_all
  have "map m_state (seen_at (replicate 1000 0 @ [2, 2]) [Finish_body (OValue (42::nat)), Child_step]
       (fsys_init True 3 ByValue False)) = replicate SPIN_TIMES False @ [True, True]"
    by (simp add: seen_at_def SPIN_TIMES_def map_replicate_const future_eval)
  then have "future_wait_until 5 (seen_at (replicate 1000 0 @ [2, 2]) [Finish_body (OValue (42::nat)), Child_step]
       (fsys_init True 3 ByValue False)) [] = Some True"
    by (simp add: future_wait_until_def Waitable_Atomic.wait_until_def spin)
  then show ?thesis by (simp add: future_eval)
qed

theorem future_timed_wait_witness:
  "\<exists>seen. seen = seen_at (replicate 1000 0 @ [2, 2]) [Finish_body (OValue (42::nat)), Child_step] (fsys_init True 3 ByValue False) \<and>
     future_wait_until 5 seen [] = Some True \<and> (\<exists>s \<in> set seen. outc s \<noteq> None)"
proof -
  let ?as = "[Finish_body (OValue (42::nat)), Child_step]" and ?ks = "replicate 1000 0 @ [2, 2 :: nat]"
  obtain s where s: "run fstep ?as (fsys_init True 3 ByValue False) = Some s"
    "future_wait_until 5 (seen_at ?ks ?as (fsys_init True 3 ByValue False)) [] = Some True" using seen_demo by blast
  have "\<forall>a \<in> set ?as. calm a" "sorted ?ks" by (simp_all add: sorted_append)
  from future_timed_wait [OF s(1) this refl, of 5 "[]"] s(2) show ?thesis by fastforce
qed

end
