(* ===== verification/Condvar.thy ===== *)
theory Condvar
  imports Futex
begin

text \<open>
  The fallback version of \<open>waitable_atomic\<close> (\<open>include/waitable_atomic.hpp\<close>, neither Linux nor
  Windows): a mutex and a condition variable. Its machine implements the one of \<open>Futex\<close>, which
  is the contract of the cell: waiting compares and goes to sleep in one step, a notification wakes.
\<close>

section \<open>The machine\<close>

text \<open>
  A waiter is at the load of \<open>wait\<close>, about to lock the mutex in \<open>wait_impl\<close>, at the predicate
  with the mutex held, between the predicate and the sleep (the mutex still held), asleep, about
  to lock it again, at the predicate again, about to unlock, or has returned. A writer has stored
  and is about to lock, holds the mutex, or is about to unlock it; it notifies all or one.
\<close>

datatype cv_pc = VLoad | VLock | VCheck | VGoing | VAsleep | VRelock | VRecheck | VUnlock | VReturned

datatype cvn_pc = CIdle | CLock writer_pc | CHold writer_pc | CUnlock

record 'v condvar =
  vcell :: 'v
  mtx :: "(nat + nat) option"
  vwaiting :: "cv_pc list"
  vwriters :: "cvn_pc list"

definition condvar_init :: "'v \<Rightarrow> nat \<Rightarrow> nat \<Rightarrow> 'v condvar" where
  "condvar_init v n m = \<lparr>vcell = v, mtx = None, vwaiting = replicate n VLoad, vwriters = replicate m CIdle\<rparr>"

datatype 'v cvact = VStep nat | VSpurious nat | VStore writer_pc nat 'v | NStep nat nat

definition set_v :: "nat \<Rightarrow> cv_pc \<Rightarrow> 'v condvar \<Rightarrow> 'v condvar" where
  "set_v i pc s = s\<lparr>vwaiting := (vwaiting s)[i := pc]\<rparr>"

definition set_n :: "nat \<Rightarrow> cvn_pc \<Rightarrow> 'v condvar \<Rightarrow> 'v condvar" where
  "set_n j pc s = s\<lparr>vwriters := (vwriters s)[j := pc]\<rparr>"

definition lock_as :: "nat + nat \<Rightarrow> 'v condvar \<Rightarrow> 'v condvar option" where
  "lock_as t s = (if mtx s = None then Some (s\<lparr>mtx := Some t\<rparr>) else None)"

text \<open>\<open>wait_impl\<close>: \<open>cv.wait(lk, pred)\<close> is \<open>while (!pred()) wait(lk)\<close>.\<close>

fun cv_waiter_step :: "'v \<Rightarrow> nat \<Rightarrow> cv_pc \<Rightarrow> 'v condvar \<Rightarrow> 'v condvar option" where
  "cv_waiter_step e i VLoad s = Some (set_v i (if vcell s = e then VLock else VReturned) s)"
| "cv_waiter_step e i VLock s = map_option (set_v i VCheck) (lock_as (Inl i) s)"
| "cv_waiter_step e i VCheck s = Some (set_v i (if vcell s = e then VGoing else VUnlock) s)"
| "cv_waiter_step e i VGoing s = Some ((set_v i VAsleep s)\<lparr>mtx := None\<rparr>)"
| "cv_waiter_step e i VRelock s = map_option (set_v i VRecheck) (lock_as (Inl i) s)"
| "cv_waiter_step e i VRecheck s = Some (set_v i (if vcell s = e then VGoing else VUnlock) s)"
| "cv_waiter_step e i VUnlock s = Some ((set_v i VLoad s)\<lparr>mtx := None\<rparr>)"
| "cv_waiter_step e i pc s = None"

definition cv_wake :: "cv_pc \<Rightarrow> cv_pc" where
  "cv_wake pc = (if pc = VAsleep then VRelock else pc)"

text \<open>\<open>cv.notify_all()\<close>, and \<open>cv.notify_one()\<close> waking the sleeper \<open>k\<close>, if there is one.\<close>

definition cv_notify :: "writer_pc \<Rightarrow> nat \<Rightarrow> 'v condvar \<Rightarrow> 'v condvar option" where
  "cv_notify w k s = (case w of
     NAll \<Rightarrow> Some (s\<lparr>vwaiting := map cv_wake (vwaiting s)\<rparr>)
   | NOne \<Rightarrow> if k < length (vwaiting s) \<and> vwaiting s ! k = VAsleep \<or> VAsleep \<notin> set (vwaiting s)
             then Some (s\<lparr>vwaiting := (vwaiting s)[k := cv_wake (vwaiting s ! k)]\<rparr>) else None
   | NIdle \<Rightarrow> None)"

fun cv_notifier_step :: "nat \<Rightarrow> nat \<Rightarrow> cvn_pc \<Rightarrow> 'v condvar \<Rightarrow> 'v condvar option" where
  "cv_notifier_step j k (CLock w) s = map_option (set_n j (CHold w)) (lock_as (Inr j) s)"
| "cv_notifier_step j k (CHold w) s = map_option (set_n j CUnlock) (cv_notify w k s)"
| "cv_notifier_step j k CUnlock s = Some ((set_n j CIdle s)\<lparr>mtx := None\<rparr>)"
| "cv_notifier_step j k CIdle s = None"

fun condvar_step :: "'v \<Rightarrow> 'v cvact \<Rightarrow> 'v condvar \<Rightarrow> 'v condvar option" where
  "condvar_step e (VStep i) s = (if i < length (vwaiting s) then cv_waiter_step e i (vwaiting s ! i) s else None)"
| "condvar_step e (VSpurious i) s = (if i < length (vwaiting s) \<and> vwaiting s ! i = VAsleep
     then Some (set_v i VRelock s) else None)"
| "condvar_step e (VStore w j v) s = (if w \<noteq> NIdle \<and> j < length (vwriters s) \<and> vwriters s ! j = CIdle
     then Some (set_n j (CLock w) (s\<lparr>vcell := wa_store v (vcell s)\<rparr>)) else None)"
| "condvar_step e (NStep j k) s = (if j < length (vwriters s) then cv_notifier_step j k (vwriters s ! j) s else None)"

section \<open>The mutex\<close>

fun v_holds :: "cv_pc \<Rightarrow> bool" where
  "v_holds VCheck = True" | "v_holds VGoing = True" | "v_holds VRecheck = True" | "v_holds VUnlock = True"
| "v_holds pc = False"

fun n_holds :: "cvn_pc \<Rightarrow> bool" where
  "n_holds (CHold w) = True" | "n_holds CUnlock = True" | "n_holds pc = False"

fun n_ok :: "cvn_pc \<Rightarrow> bool" where
  "n_ok (CLock w) = (w \<noteq> NIdle)" | "n_ok (CHold w) = (w \<noteq> NIdle)" | "n_ok pc = True"

definition mutex_inv :: "'v condvar \<Rightarrow> bool" where
  "mutex_inv s \<longleftrightarrow> (\<forall>i < length (vwaiting s). v_holds (vwaiting s ! i) \<longleftrightarrow> mtx s = Some (Inl i)) \<and>
     (\<forall>j < length (vwriters s). n_holds (vwriters s ! j) \<longleftrightarrow> mtx s = Some (Inr j)) \<and>
     (\<forall>pc \<in> set (vwriters s). n_ok pc)"

lemma set_v_fields [simp]:
  "vcell (set_v i pc s) = vcell s" "mtx (set_v i pc s) = mtx s" "vwriters (set_v i pc s) = vwriters s"
  "vwaiting (set_v i pc s) = (vwaiting s)[i := pc]"
  by (simp_all add: set_v_def)

lemma set_n_fields [simp]:
  "vcell (set_n i pc s) = vcell s" "mtx (set_n i pc s) = mtx s" "vwaiting (set_n i pc s) = vwaiting s"
  "vwriters (set_n i pc s) = (vwriters s)[i := pc]"
  by (simp_all add: set_n_def)

lemma lock_as_Some [simp]: "lock_as t s = Some s' \<longleftrightarrow> mtx s = None \<and> s' = s\<lparr>mtx := Some t\<rparr>"
  by (auto simp: lock_as_def)

lemma cv_wake_simps [simp]: "v_holds (cv_wake pc) = v_holds pc" "cv_wake VAsleep = VRelock"
  by (simp_all add: cv_wake_def)

lemma v_holds_wake [simp]: "i < length xs \<Longrightarrow> v_holds (xs[k := cv_wake (xs ! k)] ! i) = v_holds (xs ! i)"
  by (cases "i = k") simp_all

lemma cv_notify_Some:
  "cv_notify w k s = Some s' \<Longrightarrow> w = NAll \<and> s' = s\<lparr>vwaiting := map cv_wake (vwaiting s)\<rparr> \<or>
   w = NOne \<and> s' = s\<lparr>vwaiting := (vwaiting s)[k := cv_wake (vwaiting s ! k)]\<rparr> \<and>
   (k < length (vwaiting s) \<and> vwaiting s ! k = VAsleep \<or> VAsleep \<notin> set (vwaiting s))"
  by (cases w) (auto simp: cv_notify_def split: if_splits)

lemma mutex_inv_init: "mutex_inv (condvar_init v n m)"
  by (simp add: mutex_inv_def condvar_init_def)

lemma mutex_inv_step:
  assumes inv: "mutex_inv s" and st: "condvar_step e a s = Some s'"
  shows "mutex_inv s'"
proof -
  have I: "\<And>i. i < length (vwaiting s) \<Longrightarrow> v_holds (vwaiting s ! i) \<longleftrightarrow> mtx s = Some (Inl i)"
    "\<And>j. j < length (vwriters s) \<Longrightarrow> n_holds (vwriters s ! j) \<longleftrightarrow> mtx s = Some (Inr j)"
    "\<forall>pc \<in> set (vwriters s). n_ok pc"
    using inv by (simp_all add: mutex_inv_def)
  have ok: "pc' \<in> set ((vwriters s)[j := pc]) \<Longrightarrow> n_ok pc \<Longrightarrow> n_ok pc'" for j pc pc'
    using I(3) by (auto dest: in_set_update)
  show ?thesis
  proof (cases a)
    case (VStep i)
    with st have i: "i < length (vwaiting s)" and w: "cv_waiter_step e i (vwaiting s ! i) s = Some s'"
      by (simp_all split: if_splits)
    from w i I(1) [OF i] I show ?thesis
      by (cases "vwaiting s ! i") (auto simp: mutex_inv_def nth_list_update split: if_splits)
  next
    case (VSpurious i)
    with st have i: "i < length (vwaiting s)" "vwaiting s ! i = VAsleep" "s' = set_v i VRelock s"
      by (simp_all split: if_splits)
    then have "mtx s \<noteq> Some (Inl i)" using I(1) [OF i(1)] by simp
    with i I show ?thesis by (auto simp: mutex_inv_def nth_list_update split: if_splits)
  next
    case (VStore w j v)
    with st have j: "w \<noteq> NIdle" "j < length (vwriters s)" "vwriters s ! j = CIdle"
      "s' = set_n j (CLock w) (s\<lparr>vcell := wa_store v (vcell s)\<rparr>)" by (simp_all split: if_splits)
    then have "mtx s \<noteq> Some (Inr j)" using I(2) [OF j(2)] by simp
    with j I ok [of _ j "CLock w"] show ?thesis by (auto simp: mutex_inv_def nth_list_update split: if_splits)
  next
    case (NStep j k)
    with st have j: "j < length (vwriters s)" and w: "cv_notifier_step j k (vwriters s ! j) s = Some s'"
      by (simp_all split: if_splits)
    show ?thesis
    proof (cases "vwriters s ! j")
      case (CHold x)
      with w obtain t where t: "cv_notify x k s = Some t" "s' = set_n j CUnlock t" by auto
      from cv_notify_Some [OF t(1)] t(2) I(1) I(2) I(3) I(2) [OF j] j CHold ok [of _ j CUnlock] show ?thesis
        by (auto simp: mutex_inv_def nth_list_update split: if_splits)
    next
      case (CLock x)
      then have "n_ok (CLock x)" using I(3) j by (metis nth_mem)
      with w I I(2) [OF j] j CLock ok [of _ j "CHold x"] show ?thesis by (auto simp: mutex_inv_def nth_list_update split: if_splits)
    next
      case CUnlock
      with w I I(2) [OF j] j ok [of _ j CIdle] show ?thesis by (auto simp: mutex_inv_def nth_list_update split: if_splits)
    qed (use w in simp)
  qed
qed

interpretation cvmutex: machine_inv "condvar_step e" "condvar_init v n m" mutex_inv for e v n m
  by unfold_locales (auto intro: mutex_inv_init mutex_inv_step)

section \<open>It implements the contract\<close>

fun abs_waiter :: "cv_pc \<Rightarrow> waiter_pc" where
  "abs_waiter VLoad = WLoad" | "abs_waiter VLock = WCall" | "abs_waiter VCheck = WCall"
| "abs_waiter VGoing = WAsleep" | "abs_waiter VAsleep = WAsleep" | "abs_waiter VRelock = WLoad"
| "abs_waiter VRecheck = WLoad" | "abs_waiter VUnlock = WLoad" | "abs_waiter VReturned = WReturned"

fun abs_writer :: "cvn_pc \<Rightarrow> writer_pc" where
  "abs_writer (CLock w) = w" | "abs_writer (CHold w) = w" | "abs_writer pc = NIdle"

definition abs_cv :: "'v condvar \<Rightarrow> 'v futex" where
  "abs_cv s = \<lparr>cell = vcell s, waiting = map abs_waiter (vwaiting s), writers = map abs_writer (vwriters s)\<rparr>"

text \<open>What a step amounts to in the contract.\<close>

definition cv_acts :: "'v \<Rightarrow> 'v condvar \<Rightarrow> 'v cvact \<Rightarrow> 'v fxact list" where
  "cv_acts e s a = (case a of
     VStep i \<Rightarrow> (case vwaiting s ! i of
         VLoad \<Rightarrow> [WaiterStep i] | VCheck \<Rightarrow> [WaiterStep i]
       | VRecheck \<Rightarrow> if vcell s = e then [WaiterStep i, WaiterStep i] else []
       | _ \<Rightarrow> [])
   | VSpurious i \<Rightarrow> [Interrupt i]
   | VStore w j v \<Rightarrow> (if w = NAll then [StoreAll j v] else [StoreOne j v])
   | NStep j k \<Rightarrow> (case vwriters s ! j of
         CHold w \<Rightarrow> if w = NAll then [NotifyAll j] else [NotifyOne j k]
       | _ \<Rightarrow> []))"

lemma abs_cv_sel [simp]:
  "cell (abs_cv s) = vcell s" "waiting (abs_cv s) = map abs_waiter (vwaiting s)"
  "writers (abs_cv s) = map abs_writer (vwriters s)"
  by (simp_all add: abs_cv_def)

lemma abs_set_v: "abs_cv (set_v i pc s) = (abs_cv s)\<lparr>waiting := (waiting (abs_cv s))[i := abs_waiter pc]\<rparr>"
  "abs_cv (s\<lparr>mtx := x\<rparr>) = abs_cv s"
  "abs_cv (set_n j n s) = (abs_cv s)\<lparr>writers := (writers (abs_cv s))[j := abs_writer n]\<rparr>"
  by (simp_all add: abs_cv_def map_update)

lemma abs_same:
  "i < length (vwaiting s) \<Longrightarrow> abs_waiter (vwaiting s ! i) = w \<Longrightarrow>
   (abs_cv s)\<lparr>waiting := (map abs_waiter (vwaiting s))[i := w]\<rparr> = abs_cv s"
  "j < length (vwriters s) \<Longrightarrow> abs_writer (vwriters s ! j) = n \<Longrightarrow>
   (abs_cv s)\<lparr>writers := (map abs_writer (vwriters s))[j := n]\<rparr> = abs_cv s"
  by (simp_all add: abs_cv_def list_update_same_conv)

lemma abs_wake: "pc \<noteq> VGoing \<Longrightarrow> wake (abs_waiter pc) = abs_waiter (cv_wake pc)"
  by (cases pc) (simp_all add: wake_def cv_wake_def)

lemma sim_waiter:
  assumes i: "i < length (vwaiting s)" and st: "cv_waiter_step e i (vwaiting s ! i) s = Some s'"
  shows "run (futex_step e) (cv_acts e s (VStep i)) (abs_cv s) = Some (abs_cv s')"
  using st i
  by (cases "vwaiting s ! i") (auto simp: cv_acts_def abs_set_v abs_same split: if_splits)

lemma no_going:
  assumes "mutex_inv s" and "j < length (vwriters s)" and "vwriters s ! j = CHold w"
  shows "VGoing \<notin> set (vwaiting s)"
proof
  assume "VGoing \<in> set (vwaiting s)"
  then obtain i where "i < length (vwaiting s)" "vwaiting s ! i = VGoing" by (auto simp: in_set_conv_nth)
  then have "mtx s = Some (Inl i)" using assms(1) by (auto simp: mutex_inv_def)
  moreover have "mtx s = Some (Inr j)" using assms by (auto simp: mutex_inv_def)
  ultimately show False by simp
qed

lemma sim_notify:
  assumes inv: "mutex_inv s" and j: "j < length (vwriters s)" "vwriters s ! j = CHold w"
    and st: "cv_notify w k s = Some t"
  shows "run (futex_step e) (cv_acts e s (NStep j k)) (abs_cv s) = Some (abs_cv (set_n j CUnlock t))"
proof -
  have g: "VGoing \<notin> set (vwaiting s)" by (rule no_going [OF inv j])
  then have w: "map (wake \<circ> abs_waiter) (vwaiting s) = map (abs_waiter \<circ> cv_wake) (vwaiting s)"
    by (intro map_cong) (auto intro: abs_wake)
  have k: "(map abs_waiter (vwaiting s))[k := wake (map abs_waiter (vwaiting s) ! k)] =
      map abs_waiter ((vwaiting s)[k := cv_wake (vwaiting s ! k)])"
  proof (cases "k < length (vwaiting s)")
    case True
    with g have "vwaiting s ! k \<noteq> VGoing" by (metis nth_mem)
    with True show ?thesis by (simp add: map_update abs_wake)
  qed (simp add: list_update_beyond)
  have a: "abs_waiter pc = WAsleep \<Longrightarrow> pc = VGoing \<or> pc = VAsleep" for pc by (cases pc) simp_all
  from cv_notify_Some [OF st] show ?thesis
  proof (elim disjE conjE)
    assume "w = NAll" "t = s\<lparr>vwaiting := map cv_wake (vwaiting s)\<rparr>"
    with j w show ?thesis by (simp add: cv_acts_def notify_all_def abs_cv_def map_update)
  next
    assume o: "w = NOne" "t = s\<lparr>vwaiting := (vwaiting s)[k := cv_wake (vwaiting s ! k)]\<rparr>"
      and d: "k < length (vwaiting s)" "vwaiting s ! k = VAsleep"
    then have "k < length (waiting (abs_cv s)) \<and> waiting (abs_cv s) ! k = WAsleep" by simp
    with o j k show ?thesis by (simp add: cv_acts_def notify_one_def abs_cv_def map_update)
  next
    assume o: "w = NOne" "t = s\<lparr>vwaiting := (vwaiting s)[k := cv_wake (vwaiting s ! k)]\<rparr>"
      and d: "VAsleep \<notin> set (vwaiting s)"
    with g have "WAsleep \<notin> set (map abs_waiter (vwaiting s))" by (auto dest: a [OF sym])
    with o j k show ?thesis by (simp add: cv_acts_def notify_one_def abs_cv_def map_update)
  qed
qed

lemma sim_step:
  assumes inv: "mutex_inv s" and st: "condvar_step e a s = Some s'"
  shows "run (futex_step e) (cv_acts e s a) (abs_cv s) = Some (abs_cv s')"
proof (cases a)
  case (VStep i)
  with st show ?thesis using sim_waiter by (metis condvar_step.simps(1) option.distinct(1))
next
  case (VSpurious i)
  with st show ?thesis by (auto simp: cv_acts_def abs_set_v split: if_splits)
next
  case (VStore w j v)
  with st have "w = NAll \<or> w = NOne" by (cases w) (auto split: if_splits)
  with VStore st show ?thesis
    by (auto simp: cv_acts_def store_then_def abs_cv_def map_update split: if_splits)
next
  case (NStep j k)
  with st have j: "j < length (vwriters s)" and n: "cv_notifier_step j k (vwriters s ! j) s = Some s'"
    by (simp_all split: if_splits)
  show ?thesis
  proof (cases "vwriters s ! j")
    case (CHold w)
    with n obtain t where "cv_notify w k s = Some t" "s' = set_n j CUnlock t" by auto
    with sim_notify [OF inv j CHold] NStep show ?thesis by simp
  qed (use n j NStep in \<open>auto simp: cv_acts_def abs_set_v abs_same\<close>)
qed

fun stores_all :: "'v cvact \<Rightarrow> bool" where
  "stores_all (VStore w j v) = (w = NAll)" | "stores_all a = True"

definition no_one_inv :: "'v condvar \<Rightarrow> bool" where
  "no_one_inv s \<longleftrightarrow> (\<forall>pc \<in> set (vwriters s). abs_writer pc \<noteq> NOne)"

lemma no_one_step:
  assumes "no_one_inv s" and "stores_all a" and "condvar_step e a s = Some s'"
  shows "no_one_inv s' \<and> (\<forall>b \<in> set (cv_acts e s a). notifies_all b)"
proof (cases a)
  case (VStep i)
  with assms show ?thesis
    by (cases "vwaiting s ! i") (auto simp: no_one_inv_def cv_acts_def split: if_splits)
next
  case (NStep j k)
  with assms(3) have j: "j < length (vwriters s)" and n: "cv_notifier_step j k (vwriters s ! j) s = Some s'"
    by (simp_all split: if_splits)
  have "abs_writer (vwriters s ! j) \<noteq> NOne" using assms(1) j by (simp add: no_one_inv_def)
  with n j NStep assms(1) show ?thesis
    by (cases "vwriters s ! j")
      (auto simp: no_one_inv_def cv_acts_def dest!: in_set_update cv_notify_Some)
qed (use assms in \<open>auto simp: no_one_inv_def cv_acts_def split: if_splits dest!: in_set_update\<close>)

lemma sim_run:
  "mutex_inv s \<Longrightarrow> run (condvar_step e) as s = Some s' \<Longrightarrow>
   \<exists>bs. run (futex_step e) bs (abs_cv s) = Some (abs_cv s') \<and>
     (no_one_inv s \<and> (\<forall>a \<in> set as. stores_all a) \<longrightarrow> (\<forall>b \<in> set bs. notifies_all b))"
proof (induction as arbitrary: s)
  case Nil
  then show ?case by (intro exI [of _ "[]"]) simp
next
  case (Cons a as)
  then obtain t where t: "condvar_step e a s = Some t" "run (condvar_step e) as t = Some s'"
    by (auto split: option.splits)
  obtain bs where bs: "run (futex_step e) bs (abs_cv t) = Some (abs_cv s')"
    "no_one_inv t \<and> (\<forall>a \<in> set as. stores_all a) \<longrightarrow> (\<forall>b \<in> set bs. notifies_all b)"
    using Cons.IH [OF mutex_inv_step [OF Cons.prems(1) t(1)] t(2)] by blast
  have "run (futex_step e) (cv_acts e s a @ bs) (abs_cv s) = Some (abs_cv s')"
    using sim_step [OF Cons.prems(1) t(1)] bs(1) by (simp add: run_append)
  moreover have "no_one_inv s \<and> (\<forall>x \<in> set (a # as). stores_all x) \<longrightarrow> (\<forall>b \<in> set (cv_acts e s a @ bs). notifies_all b)"
    using no_one_step [OF _ _ t(1)] bs(2) by auto
  ultimately show ?case by blast
qed

lemma abs_cv_init: "abs_cv (condvar_init v n m) = futex_init v n m"
  by (simp add: abs_cv_def condvar_init_def futex_init_def)

lemma no_one_init: "no_one_inv (condvar_init v n m)"
  by (simp add: no_one_inv_def condvar_init_def)

text \<open>
  C36. The fallback implements the contract of the cell. Every run of waiters and writers over the
  mutex and the condition variable is a run of the contract's machine, in which comparing and
  going to sleep is one step, with the same cell, the same sleepers and the same notifications
  outstanding. So no wake-up is lost here either: when all stores notify all, a
  waiter sleeps on a changed cell only while some writer still has to lock the mutex or to
  notify, although the stores are made without the mutex.
\<close>

theorem condvar_refines_futex:
  assumes "run (condvar_step e) as (condvar_init v n m) = Some s"
  shows "(\<exists>bs. run (futex_step e) bs (futex_init v n m) = Some (abs_cv s)) \<and>
    ((\<forall>a \<in> set as. stores_all a) \<and> VAsleep \<in> set (vwaiting s) \<and> vcell s \<noteq> e \<longrightarrow>
       (\<exists>j < length (vwriters s). vwriters s ! j = CLock NAll \<or> vwriters s ! j = CHold NAll))"
proof -
  have "mutex_inv (condvar_init v n m)" by (rule mutex_inv_init)
  from sim_run [OF this assms] obtain bs where
    bs: "run (futex_step e) bs (futex_init v n m) = Some (abs_cv s)"
    "(\<forall>a \<in> set as. stores_all a) \<longrightarrow> (\<forall>b \<in> set bs. notifies_all b)"
    by (auto simp: abs_cv_init no_one_init)
  have "\<exists>j < length (vwriters s). vwriters s ! j = CLock NAll \<or> vwriters s ! j = CHold NAll"
    if h: "\<forall>a \<in> set as. stores_all a" "VAsleep \<in> set (vwaiting s)" "vcell s \<noteq> e"
  proof -
    have "futex_inv e (abs_cv s)" using futexes.init_run_inv_on [OF bs(1)] bs(2) h(1) by blast
    moreover have "WAsleep \<in> set (waiting (abs_cv s))" using h(2) by force
    ultimately have "NAll \<in> set (writers (abs_cv s))" using h(3) by (simp add: futex_inv_def)
    then obtain j where j: "j < length (vwriters s)" "abs_writer (vwriters s ! j) = NAll"
      by (auto simp: in_set_conv_nth)
    then show ?thesis by (cases "vwriters s ! j") auto
  qed
  with bs(1) show ?thesis by blast
qed

definition cv_demo :: "nat cvact list" where
  "cv_demo = [VStep 0, VStep 0, VStep 0, VStep 0, VStore NAll 0 1]"

lemma cv_demo_runs:
  "\<exists>s. run (condvar_step 0) cv_demo (condvar_init 0 1 1) = Some s \<and> vwaiting s = [VAsleep] \<and> vcell s = 1"
  by (simp add: cv_demo_def condvar_init_def lock_as_def wa_store_def set_v_def set_n_def)

theorem condvar_refines_futex_witness:
  "\<exists>s. run (condvar_step 0) cv_demo (condvar_init 0 1 1) = Some s \<and> vwaiting s = [VAsleep] \<and>
     (\<exists>j < length (vwriters s). vwriters s ! j = CLock NAll \<or> vwriters s ! j = CHold NAll)"
proof -
  obtain s where s: "run (condvar_step 0) cv_demo (condvar_init 0 1 1) = Some s" "vwaiting s = [VAsleep]" "vcell s = 1"
    using cv_demo_runs by (elim exE conjE)
  have "\<forall>a \<in> set cv_demo. stores_all a" by (simp add: cv_demo_def)
  with condvar_refines_futex [OF s(1), THEN conjunct2] s show ?thesis by (intro exI [of _ s]) simp
qed

section \<open>The timed waits\<close>

text \<open>
  \<open>cv.wait_for(lk, dur, pred)\<close> and \<open>cv.wait_until(lk, atime, pred)\<close>: the loads of the predicate
  and, for each wait, whether it timed out.
\<close>

fun cv_timed_wait :: "'v \<Rightarrow> 'v list \<Rightarrow> bool list \<Rightarrow> bool option" where
  "cv_timed_wait e [] touts = None"
| "cv_timed_wait e (v # loads) touts =
     (if v \<noteq> e then Some True
      else case touts of
          [] \<Rightarrow> None
        | True # _ \<Rightarrow> (case loads of [] \<Rightarrow> None | w # _ \<Rightarrow> Some (w \<noteq> e))
        | False # touts' \<Rightarrow> cv_timed_wait e loads touts')"

lemma cv_timed_wait_truthful:
  "cv_timed_wait e loads touts = Some b \<Longrightarrow> (b \<longrightarrow> (\<exists>v \<in> set loads. v \<noteq> e)) \<and> (\<not> b \<longrightarrow> True \<in> set touts)"
  by (induction e loads touts rule: cv_timed_wait.induct) (auto split: if_splits list.splits bool.splits)

end
