(* ===== verification/Wait_Native.thy ===== *)
theory Wait_Native
  imports Waitable_Atomic
begin

text \<open>
  The calls by which \<open>waitable_atomic\<close> (\<open>include/waitable_atomic.hpp\<close>) reaches the system: what
  is handed to the Linux futex calls and to \<open>WaitOnAddress\<close> on Windows, and what the answers
  mean. The calls themselves are the documented behaviour of the systems.
\<close>

unbundle bit_operations_syntax

section \<open>Linux\<close>

text \<open>
  \<open>futex_wait\<close> copies the bytes of the expected value into the low bytes of a zeroed 64-bit field.
  The kernel compares with as many bytes at the address as the size flag says: two to its power.
\<close>

record futex_waitv =
  fw_val :: u64
  fw_uaddr :: addr
  fw_flags :: u32

fun le_bytes :: "8 word list \<Rightarrow> u64" where
  "le_bytes [] = 0"
| "le_bytes (b # bs) = ucast b OR push_bit 8 (le_bytes bs)"

definition FUTEX_WAIT :: u32 where "FUTEX_WAIT = 0"
definition FUTEX_PRIVATE_FLAG :: u32 where "FUTEX_PRIVATE_FLAG = 128"

definition futex_wait :: "addr \<Rightarrow> 8 word list \<Rightarrow> futex_waitv" where
  "futex_wait a expected = \<lparr>fw_val = le_bytes expected, fw_uaddr = a,
     fw_flags = FUTEX2_SIZE_FLAG (length expected) OR FUTEX_WAIT OR FUTEX_PRIVATE_FLAG\<rparr>"

definition compared_bytes :: "futex_waitv \<Rightarrow> nat" where
  "compared_bytes w = 2 ^ unat (fw_flags w AND 3)"

text \<open>The comparison of the kernel on the bytes from the address on.\<close>

definition kernel_equal :: "futex_waitv \<Rightarrow> 8 word list \<Rightarrow> bool" where
  "kernel_equal w mem \<longleftrightarrow> le_bytes (take (compared_bytes w) mem) = fw_val w"

lemma bit_le_bytes: "bit (le_bytes bs) n \<longleftrightarrow> n < 64 \<and> n div 8 < length bs \<and> bit (bs ! (n div 8)) (n mod 8)"
proof (induction bs arbitrary: n)
  case (Cons b bs)
  show ?case
  proof (cases "n < 8")
    case True
    then show ?thesis by (simp add: bit_or_iff bit_push_bit_iff bit_ucast_iff)
  next
    case False
    then have d: "n div 8 = Suc ((n - 8) div 8)" "n mod 8 = (n - 8) mod 8" by (simp_all add: le_div_geq le_mod_geq)
    have "\<not> bit b n" using False bit_imp_le_length [of b n] by auto
    with False Cons.IH [of "n - 8"] show ?thesis
      by (auto simp add: bit_or_iff bit_push_bit_iff bit_ucast_iff d)
  qed
qed simp

lemma le_bytes_eq_iff:
  assumes "length xs \<le> 8" and "length ys \<le> length xs"
  shows "le_bytes xs = le_bytes ys \<longleftrightarrow> (\<forall>i < length xs. xs ! i = (if i < length ys then ys ! i else 0))"
proof
  assume e: "le_bytes xs = le_bytes ys"
  show "\<forall>i < length xs. xs ! i = (if i < length ys then ys ! i else 0)"
  proof (intro allI impI)
    fix i assume i: "i < length xs"
    have "bit (xs ! i) n \<longleftrightarrow> bit (if i < length ys then ys ! i else 0) n" if n: "n < 8" for n
    proof -
      have p: "8 * i + n < 64" "(8 * i + n) div 8 = i" "(8 * i + n) mod 8 = n" using i n assms(1) by auto
      have "bit (le_bytes xs) (8 * i + n) \<longleftrightarrow> bit (le_bytes ys) (8 * i + n)" using e by simp
      then show ?thesis using i n by (simp add: bit_le_bytes p)
    qed
    then show "xs ! i = (if i < length ys then ys ! i else 0)" by (intro bit_word_eqI) auto
  qed
next
  assume a: "\<forall>i < length xs. xs ! i = (if i < length ys then ys ! i else 0)"
  show "le_bytes xs = le_bytes ys"
  proof (rule bit_word_eqI)
    fix n :: nat assume "n < LENGTH(64)"
    show "bit (le_bytes xs) n \<longleftrightarrow> bit (le_bytes ys) n"
    proof (cases "n div 8 < length xs")
      case True
      with a have "xs ! (n div 8) = (if n div 8 < length ys then ys ! (n div 8) else 0)" by blast
      with True assms(2) show ?thesis by (simp add: bit_le_bytes)
    qed (use assms(2) in \<open>simp add: bit_le_bytes\<close>)
  qed
qed

lemma size_flags:
  assumes "sz \<in> {1..8}"
  shows "(FUTEX2_SIZE_FLAG sz OR FUTEX_WAIT OR FUTEX_PRIVATE_FLAG) AND 3 = FUTEX2_SIZE_FLAG sz"
    and "sz \<le> 2 ^ unat (FUTEX2_SIZE_FLAG sz)" and "2 ^ unat (FUTEX2_SIZE_FLAG sz) \<le> (8 :: nat)"
proof -
  have "sz = 1 \<or> sz = 2 \<or> sz = 3 \<or> sz = 4 \<or> sz = 5 \<or> sz = 6 \<or> sz = 7 \<or> sz = 8" using assms by auto
  then show "(FUTEX2_SIZE_FLAG sz OR FUTEX_WAIT OR FUTEX_PRIVATE_FLAG) AND 3 = FUTEX2_SIZE_FLAG sz"
    "sz \<le> 2 ^ unat (FUTEX2_SIZE_FLAG sz)" "2 ^ unat (FUTEX2_SIZE_FLAG sz) \<le> (8 :: nat)"
    by (elim disjE; simp add: FUTEX2_SIZE_FLAG_def FUTEX_WAIT_def FUTEX_PRIVATE_FLAG_def)+
qed



text \<open>
  \<open>futex_wake\<close> passes three arguments to a call that takes four: the flags arrive as the mask, the
  count in its place, and the kernel's flags are what the register held.
\<close>

record futex_wake_call =
  fk_uaddr :: addr
  fk_mask :: u32
  fk_nr :: int
  fk_flags :: "u32 option"

definition futex_wake :: "nat \<Rightarrow> addr \<Rightarrow> int \<Rightarrow> futex_wake_call" where
  "futex_wake sz a n = \<lparr>fk_uaddr = a, fk_mask = FUTEX2_SIZE_FLAG sz OR FUTEX_PRIVATE_FLAG, fk_nr = n, fk_flags = None\<rparr>"

definition notify_one_impl :: "nat \<Rightarrow> addr \<Rightarrow> futex_wake_call" where
  "notify_one_impl sz a = futex_wake sz a 1"

definition notify_all_impl :: "nat \<Rightarrow> addr \<Rightarrow> futex_wake_call" where
  "notify_all_impl sz a = futex_wake sz a (2 ^ 31 - 1)"

text \<open>The deadline of \<open>wait_until_impl\<close>: the clock is read once for the duration and once more for the deadline.\<close>

definition wait_until_deadline :: "int \<Rightarrow> int \<Rightarrow> timespec \<Rightarrow> timespec" where
  "wait_until_deadline atime now1 now2 = deadline now2 (atime - now1)"

lemma total_ns_deadline: "total_ns (deadline now d) = total_ns now + d"
  by (simp add: deadline_def total_ns_def Let_def algebra_simps)

section \<open>Windows\<close>

definition INFINITE :: u32 where "INFINITE = -1"

definition nanos_per_milli :: int where "nanos_per_milli = 1000000"

definition duration_cast_milliseconds :: "int \<Rightarrow> int" where
  "duration_cast_milliseconds d = (if d \<ge> 0 then d div nanos_per_milli else - ((- d) div nanos_per_milli))"

text \<open>The timeout handed to \<open>WaitOnAddress\<close> by \<open>wait_for_impl\<close>, and what is made of its answer.\<close>

definition win_timeout :: "int \<Rightarrow> u32" where
  "win_timeout d = word_of_int (duration_cast_milliseconds d)"

definition win_wait_timeout :: u32 where
  "win_wait_timeout = INFINITE"

datatype woa_result = WoaWoken | WoaTimeout | WoaError

definition win_wait_for_impl :: "woa_result \<Rightarrow> bool" where
  "win_wait_for_impl r = (case r of WoaTimeout \<Rightarrow> False | _ \<Rightarrow> True)"

definition win_wait_until_timeout :: "int \<Rightarrow> int \<Rightarrow> u32" where
  "win_wait_until_timeout atime now = win_timeout (atime - now)"

lemma unat_win_timeout:
  "0 \<le> duration_cast_milliseconds d \<Longrightarrow> duration_cast_milliseconds d < 2 ^ 32 \<Longrightarrow>
   int (unat (win_timeout d)) = duration_cast_milliseconds d"
  by (simp add: win_timeout_def unat_eq_nat_uint uint_word_of_int)

lemma div_bounds:
  fixes d k :: int
  assumes "0 < k"
  shows "d div k * k \<le> d" and "d < (d div k + 1) * k" and "0 \<le> d \<Longrightarrow> 0 \<le> d div k" and "d < b * k \<Longrightarrow> d div k < b"
proof -
  have e: "d = d div k * k + d mod k" and m: "0 \<le> d mod k" "d mod k < k" using assms by simp_all
  show l: "d div k * k \<le> d" using e m(1) by linarith
  have "(d div k + 1) * k = d div k * k + k" by (simp add: distrib_right)
  then show "d < (d div k + 1) * k" using e m(2) by linarith
  show "0 \<le> d \<Longrightarrow> 0 \<le> d div k" using assms by (simp add: pos_imp_zdiv_nonneg_iff)
  show "d div k < b" if "d < b * k"
  proof -
    have "d div k * k < b * k" using l that by simp
    then show ?thesis using assms by simp
  qed
qed



end
