(* ===== verification/Cancelable.thy ===== *)
theory Cancelable
  imports Promise Cancel
begin

text \<open>
  The cancelable coroutines of \<open>include/coro.hpp\<close>: \<open>CancelablePromise\<close> and
  \<open>CancelableWaitablePromise\<close>, which combine a promise with the cancellation cell and cancel at
  the final suspension and in the destructor, and the futures \<open>CancelableFuture\<close>,
  \<open>CancelableWaitableFuture\<close> and \<open>DetachedCancelableWaitableFuture\<close> over them. \<open>Cancel\<close> has the
  cell against other threads; here the calls come one after the other, from the body, from the
  owner of the future and from the end of the frame, and a coroutine that is resumed does not
  await the same promise again before it is suspended elsewhere.
\<close>

section \<open>A cancelable coroutine\<close>

text \<open>
  The promise object is the base promise beside the cell; \<open>body\<close> says whether the body is
  suspended in its own \<open>wait_cancel\<close>, has ended, or neither (\<open>BRuns\<close>: it runs or awaits something else), \<open>destroyed\<close> whether the frame is gone. The log
  records what the coroutine does to others, \<open>cancel_waits\<close> who suspended in \<open>wait_cancel\<close>.
\<close>

datatype body = BRuns | BSuspended | BEnded

datatype co_event = WokeWaiter handle | SetValid | WokeCaller handle

record 'v cco =
  prom :: "'v promise"
  cell_state :: cstate
  cell_waiter :: "handle option"
  body :: body
  destroyed :: bool
  log :: "co_event list"
  cancel_waits :: "handle list"
  cancel_trues :: nat
  cco_bad :: "fault option"

definition cco_init :: "kind \<Rightarrow> bool \<Rightarrow> 'v cco" where
  "cco_init k n = \<lparr>prom = new_promise k n, cell_state = EPending, cell_waiter = None, body = BRuns,
     destroyed = False, log = [], cancel_waits = [], cancel_trues = 0, cco_bad = None\<rparr>"

definition cco_fault :: "fault \<Rightarrow> 'v cco \<Rightarrow> 'v cco" where
  "cco_fault e s = s\<lparr>cco_bad := Some e\<rparr>"

text \<open>Resuming a waiter; \<open>self\<close> is the coroutine itself, whose frame may be on its way out.\<close>

definition wake_waiter :: "handle \<Rightarrow> handle \<Rightarrow> 'v cco \<Rightarrow> 'v cco" where
  "wake_waiter self h s =
     (if h \<noteq> self then s\<lparr>log := log s @ [WokeWaiter h]\<rparr>
      else if destroyed s then cco_fault UseAfterFree s
      else if body s = BSuspended then s\<lparr>body := BRuns, log := log s @ [WokeWaiter h]\<rparr>
      else cco_fault Unreachable s)"

text \<open>\<open>CancelablePromiseBase::cancel\<close>, in one go.\<close>

definition co_cancel :: "handle \<Rightarrow> 'v cco \<Rightarrow> bool \<times> 'v cco" where
  "co_cancel self s = (case cell_state s of
     EPending \<Rightarrow> (True, s\<lparr>cell_state := ECanceled\<rparr>)
   | ECanceled \<Rightarrow> (False, s)
   | EWaiting \<Rightarrow> (True, case cell_waiter s of
         None \<Rightarrow> cco_fault NullDeref s
       | Some h \<Rightarrow> wake_waiter self h (s\<lparr>cell_state := ECanceled\<rparr>)))"

text \<open>\<open>wait_cancel\<close>: the old waiter is resumed, the new one stored unless the promise is canceled.\<close>

definition co_wait_cancel :: "handle \<Rightarrow> handle \<Rightarrow> 'v cco \<Rightarrow> 'v cco" where
  "co_wait_cancel self h s =
     (if cell_state s = ECanceled then s
      else let t = (case (cell_state s, cell_waiter s) of
             (EWaiting, Some old) \<Rightarrow> wake_waiter self old (s\<lparr>cell_state := EPending, cell_waiter := None\<rparr>)
           | _ \<Rightarrow> s)
        in t\<lparr>cell_waiter := Some h, cell_state := EWaiting, cancel_waits := cancel_waits t @ [h],
             body := (if h = self then BSuspended else body t)\<rparr>)"

text \<open>
  \<open>final_suspend\<close>: cancel, then the final awaiter of the base promise, which for the waitable
  promises publishes \<open>m_state\<close>, and resumes the caller.
\<close>

definition co_final_suspend :: "handle \<Rightarrow> bool \<Rightarrow> 'v cco \<Rightarrow> 'v cco" where
  "co_final_suspend self waitable s =
     (let t = snd (co_cancel self s)
      in t\<lparr>log := log t @ (if waitable then [SetValid] else []) @
             (case caller (prom t) of None \<Rightarrow> [] | Some c \<Rightarrow> [WokeCaller c])\<rparr>)"

definition co_finish :: "handle \<Rightarrow> bool \<Rightarrow> 'v outcome \<Rightarrow> 'v cco \<Rightarrow> 'v cco" where
  "co_finish self waitable oc s = (case finish oc (prom s) of
     Inl e \<Rightarrow> cco_fault e s
   | Inr p \<Rightarrow> co_final_suspend self waitable (s\<lparr>prom := p, body := BEnded\<rparr>))"

text \<open>The end of the frame: the destructor of the cell cancels.\<close>

definition co_destroy :: "handle \<Rightarrow> 'v cco \<Rightarrow> 'v cco" where
  "co_destroy self s = snd (co_cancel self (s\<lparr>destroyed := True\<rparr>))"

text \<open>
  What happens to the coroutine: somebody waits for its cancellation, its future cancels it, a
  parent awaits it, its body ends, its frame is destroyed. A future that waits
  (\<open>CancelableWaitableFuture\<close>) destroys the frame only after the end.
\<close>

datatype 'v cco_act = CoWait handle | CoCancel | CoAwait handle | CoFinish "'v outcome" | CoDestroy

definition cancelable_future_cancel :: "handle \<Rightarrow> 'v cco \<Rightarrow> bool \<times> 'v cco" where
  "cancelable_future_cancel self s = (let (b, t) = co_cancel self s
     in (b, t\<lparr>cancel_trues := cancel_trues t + (if b then 1 else 0)\<rparr>))"

fun cco_act_step :: "handle \<Rightarrow> fkind \<Rightarrow> 'v cco_act \<Rightarrow> 'v cco \<Rightarrow> 'v cco option" where
  "cco_act_step self k (CoWait h) s = (if (h = self \<longrightarrow> body s = BRuns) \<and>
     (cell_state s = EWaiting \<longrightarrow> cell_waiter s \<noteq> Some h) then Some (co_wait_cancel self h s) else None)"
| "cco_act_step self k CoCancel s = Some (snd (cancelable_future_cancel self s))"
| "cco_act_step self k (CoAwait h) s = (if body s = BEnded \<or> k = WaitableK then None
     else Some (s\<lparr>prom := set_caller h (prom s)\<rparr>))"
| "cco_act_step self k (CoFinish oc) s = (if body s = BRuns then Some (co_finish self (k \<noteq> FutureK) oc s) else None)"
| "cco_act_step self k CoDestroy s = (if k = WaitableK \<and> body s \<noteq> BEnded then None else Some (co_destroy self s))"

definition cco_step :: "handle \<Rightarrow> fkind \<Rightarrow> 'v cco_act \<Rightarrow> 'v cco \<Rightarrow> 'v cco option" where
  "cco_step self k a s = (if cco_bad s \<noteq> None \<or> destroyed s then None else cco_act_step self k a s)"

section \<open>Everybody who waits is woken\<close>

definition pending_waiter :: "'v cco \<Rightarrow> handle list" where
  "pending_waiter s = (case (cell_state s, cell_waiter s) of (EWaiting, Some h) \<Rightarrow> [h] | _ \<Rightarrow> [])"

definition end_events :: "fkind \<Rightarrow> 'v cco \<Rightarrow> co_event list" where
  "end_events k s = (if body s = BEnded
     then (if k \<noteq> FutureK then [SetValid] else []) @ (case caller (prom s) of None \<Rightarrow> [] | Some c \<Rightarrow> [WokeCaller c])
     else [])"

definition cco_inv :: "handle \<Rightarrow> fkind \<Rightarrow> 'v cco \<Rightarrow> bool" where
  "cco_inv self k s \<longleftrightarrow> (\<exists>ws. cancel_waits s = ws @ pending_waiter s \<and> log s = map WokeWaiter ws @ end_events k s) \<and>
     (cell_state s = EWaiting \<longrightarrow> cell_waiter s \<noteq> None) \<and>
     (body s = BSuspended \<longleftrightarrow> cell_state s = EWaiting \<and> cell_waiter s = Some self) \<and>
     (body s = BEnded \<or> destroyed s \<longrightarrow> cell_state s = ECanceled) \<and>
     cancel_trues s \<le> (if cell_state s = ECanceled then 1 else 0)"

text \<open>A faultless \<open>cancel\<close>, in each state of the cell.\<close>

lemma co_cancel_cases:
  assumes "cell_state s = EWaiting \<longrightarrow> cell_waiter s \<noteq> None"
    and "body s = BSuspended \<longleftrightarrow> cell_state s = EWaiting \<and> cell_waiter s = Some self"
  shows "pending_waiter s = [] \<and> co_cancel self s = (cell_state s = EPending, s\<lparr>cell_state := ECanceled\<rparr>) \<or>
    (\<exists>h. pending_waiter s = [h] \<and> cell_state s = EWaiting \<and> h \<noteq> self \<and>
       co_cancel self s = (True, s\<lparr>cell_state := ECanceled, log := log s @ [WokeWaiter h]\<rparr>)) \<or>
    (pending_waiter s = [self] \<and> cell_state s = EWaiting \<and> body s = BSuspended \<and>
       co_cancel self s = (True, if destroyed s then cco_fault UseAfterFree (s\<lparr>cell_state := ECanceled\<rparr>)
         else s\<lparr>cell_state := ECanceled, body := BRuns, log := log s @ [WokeWaiter self]\<rparr>))"
  using assms by (cases "cell_state s") (auto simp: pending_waiter_def co_cancel_def wake_waiter_def)

lemma cco_inv_init: "cco_inv self k (cco_init kd n)"
  by (simp add: cco_inv_def cco_init_def pending_waiter_def end_events_def)

lemma cco_invD:
  assumes "cco_inv self k s"
  obtains ws where "cancel_waits s = ws @ pending_waiter s" and "log s = map WokeWaiter ws @ end_events k s"
    and "cell_state s = EWaiting \<longrightarrow> cell_waiter s \<noteq> None"
    and "body s = BSuspended \<longleftrightarrow> cell_state s = EWaiting \<and> cell_waiter s = Some self"
    and "body s = BEnded \<or> destroyed s \<longrightarrow> cell_state s = ECanceled"
    and "cancel_trues s \<le> (if cell_state s = ECanceled then 1 else 0)"
  using assms unfolding cco_inv_def by blast

lemma cco_inv_cancel:
  assumes inv: "cco_inv self k s" and b: "\<not> destroyed s" "cco_bad s = None"
  shows "cco_inv self k (snd (cancelable_future_cancel self s)) \<and> cco_bad (snd (cancelable_future_cancel self s)) = None"
proof -
  obtain ws where I: "cancel_waits s = ws @ pending_waiter s" "log s = map WokeWaiter ws @ end_events k s"
    "cell_state s = EWaiting \<longrightarrow> cell_waiter s \<noteq> None"
    "body s = BSuspended \<longleftrightarrow> cell_state s = EWaiting \<and> cell_waiter s = Some self"
    "body s = BEnded \<or> destroyed s \<longrightarrow> cell_state s = ECanceled"
    "cancel_trues s \<le> (if cell_state s = ECanceled then 1 else 0)" by (rule cco_invD [OF inv])
  from co_cancel_cases [OF I(3,4)] show ?thesis
  proof (elim disjE exE conjE)
    assume "pending_waiter s = []" "co_cancel self s = (cell_state s = EPending, s\<lparr>cell_state := ECanceled\<rparr>)"
    with I b show ?thesis
      by (cases "cell_state s") (auto simp: cco_inv_def cancelable_future_cancel_def pending_waiter_def end_events_def)
  next
    fix h assume h: "pending_waiter s = [h]" "cell_state s = EWaiting" "h \<noteq> self"
      "co_cancel self s = (True, s\<lparr>cell_state := ECanceled, log := log s @ [WokeWaiter h]\<rparr>)"
    then have "end_events k s = []" using I(5) by (auto simp: end_events_def)
    with I b h show ?thesis
      by (auto simp: cco_inv_def cancelable_future_cancel_def pending_waiter_def end_events_def intro!: exI [of _ "ws @ [h]"])
  next
    assume h: "pending_waiter s = [self]" "cell_state s = EWaiting" "body s = BSuspended"
       "co_cancel self s = (True, if destroyed s then cco_fault UseAfterFree (s\<lparr>cell_state := ECanceled\<rparr>)
         else s\<lparr>cell_state := ECanceled, body := BRuns, log := log s @ [WokeWaiter self]\<rparr>)"
    then have "end_events k s = []" using I(5) by (auto simp: end_events_def)
    with I b h show ?thesis
      by (auto simp: cco_inv_def cancelable_future_cancel_def pending_waiter_def end_events_def intro!: exI [of _ "ws @ [self]"])
  qed
qed

lemma cco_inv_destroy:
  assumes inv: "cco_inv self k s" and b: "\<not> destroyed s" "cco_bad s = None"
  shows "if body s = BSuspended then cco_bad (co_destroy self s) = Some UseAfterFree
    else cco_inv self k (co_destroy self s) \<and> cco_bad (co_destroy self s) = None"
proof -
  obtain ws where I: "cancel_waits s = ws @ pending_waiter s" "log s = map WokeWaiter ws @ end_events k s"
    "cell_state s = EWaiting \<longrightarrow> cell_waiter s \<noteq> None"
    "body s = BSuspended \<longleftrightarrow> cell_state s = EWaiting \<and> cell_waiter s = Some self"
    "body s = BEnded \<or> destroyed s \<longrightarrow> cell_state s = ECanceled"
    "cancel_trues s \<le> (if cell_state s = ECanceled then 1 else 0)" by (rule cco_invD [OF inv])
  let ?s = "s\<lparr>destroyed := True\<rparr>"
  have p: "pending_waiter ?s = pending_waiter s" by (simp add: pending_waiter_def)
  have "cell_state ?s = EWaiting \<longrightarrow> cell_waiter ?s \<noteq> None"
    "body ?s = BSuspended \<longleftrightarrow> cell_state ?s = EWaiting \<and> cell_waiter ?s = Some self" using I(3,4) by simp_all
  from co_cancel_cases [OF this] show ?thesis unfolding p
  proof (elim disjE exE conjE)
    assume "pending_waiter s = []" "co_cancel self ?s = (cell_state ?s = EPending, ?s\<lparr>cell_state := ECanceled\<rparr>)"
    with I b show ?thesis
      by (cases "cell_state s") (auto simp: cco_inv_def co_destroy_def pending_waiter_def end_events_def)
  next
    fix h assume h: "pending_waiter s = [h]" "cell_state ?s = EWaiting" "h \<noteq> self"
      "co_cancel self ?s = (True, ?s\<lparr>cell_state := ECanceled, log := log ?s @ [WokeWaiter h]\<rparr>)"
    then have "end_events k s = []" using I(5) by (auto simp: end_events_def)
    with I b h show ?thesis
      by (auto simp: cco_inv_def co_destroy_def pending_waiter_def end_events_def intro!: exI [of _ "ws @ [h]"])
  next
    assume "body ?s = BSuspended"
       "co_cancel self ?s = (True, if destroyed ?s then cco_fault UseAfterFree (?s\<lparr>cell_state := ECanceled\<rparr>)
         else ?s\<lparr>cell_state := ECanceled, body := BRuns, log := log ?s @ [WokeWaiter self]\<rparr>)"
    then show ?thesis by (simp add: co_destroy_def cco_fault_def)
  qed
qed

lemma cco_inv_finish:
  assumes inv: "cco_inv self k s" and b: "\<not> destroyed s" "cco_bad s = None" and r: "body s = BRuns"
  shows "case finish oc (prom s) of
      Inl e \<Rightarrow> cco_bad (co_finish self (k \<noteq> FutureK) oc s) = Some e
    | Inr p \<Rightarrow> cco_inv self k (co_finish self (k \<noteq> FutureK) oc s) \<and> cco_bad (co_finish self (k \<noteq> FutureK) oc s) = None \<and>
        body (co_finish self (k \<noteq> FutureK) oc s) = BEnded \<and> prom (co_finish self (k \<noteq> FutureK) oc s) = p"
proof (cases "finish oc (prom s)")
  case (Inl e)
  then show ?thesis by (simp add: co_finish_def cco_fault_def)
next
  case (Inr p)
  obtain ws where I: "cancel_waits s = ws @ pending_waiter s" "log s = map WokeWaiter ws @ end_events k s"
    "cell_state s = EWaiting \<longrightarrow> cell_waiter s \<noteq> None"
    "body s = BSuspended \<longleftrightarrow> cell_state s = EWaiting \<and> cell_waiter s = Some self"
    "body s = BEnded \<or> destroyed s \<longrightarrow> cell_state s = ECanceled"
    "cancel_trues s \<le> (if cell_state s = ECanceled then 1 else 0)" by (rule cco_invD [OF inv])
  let ?s = "s\<lparr>prom := p, body := BEnded\<rparr>"
  have e: "end_events k s = []" using r by (simp add: end_events_def)
  have p: "pending_waiter ?s = pending_waiter s" by (simp add: pending_waiter_def)
  have "cell_state ?s = EWaiting \<longrightarrow> cell_waiter ?s \<noteq> None"
    "body ?s = BSuspended \<longleftrightarrow> cell_state ?s = EWaiting \<and> cell_waiter ?s = Some self" using I(3,4) r by simp_all
  from co_cancel_cases [OF this] show ?thesis unfolding p
  proof (elim disjE exE conjE)
    assume "pending_waiter s = []" "co_cancel self ?s = (cell_state ?s = EPending, ?s\<lparr>cell_state := ECanceled\<rparr>)"
    with I b e Inr show ?thesis
      by (auto simp: cco_inv_def co_finish_def co_final_suspend_def Let_def pending_waiter_def end_events_def split: if_splits)
  next
    fix h assume h: "pending_waiter s = [h]" "cell_state ?s = EWaiting" "h \<noteq> self"
      "co_cancel self ?s = (True, ?s\<lparr>cell_state := ECanceled, log := log ?s @ [WokeWaiter h]\<rparr>)"
    with I b e Inr show ?thesis
      by (auto simp: cco_inv_def co_finish_def co_final_suspend_def Let_def pending_waiter_def end_events_def
          split: if_splits intro!: exI [of _ "ws @ [h]"])
  qed simp
qed

lemma cco_inv_wait:
  assumes inv: "cco_inv self k s" and b: "\<not> destroyed s" "cco_bad s = None"
    and r: "h = self \<longrightarrow> body s = BRuns" "cell_state s = EWaiting \<longrightarrow> cell_waiter s \<noteq> Some h"
  shows "cco_inv self k (co_wait_cancel self h s) \<and> cco_bad (co_wait_cancel self h s) = None"
proof -
  obtain ws where I: "cancel_waits s = ws @ pending_waiter s" "log s = map WokeWaiter ws @ end_events k s"
    "cell_state s = EWaiting \<longrightarrow> cell_waiter s \<noteq> None"
    "body s = BSuspended \<longleftrightarrow> cell_state s = EWaiting \<and> cell_waiter s = Some self"
    "body s = BEnded \<or> destroyed s \<longrightarrow> cell_state s = ECanceled"
    "cancel_trues s \<le> (if cell_state s = ECanceled then 1 else 0)" by (rule cco_invD [OF inv])
  show ?thesis
  proof (cases "cell_state s")
    case ECanceled
    with inv b show ?thesis by (simp add: co_wait_cancel_def)
  next
    case EPending
    with I b r show ?thesis
      by (auto simp: cco_inv_def co_wait_cancel_def pending_waiter_def end_events_def intro!: exI [of _ ws])
  next
    case EWaiting
    then obtain old where old: "cell_waiter s = Some old" using I(3) by auto
    with EWaiting I b r show ?thesis
      by (auto simp: cco_inv_def co_wait_cancel_def wake_waiter_def pending_waiter_def end_events_def
          intro!: exI [of _ "ws @ [old]"])
  qed
qed

text \<open>A state is fine, or the coroutine met one of its two ends.\<close>

definition cco_ok :: "handle \<Rightarrow> fkind \<Rightarrow> 'v cco \<Rightarrow> bool" where
  "cco_ok self k s \<longleftrightarrow> cco_bad s = None \<and> cco_inv self k s \<or> cco_bad s = Some Terminate \<or> cco_bad s = Some UseAfterFree"

lemma finish_Inl: "finish oc p = Inl e \<Longrightarrow> e = Terminate"
  by (auto simp: finish_def unhandled_exception_def split: outcome.splits if_splits)

lemma cco_ok_step:
  assumes ok: "cco_ok self k s" and st: "cco_step self k a s = Some s'"
  shows "cco_ok self k s'"
proof -
  have b: "cco_bad s = None" "\<not> destroyed s" and st: "cco_act_step self k a s = Some s'"
    using st by (simp_all add: cco_step_def split: if_splits)
  with ok have inv: "cco_inv self k s" by (simp add: cco_ok_def)
  show ?thesis
  proof (cases a)
    case (CoWait h)
    with st cco_inv_wait [OF inv b(2,1), of h] show ?thesis by (auto simp: cco_ok_def split: if_splits)
  next
    case CoCancel
    with st cco_inv_cancel [OF inv b(2,1)] show ?thesis by (auto simp: cco_ok_def)
  next
    case (CoAwait h)
    with st have "body s \<noteq> BEnded" "s' = s\<lparr>prom := set_caller h (prom s)\<rparr>" by (auto split: if_splits)
    with inv b show ?thesis by (simp add: cco_ok_def cco_inv_def pending_waiter_def end_events_def)
  next
    case (CoFinish oc)
    with st have "body s = BRuns" "s' = co_finish self (k \<noteq> FutureK) oc s" by (auto split: if_splits)
    with cco_inv_finish [OF inv b(2,1), of oc] show ?thesis
      by (auto simp: cco_ok_def split: sum.splits dest: finish_Inl)
  next
    case CoDestroy
    with st cco_inv_destroy [OF inv b(2,1)] show ?thesis by (auto simp: cco_ok_def split: if_splits)
  qed
qed

lemma cco_ok_init: "cco_ok self k (cco_init kd n)"
  using cco_inv_init by (simp add: cco_ok_def) (simp add: cco_init_def)

interpretation cco: machine_inv "cco_step self k" "cco_init kd n" "cco_ok self k" for self k kd n
  by unfold_locales (rule cco_ok_init, erule cco_ok_step)



lemmas cco_eval = cco_step_def cco_init_def co_wait_cancel_def co_cancel_def co_finish_def co_final_suspend_def
  co_destroy_def cancelable_future_cancel_def wake_waiter_def cco_fault_def finish_def new_promise_def
  return_value_def return_void_def unhandled_exception_def set_caller_def Let_def

definition cancelable_demo :: "nat cco_act list" where
  "cancelable_demo = [CoAwait 9, CoWait 5, CoWait 6, CoCancel, CoCancel, CoFinish (OValue 42), CoDestroy]"

lemma cancelable_demo_runs:
  "\<exists>s. run (cco_step 0 DetachedK) cancelable_demo (cco_init ByValue False) = Some s \<and> cco_bad s = None \<and>
     body s = BEnded \<and> cancel_waits s = [5, 6] \<and> caller (prom s) = Some 9"
  by (simp add: cancelable_demo_def cco_eval)



end
