(* ===== verification/Worker.thy ===== *)
theory Worker
  imports Prelude
begin

text \<open>
  A worker thread with a task container, a mutex, a condition variable and a stop flag: the
  loop that \<open>include/looper.hpp\<close> and \<open>include/timer.hpp\<close> both have. What they do
  differently is the argument \<open>P\<close> of the step function, a policy, which the theories
  \<open>Looper\<close> and \<open>Timer\<close> give; the locale \<open>task_policy\<close> states what the loop needs of it.
\<close>

section \<open>The machine\<close>

text \<open>
  The worker locks the mutex at the start (\<open>WEntry\<close>), tests the stop flag (\<open>WCheck\<close>), tests the
  inner loop's condition and takes a task (\<open>WInner\<close>), runs it without the mutex (\<open>WRun\<close>),
  locks again (\<open>WRelock\<close>), decides after the inner loop whether to wait (\<open>WIdle\<close>), and is
  blocked in the condition variable, with a deadline or without (\<open>WWait\<close>), until it is woken and
  has to lock again (\<open>WWake\<close>).
\<close>

datatype 't wpc = WEntry | WCheck | WInner | WRun 't | WRelock | WIdle | WWait "int option" | WWake | WDone

text \<open>\<open>added\<close>, \<open>fired\<close> with the time, and \<open>dropped\<close> are logs.\<close>

record 't wsys =
  tasks :: "'t list"
  stopped :: bool
  worker :: "'t wpc"
  now :: int
  added :: "'t list"
  fired :: "('t \<times> int) list"
  dropped :: "'t list"

definition wsys_init :: "int \<Rightarrow> 't wsys" where
  "wsys_init t = \<lparr>tasks = [], stopped = False, worker = WEntry, now = t, added = [], fired = [], dropped = []\<rparr>"

text \<open>
  A policy: the condition of the inner loop at a time, which positions of the container can be its
  front, how the worker waits after the inner loop (\<open>None\<close>: not at all, \<open>Some None\<close>: for a
  notification, \<open>Some (Some x)\<close>: at most until \<open>x\<close>), whether a task is accepted given the stop
  flag, and in which orders \<open>stop\<close> may take the tasks out.
\<close>

record 't policy =
  due :: "int \<Rightarrow> 't list \<Rightarrow> bool"
  front :: "'t list \<Rightarrow> nat \<Rightarrow> bool"
  bedtime :: "int \<Rightarrow> 't list \<Rightarrow> int option option"
  accepts :: "bool \<Rightarrow> bool"
  drains :: "'t list \<Rightarrow> 't list \<Rightarrow> bool"

datatype 't wact = Add 't | Stop "'t list" | Tick int | Work nat | Timeout | Spurious

definition remove_nth :: "nat \<Rightarrow> 'a list \<Rightarrow> 'a list" where
  "remove_nth k xs = List.take k xs @ drop (Suc k) xs"

text \<open>A notification wakes the worker if it waits and is lost otherwise.\<close>

definition notify :: "'t wsys \<Rightarrow> 't wsys" where
  "notify s = (case worker s of WWait d \<Rightarrow> s\<lparr>worker := WWake\<rparr> | _ \<Rightarrow> s)"

definition holds_mutex :: "'t wpc \<Rightarrow> bool" where
  "holds_mutex pc \<longleftrightarrow> pc = WCheck \<or> pc = WInner \<or> pc = WIdle"

text \<open>The two critical sections of the clients.\<close>

definition add_task :: "'t policy \<Rightarrow> 't \<Rightarrow> 't wsys \<Rightarrow> 't wsys" where
  "add_task P t s = (if accepts P (stopped s)
     then notify (s\<lparr>tasks := tasks s @ [t], added := added s @ [t]\<rparr>) else s)"

definition stop_tasks :: "'t list \<Rightarrow> 't wsys \<Rightarrow> 't wsys" where
  "stop_tasks order s = notify (s\<lparr>tasks := [], dropped := dropped s @ order, stopped := True\<rparr>)"

text \<open>The worker; \<open>k\<close> says which of the possible front tasks is the front.\<close>

fun work :: "'t policy \<Rightarrow> nat \<Rightarrow> 't wpc \<Rightarrow> 't wsys \<Rightarrow> 't wsys option" where
  "work P k WEntry s = Some (s\<lparr>worker := WCheck\<rparr>)"
| "work P k WCheck s = Some (s\<lparr>worker := (if stopped s then WDone else WInner)\<rparr>)"
| "work P k WInner s =
     (if due P (now s) (tasks s)
      then (if k < length (tasks s) \<and> front P (tasks s) k
            then Some (s\<lparr>worker := WRun (tasks s ! k), tasks := remove_nth k (tasks s),
                         fired := fired s @ [(tasks s ! k, now s)]\<rparr>)
            else None)
      else Some (s\<lparr>worker := WIdle\<rparr>))"
| "work P k (WRun t) s = Some (s\<lparr>worker := WRelock\<rparr>)"
| "work P k WRelock s = Some (s\<lparr>worker := WInner\<rparr>)"
| "work P k WIdle s =
     Some (s\<lparr>worker := (case bedtime P (now s) (tasks s) of None \<Rightarrow> WCheck | Some d \<Rightarrow> WWait d)\<rparr>)"
| "work P k (WWait d) s = None"
| "work P k WWake s = Some (s\<lparr>worker := WCheck\<rparr>)"
| "work P k WDone s = None"

fun worker_step :: "'t policy \<Rightarrow> 't wact \<Rightarrow> 't wsys \<Rightarrow> 't wsys option" where
  "worker_step P (Add t) s = (if holds_mutex (worker s) then None else Some (add_task P t s))"
| "worker_step P (Stop order) s =
     (if holds_mutex (worker s) \<or> \<not> drains P (tasks s) order then None else Some (stop_tasks order s))"
| "worker_step P (Tick t) s = (if now s \<le> t then Some (s\<lparr>now := t\<rparr>) else None)"
| "worker_step P (Work k) s = work P k (worker s) s"
| "worker_step P Timeout s =
     (case worker s of WWait (Some x) \<Rightarrow> if x \<le> now s then Some (s\<lparr>worker := WWake\<rparr>) else None | _ \<Rightarrow> None)"
| "worker_step P Spurious s = (case worker s of WWait d \<Rightarrow> Some (s\<lparr>worker := WWake\<rparr>) | _ \<Rightarrow> None)"

lemma mset_remove_nth: "k < length xs \<Longrightarrow> add_mset (xs ! k) (mset (remove_nth k xs)) = mset xs"
proof -
  assume "k < length xs"
  then have "mset xs = mset (List.take k xs @ xs ! k # drop (Suc k) xs)" by (simp add: id_take_nth_drop [symmetric])
  then show ?thesis by (simp add: remove_nth_def)
qed

lemma notify_fields [simp]:
  "tasks (notify s) = tasks s" "stopped (notify s) = stopped s" "now (notify s) = now s"
  "added (notify s) = added s" "fired (notify s) = fired s" "dropped (notify s) = dropped s"
  by (simp_all add: notify_def split: wpc.splits)

lemma worker_notify [simp]: "worker (notify s) = (case worker s of WWait d \<Rightarrow> WWake | pc \<Rightarrow> pc)"
  by (simp add: notify_def split: wpc.splits)

definition in_task :: "'t wpc \<Rightarrow> bool" where
  "in_task pc \<longleftrightarrow> pc = WRelock \<or> (\<exists>t. pc = WRun t)"

lemma in_task_simps [simp]:
  "in_task (WRun t)" "in_task WRelock" "\<not> in_task WEntry" "\<not> in_task WCheck" "\<not> in_task WInner"
  "\<not> in_task WIdle" "\<not> in_task (WWait d)" "\<not> in_task WWake" "\<not> in_task WDone"
  by (simp_all add: in_task_def)

text \<open>\<open>join\<close> in the destructors returns when the worker has ended.\<close>

definition join :: "'t wsys \<Rightarrow> 't wsys option" where
  "join s = (if worker s = WDone then Some s else None)"

text \<open>The worker alone starts a front task within so many steps.\<close>

definition starts_within :: "'t policy \<Rightarrow> nat \<Rightarrow> 't wsys \<Rightarrow> bool" where
  "starts_within P n s \<longleftrightarrow> (\<exists>as s' k. length as \<le> n \<and> (\<forall>a \<in> set as. a = Timeout \<or> (\<exists>k. a = Work k)) \<and>
     run (worker_step P) as s = Some s' \<and> k < length (tasks s) \<and> front P (tasks s) k \<and>
     worker s' = WRun (tasks s ! k) \<and> fired s' = fired s @ [(tasks s ! k, now s)])"

definition hung :: "'t wsys \<Rightarrow> bool" where
  "hung s \<longleftrightarrow> stopped s \<and> tasks s = [] \<and>
     (in_task (worker s) \<or> worker s = WInner \<or> worker s = WIdle \<or> worker s = WWait None)"

section \<open>What the loop needs of a policy\<close>

text \<open>
  \<open>wakes d t\<close>: a wait with deadline \<open>d\<close> ends in time for the task \<open>t\<close>. The last two laws: when
  the worker goes to sleep although the inner loop ended a moment ago, its deadline is in time
  for every task; and a deadline that is in time for every task has passed once the container
  is due.
\<close>

locale task_policy =
  fixes P :: "'t policy"
    and wakes :: "int option \<Rightarrow> 't \<Rightarrow> bool"
  assumes due_front: "due P t q \<Longrightarrow> \<exists>k < length q. front P q k"
    and drains_mset: "drains P q order \<Longrightarrow> mset order = mset q"
    and bedtime_empty: "bedtime P t [] = Some None"
    and bedtime_wakes: "\<not> due P t0 q \<Longrightarrow> t0 \<le> t \<Longrightarrow> bedtime P t q = Some d \<Longrightarrow> x \<in> set q \<Longrightarrow> wakes d x"
    and due_awake: "\<not> due P t0 q \<Longrightarrow> t0 \<le> t \<Longrightarrow> due P t q \<Longrightarrow> bedtime P t q = None"
    and wakes_due: "due P t q \<Longrightarrow> \<forall>x \<in> set q. wakes d x \<Longrightarrow> \<exists>x. d = Some x \<and> x \<le> t"
begin

definition loop_inv :: "'t wsys \<Rightarrow> bool" where
  "loop_inv s \<longleftrightarrow>
     mset (added s) = mset (tasks s) + mset (map fst (fired s)) + mset (dropped s) \<and>
     (worker s = WIdle \<longrightarrow> (\<exists>t0 \<le> now s. \<not> due P t0 (tasks s))) \<and>
     (\<forall>d. worker s = WWait d \<longrightarrow> (\<forall>t \<in> set (tasks s). wakes d t)) \<and>
     (worker s = WDone \<longrightarrow> stopped s)"

lemma loop_invI:
  assumes "mset (added s) = mset (tasks s) + mset (map fst (fired s)) + mset (dropped s)"
    and "worker s = WIdle \<Longrightarrow> \<exists>t0 \<le> now s. \<not> due P t0 (tasks s)"
    and "\<And>d t. worker s = WWait d \<Longrightarrow> t \<in> set (tasks s) \<Longrightarrow> wakes d t"
    and "worker s = WDone \<Longrightarrow> stopped s"
  shows "loop_inv s"
  using assms by (simp add: loop_inv_def)

lemma loop_inv_init: "loop_inv (wsys_init t)"
  by (simp add: loop_inv_def wsys_init_def)

lemma loop_inv_work:
  assumes inv: "loop_inv s" and st: "work P k (worker s) s = Some s'"
  shows "loop_inv s'"
proof (cases "worker s")
  case WInner
  with st inv show ?thesis
    by (auto simp: loop_inv_def mset_remove_nth [symmetric] split: if_splits)
next
  case WIdle
  with inv obtain t0 where "t0 \<le> now s" "\<not> due P t0 (tasks s)" by (auto simp: loop_inv_def)
  then have "bedtime P (now s) (tasks s) = Some d \<Longrightarrow> t \<in> set (tasks s) \<Longrightarrow> wakes d t" for d t
    by (blast intro: bedtime_wakes)
  with WIdle st inv show ?thesis by (auto simp: loop_inv_def split: option.splits)
qed (use inv st in \<open>auto simp: loop_inv_def split: if_splits\<close>)

lemma loop_inv_step:
  assumes inv: "loop_inv s" and st: "worker_step P a s = Some s'"
  shows "loop_inv s'"
proof (cases a)
  case (Add t)
  with inv st show ?thesis
    by (auto simp: loop_inv_def add_task_def holds_mutex_def split: if_splits wpc.splits)
next
  case (Stop order)
  with st have "mset order = mset (tasks s)" "s' = stop_tasks order s" "worker s \<noteq> WIdle"
    by (auto simp: holds_mutex_def split: if_splits dest: drains_mset)
  with inv show ?thesis
    by (intro loop_invI) (auto simp: loop_inv_def stop_tasks_def bedtime_empty split: wpc.splits)
next
  case (Tick t)
  with st have "s' = s\<lparr>now := t\<rparr>" "now s \<le> t" by (auto split: if_splits)
  with inv show ?thesis by (auto simp: loop_inv_def intro: order_trans)
next
  case (Work k)
  with inv st show ?thesis by (simp add: loop_inv_work)
next
  case Timeout
  with st have "s' = s\<lparr>worker := WWake\<rparr>" by (auto split: wpc.splits option.splits if_splits)
  with inv show ?thesis by (simp add: loop_inv_def)
next
  case Spurious
  with st have "s' = s\<lparr>worker := WWake\<rparr>" by (auto split: wpc.splits)
  with inv show ?thesis by (simp add: loop_inv_def)
qed

lemma loop_machine: "machine_inv (worker_step P) (wsys_init t) loop_inv"
  by unfold_locales (auto intro: loop_inv_init loop_inv_step)

lemma reachable_loop_inv: "reachable (worker_step P) (wsys_init t) s \<Longrightarrow> loop_inv s"
  by (rule machine_inv.reachable_inv [OF loop_machine])

lemma not_due_empty: "\<not> due P t []"
  using due_front [of t "[]"] by auto

text \<open>
  A due container: the worker alone starts a front task within five steps, wherever it is
  outside a task.
\<close>

lemma fires:
  assumes "due P (now s) (tasks s)" and "worker s = WInner"
  shows "\<exists>k < length (tasks s). front P (tasks s) k \<and>
    worker_step P (Work k) s = Some (s\<lparr>worker := WRun (tasks s ! k), tasks := remove_nth k (tasks s),
                         fired := fired s @ [(tasks s ! k, now s)]\<rparr>)"
  using due_front [OF assms(1)] assms by auto

lemma starts_step:
  assumes "worker_step P a s = Some t" and "a = Timeout \<or> (\<exists>k. a = Work k)"
    and "tasks t = tasks s" and "now t = now s" and "fired t = fired s" and "starts_within P n t"
  shows "starts_within P (Suc n) s"
proof -
  from assms(6) obtain as s' k where as: "length as \<le> n" "\<forall>a \<in> set as. a = Timeout \<or> (\<exists>k. a = Work k)"
    "run (worker_step P) as t = Some s'" "k < length (tasks t)" "front P (tasks t) k"
    "worker s' = WRun (tasks t ! k)" "fired s' = fired t @ [(tasks t ! k, now t)]"
    unfolding starts_within_def by blast
  then have "length (a # as) \<le> Suc n" "\<forall>b \<in> set (a # as). b = Timeout \<or> (\<exists>k. b = Work k)"
    "run (worker_step P) (a # as) s = Some s'" using assms(1,2) by auto
  with as assms(3-5) show ?thesis unfolding starts_within_def by metis
qed

lemma starts_mono: "starts_within P m s \<Longrightarrow> m \<le> n \<Longrightarrow> starts_within P n s"
  unfolding starts_within_def by (meson le_trans)

lemma starts_inner:
  assumes "due P (now s) (tasks s)" and "worker s = WInner"
  shows "starts_within P 1 s"
proof -
  obtain k where k: "k < length (tasks s)" "front P (tasks s) k"
    "worker_step P (Work k) s = Some (s\<lparr>worker := WRun (tasks s ! k), tasks := remove_nth k (tasks s),
                         fired := fired s @ [(tasks s ! k, now s)]\<rparr>)"
    using fires [OF assms] by blast
  show ?thesis unfolding starts_within_def
    by (rule exI [of _ "[Work k]"]) (use k in auto)
qed

lemma starts_check:
  assumes "due P (now s) (tasks s)" and "worker s = WCheck" and "\<not> stopped s"
  shows "starts_within P 2 s"
proof -
  let ?t = "s\<lparr>worker := WInner\<rparr>"
  have "starts_within P 1 ?t" using assms by (intro starts_inner) simp_all
  then have "starts_within P (Suc 1) s" using assms by (intro starts_step [of "Work 0" s ?t]) simp_all
  then show ?thesis by (simp only: Suc_1)
qed

lemma starts_wake:
  assumes "due P (now s) (tasks s)" and "worker s = WWake" and "\<not> stopped s"
  shows "starts_within P 3 s"
proof -
  let ?t = "s\<lparr>worker := WCheck\<rparr>"
  have "starts_within P 2 ?t" using assms by (intro starts_check) simp_all
  then have "starts_within P (Suc 2) s" using assms by (intro starts_step [of "Work 0" s ?t]) simp_all
  then show ?thesis by simp
qed

lemma loop_progress:
  assumes inv: "loop_inv s" and d: "due P (now s) (tasks s)" and st: "\<not> stopped s"
    and pc: "\<And>t. worker s \<noteq> WRun t"
  shows "starts_within P 4 s"
proof (cases "worker s")
  case WEntry
  have "starts_within P 2 (s\<lparr>worker := WCheck\<rparr>)" using d st by (intro starts_check) simp_all
  then have "starts_within P (Suc 2) s" using WEntry by (intro starts_step [of "Work 0" s]) simp_all
  then show ?thesis by (rule starts_mono) simp
next
  case WCheck
  from starts_check [OF d this st] show ?thesis by (rule starts_mono) simp
next
  case WInner
  from starts_inner [OF d this] show ?thesis by (rule starts_mono) simp
next
  case WRelock
  have "starts_within P 1 (s\<lparr>worker := WInner\<rparr>)" using d by (intro starts_inner) simp_all
  then have "starts_within P (Suc 1) s" using WRelock by (intro starts_step [of "Work 0" s]) simp_all
  then show ?thesis by (rule starts_mono) simp
next
  case WIdle
  with inv obtain t0 where "t0 \<le> now s" "\<not> due P t0 (tasks s)" by (auto simp: loop_inv_def)
  with d have b: "bedtime P (now s) (tasks s) = None" using due_awake by blast
  have "starts_within P 2 (s\<lparr>worker := WCheck\<rparr>)" using d st by (intro starts_check) simp_all
  then have "starts_within P (Suc 2) s" using WIdle b by (intro starts_step [of "Work 0" s]) simp_all
  then show ?thesis by (rule starts_mono) simp
next
  case (WWait w)
  with inv have "\<forall>t \<in> set (tasks s). wakes w t" by (simp add: loop_inv_def)
  from wakes_due [OF d this] obtain x where x: "w = Some x" "x \<le> now s" by blast
  have "starts_within P 3 (s\<lparr>worker := WWake\<rparr>)" using d st by (intro starts_wake) simp_all
  then have "starts_within P (Suc 3) s" using WWait x by (intro starts_step [of Timeout s]) simp_all
  then show ?thesis by (rule starts_mono) simp
next
  case WWake
  from starts_wake [OF d this st] show ?thesis by (rule starts_mono) simp
qed (use pc inv st in \<open>simp_all add: loop_inv_def\<close>)

text \<open>
  Stopping: the worker ends in three steps, unless it was inside a task, which leads it past the
  test of the stop flag into a wait that only a further task or a spurious wake-up ends.
\<close>

lemma stop_ends:
  assumes "worker_step P (Stop order) s = Some s'" and "\<not> in_task (worker s)"
  shows "\<exists>n \<le> 2. \<exists>s''. run (worker_step P) (replicate n (Work 0)) s' = Some s'' \<and> worker s'' = WDone"
proof -
  have s': "s' = stop_tasks order s" and m: "\<not> holds_mutex (worker s)" using assms(1) by (auto split: if_splits)
  have st: "stopped s'" by (simp add: s' stop_tasks_def)
  have "worker s' = WEntry \<or> worker s' = WWake \<or> worker s' = WDone"
    using m assms(2) by (cases "worker s") (auto simp: s' stop_tasks_def holds_mutex_def in_task_def)
  then show ?thesis
  proof (elim disjE)
    assume "worker s' = WDone"
    then show ?thesis by (intro exI [of _ 0]) simp
  qed (use st in \<open>auto simp: numeral_2_eq_2 intro!: exI [of _ 2]\<close>)
qed

lemma hung_step:
  assumes "hung s" and "a \<noteq> Spurious \<and> (\<forall>q. a \<noteq> Stop q) \<and> (\<forall>t. a = Add t \<longrightarrow> \<not> accepts P True)" and "worker_step P a s = Some s'"
  shows "hung s'"
proof (cases a)
  case (Work k)
  with assms show ?thesis
    by (cases "worker s") (auto simp: hung_def in_task_def not_due_empty bedtime_empty)
qed (use assms in \<open>auto simp: hung_def add_task_def split: if_splits wpc.splits option.splits\<close>)

lemma hung_never_joins:
  assumes "worker_step P (Stop order) s = Some s'" and "in_task (worker s)"
    and "\<forall>a \<in> set as. a \<noteq> Spurious \<and> (\<forall>q. a \<noteq> Stop q) \<and> (\<forall>t. a = Add t \<longrightarrow> \<not> accepts P True)"
    and "run (worker_step P) as s' = Some t"
  shows "join t = None"
proof -
  have "hung s'" using assms(1,2)
    by (auto simp: hung_def stop_tasks_def in_task_def split: if_splits)
  have "machine_inv_on (worker_step P)
      (\<lambda>a. a \<noteq> Spurious \<and> (\<forall>q. a \<noteq> Stop q) \<and> (\<forall>t. a = Add t \<longrightarrow> \<not> accepts P True)) s' hung"
    using \<open>hung s'\<close> by unfold_locales (assumption, rule hung_step)
  from machine_inv_on.run_inv_on [OF this \<open>hung s'\<close> _ assms(4)] assms(3) have "hung t" by simp
  then show ?thesis by (auto simp: hung_def join_def)
qed

end

end
