(* ===== verification/Looper.thy ===== *)
theory Looper
  imports Worker
begin

text \<open>
  \<open>LooperSchedulerRunner\<close> of \<open>include/looper.hpp\<close>, as a policy of the worker loop: a FIFO queue
  of coroutine handles, run whenever it is not empty; and the awaitable \<open>sched\<close> of
  \<open>include/scheduler.hpp\<close>.
\<close>

section \<open>The policy\<close>

definition looper_policy :: "handle policy" where
  "looper_policy = \<lparr>due = (\<lambda>t q. q \<noteq> []), front = (\<lambda>q k. k = 0), bedtime = (\<lambda>t q. Some None),
     accepts = Not, drains = (\<lambda>q order. order = q)\<rparr>"

definition submit :: "handle \<Rightarrow> handle wsys \<Rightarrow> handle wsys" where
  "submit h s = add_task looper_policy h s"

definition looper_stop :: "handle wsys \<Rightarrow> handle wsys" where
  "looper_stop s = stop_tasks (tasks s) s"

definition looper_step :: "handle wact \<Rightarrow> handle wsys \<Rightarrow> handle wsys option" where
  "looper_step = worker_step looper_policy"

lemma looper_policy_simps [simp]:
  "due looper_policy t q \<longleftrightarrow> q \<noteq> []" "front looper_policy q k \<longleftrightarrow> k = 0" "bedtime looper_policy t q = Some None"
  "accepts looper_policy b \<longleftrightarrow> \<not> b" "drains looper_policy q order \<longleftrightarrow> order = q"
  by (simp_all add: looper_policy_def)

lemma looper_step_submit: "looper_step (Add h) s = (if holds_mutex (worker s) then None else Some (submit h s))"
  by (simp add: looper_step_def submit_def)

lemma looper_step_stop:
  "looper_step (Stop order) s = (if holds_mutex (worker s) \<or> order \<noteq> tasks s then None else Some (looper_stop s))"
  by (auto simp: looper_step_def looper_stop_def)

text \<open>No wait of the looper has a deadline, so none may begin with a task in the queue.\<close>

interpretation looper: task_policy looper_policy "\<lambda>d h. False"
  by unfold_locales auto

section \<open>\<open>sched\<close>\<close>

text \<open>
  \<open>SchedAwaitable\<close> is never ready and submits the suspended coroutine, unless it is done; the
  trivial scheduler resumes it on the spot.
\<close>

definition sched_await_ready :: bool where
  "sched_await_ready = False"

definition sched_await_suspend :: "(handle \<Rightarrow> 's \<Rightarrow> 's) \<Rightarrow> bool \<Rightarrow> handle \<Rightarrow> 's \<Rightarrow> 's" where
  "sched_await_suspend scheduler_submit is_done h s = (if is_done then s else scheduler_submit h s)"

definition trivial_submit :: "(handle \<Rightarrow> 's \<Rightarrow> 's) \<Rightarrow> handle \<Rightarrow> 's \<Rightarrow> 's" where
  "trivial_submit resume h s = resume h s"

section \<open>Every accepted coroutine once, in order\<close>

definition fifo_inv :: "handle wsys \<Rightarrow> bool" where
  "fifo_inv s \<longleftrightarrow> added s = map fst (fired s) @ dropped s @ tasks s \<and>
     (stopped s \<longrightarrow> tasks s = []) \<and> (\<not> stopped s \<longrightarrow> dropped s = [])"

lemma fifo_step:
  assumes inv: "fifo_inv s" and st: "looper_step a s = Some s'"
  shows "fifo_inv s'"
proof (cases a)
  case (Add h)
  with inv st show ?thesis
    by (auto simp: looper_step_submit submit_def add_task_def fifo_inv_def split: if_splits)
next
  case (Stop order)
  with inv st show ?thesis
    by (auto simp: looper_step_stop looper_stop_def stop_tasks_def fifo_inv_def split: if_splits)
next
  case (Work k)
  with st have "work looper_policy k (worker s) s = Some s'" by (simp add: looper_step_def)
  with inv show ?thesis
    by (cases "worker s") (auto simp: fifo_inv_def remove_nth_def neq_Nil_conv split: if_splits)
qed (use inv st in \<open>auto simp: looper_step_def fifo_inv_def split: wpc.splits option.splits if_splits\<close>)

lemma fifo_init: "fifo_inv (wsys_init t)"
  by (simp add: fifo_inv_def wsys_init_def)

interpretation fifo: machine_inv looper_step "wsys_init t" fifo_inv for t
  by unfold_locales (auto intro: fifo_step fifo_init)

text \<open>
  C29. The looper runs coroutines in the order in which they were submitted, each submission
  once. The accepted submissions are those run so far, followed by those destroyed by \<open>stop\<close>,
  followed by those in the queue; nothing is destroyed before \<open>stop\<close>, and after it the queue
  is empty and a submission has no effect: its coroutine is neither run nor destroyed.
\<close>

theorem looper_fifo_once:
  assumes "reachable looper_step (wsys_init t) s"
  shows "added s = map fst (fired s) @ dropped s @ tasks s \<and>
    (stopped s \<longrightarrow> tasks s = [] \<and> (\<forall>h. submit h s = s)) \<and> (\<not> stopped s \<longrightarrow> dropped s = [])"
proof -
  have "fifo_inv s" using fifo.reachable_inv [OF assms] .
  then show ?thesis by (simp add: fifo_inv_def submit_def add_task_def)
qed

lemmas looper_eval = looper_step_def wsys_init_def add_task_def stop_tasks_def notify_def holds_mutex_def
  remove_nth_def

definition looper_demo :: "handle wact list" where
  "looper_demo = [Add 5, Work 0, Work 0, Work 0, Add 6, Add 7, Work 0, Work 0, Work 0, Stop [7], Add 9]"

lemma looper_demo_runs:
  "\<exists>s. run looper_step looper_demo (wsys_init 0) = Some s \<and> map fst (fired s) = [5, 6] \<and> dropped s = [7]"
  by (simp add: looper_demo_def looper_eval)

theorem looper_fifo_once_witness:
  "\<exists>s. run looper_step looper_demo (wsys_init 0) = Some s \<and>
     added s = map fst (fired s) @ dropped s @ tasks s \<and> map fst (fired s) = [5, 6] \<and> dropped s = [7]"
proof -
  obtain s where s: "run looper_step looper_demo (wsys_init 0) = Some s"
    "map fst (fired s) = [5, 6]" "dropped s = [7]"
    using looper_demo_runs by (elim exE conjE)
  have "added s = map fst (fired s) @ dropped s @ tasks s"
    using looper_fifo_once [OF reachable_run [OF s(1)]] by (rule conjunct1)
  with s show ?thesis by (intro exI [of _ s] conjI)
qed

section \<open>Nobody is forgotten\<close>

text \<open>
  C30. The looper has no lost wake-up. In every reachable state with a coroutine in the queue the
  worker is not blocked in the condition variable, and unless it is inside a coroutine it
  starts the first one within four steps of its own.
\<close>

theorem looper_no_lost_wakeup:
  assumes "reachable looper_step (wsys_init t) s" and "tasks s \<noteq> []"
  shows "(\<forall>d. worker s \<noteq> WWait d) \<and>
    ((\<forall>h. worker s \<noteq> WRun h) \<longrightarrow> (\<exists>as s'. length as \<le> 4 \<and> (\<forall>a \<in> set as. a = Timeout \<or> (\<exists>k. a = Work k)) \<and>
       run looper_step as s = Some s' \<and> worker s' = WRun (hd (tasks s))))"
proof -
  have inv: "looper.loop_inv s" using looper.reachable_loop_inv assms(1) by (simp add: looper_step_def)
  have st: "\<not> stopped s" using fifo.reachable_inv [OF assms(1)] assms(2) by (auto simp: fifo_inv_def)
  have "\<exists>as s'. length as \<le> 4 \<and> (\<forall>a \<in> set as. a = Timeout \<or> (\<exists>k. a = Work k)) \<and>
       run looper_step as s = Some s' \<and> worker s' = WRun (hd (tasks s))" if "\<forall>h. worker s \<noteq> WRun h"
    using looper.loop_progress [OF inv _ st] that assms(2)
    by (auto simp: starts_within_def looper_step_def hd_conv_nth)
  with inv assms(2) show ?thesis by (auto simp: looper.loop_inv_def)
qed

theorem looper_no_lost_wakeup_witness:
  "\<exists>s. run looper_step [Work 0, Work 0, Work 0, Work 0, Add 5] (wsys_init 0) = Some s \<and>
     (\<exists>as s'. length as \<le> 4 \<and> run looper_step as s = Some s' \<and> worker s' = WRun 5)"
proof -
  have "\<exists>s. run looper_step [Work 0, Work 0, Work 0, Work 0, Add 5] (wsys_init 0) = Some s \<and>
     tasks s = [5] \<and> worker s = WWake"
    by (simp add: looper_eval)
  then obtain s where s: "run looper_step [Work 0, Work 0, Work 0, Work 0, Add 5] (wsys_init 0) = Some s"
    "tasks s = [5]" "worker s = WWake" by blast
  from looper_no_lost_wakeup [OF reachable_run [OF s(1)]] s show ?thesis by auto
qed

section \<open>Stopping\<close>

text \<open>
  \<open>stop\<close> ends the worker exactly when the worker is not inside a coroutine. If it is
  not, two steps of its own suffice for \<open>join\<close> to return. If it is, then, whatever is
  submitted and however long it takes, \<open>join\<close> never returns unless \<open>stop\<close> is called
  again or the wait ends spuriously: after the coroutine the worker goes into the wait without
  looking at \<open>m_stop\<close>.
\<close>

theorem looper_stop_ends_or_hangs:
  assumes "looper_step (Stop order) s = Some s'"
  shows "(\<not> in_task (worker s) \<longrightarrow>
      (\<exists>n \<le> 2. \<exists>t. run looper_step (replicate n (Work 0)) s' = Some t \<and> join t \<noteq> None)) \<and>
    (in_task (worker s) \<longrightarrow> (\<forall>as t. (\<forall>a \<in> set as. a \<noteq> Spurious \<and> (\<forall>q. a \<noteq> Stop q)) \<and>
      run looper_step as s' = Some t \<longrightarrow> join t = None))"
proof (intro conjI impI)
  assume "\<not> in_task (worker s)"
  then show "\<exists>n \<le> 2. \<exists>t. run looper_step (replicate n (Work 0)) s' = Some t \<and> join t \<noteq> None"
    using looper.stop_ends assms by (fastforce simp: looper_step_def join_def)
next
  assume h: "in_task (worker s)"
  show "\<forall>as t. (\<forall>a \<in> set as. a \<noteq> Spurious \<and> (\<forall>q. a \<noteq> Stop q)) \<and>
      run looper_step as s' = Some t \<longrightarrow> join t = None"
    by (intro allI impI, elim conjE, rule looper.hung_never_joins [OF assms [unfolded looper_step_def] h])
      (auto simp: looper_step_def)
qed

theorem looper_stop_ends_or_hangs_witness:
  "\<exists>s. run looper_step [Add 5, Work 0, Work 0, Work 0, Stop []] (wsys_init 0) = Some s \<and>
     (\<forall>as t. (\<forall>a \<in> set as. a \<noteq> Spurious \<and> (\<forall>q. a \<noteq> Stop q)) \<and> run looper_step as s = Some t \<longrightarrow> join t = None)"
proof -
  let ?s = "\<lparr>tasks = [], stopped = False, worker = WRun 5, now = 0, added = [5], fired = [(5, 0)], dropped = []\<rparr>"
  have r: "run looper_step [Add 5, Work 0, Work 0, Work 0] (wsys_init 0) = Some ?s" by (simp add: looper_eval)
  obtain s' where st: "looper_step (Stop []) ?s = Some s'" by (simp add: looper_eval)
  have "run looper_step ([Add 5, Work 0, Work 0, Work 0] @ [Stop []]) (wsys_init 0) = Some s'"
    using r st by (simp only: run_append) simp
  moreover have "in_task (worker ?s)" by simp
  note looper_stop_ends_or_hangs [OF st, THEN conjunct2, rule_format (no_asm), OF this]
  ultimately show ?thesis by (intro exI [of _ s']) simp
qed

end
