(* ===== verification/Sched.thy ===== *)
theory Sched
  imports Looper
begin

text \<open>
  \<open>co_await sched<LooperScheduler>()\<close>: coroutines that move to the looper's worker, the awaitable of
  \<open>include/scheduler.hpp\<close> over \<open>LooperScheduler\<close> and the machine of \<open>Looper\<close>.
\<close>

section \<open>The machine\<close>

text \<open>
  Where a coroutine is: running on a thread of the program or on the worker, suspended by \<open>sched\<close>
  on one of them (\<open>True\<close>: the worker) and about to submit itself, suspended, ended, destroyed.
\<close>

datatype hplace = HThread | HWorker | HSubmit bool | HSuspended | HOver | HDestroyed

text \<open>
  \<open>looper_runner\<close> is the static runner, which the first submission creates. Logs: \<open>hops\<close> counts the
  moves of a coroutine, \<open>unqueued\<close> are the coroutines that \<open>submit\<close> did not put into the queue.
\<close>

record hsys =
  looper_runner :: "handle wsys option"
  hplace_of :: "handle \<Rightarrow> hplace"
  hops :: "handle \<Rightarrow> nat"
  unqueued :: "handle list"
  hbad :: "fault option"

definition hsys_init :: hsys where
  "hsys_init = \<lparr>looper_runner = None, hplace_of = (\<lambda>h. HThread), hops = (\<lambda>h. 0), unqueued = [], hbad = None\<rparr>"

text \<open>The clock plays no part in the looper.\<close>

definition the_runner :: "hsys \<Rightarrow> handle wsys" where
  "the_runner s = (case looper_runner s of None \<Rightarrow> wsys_init 0 | Some r \<Rightarrow> r)"

definition scheduler_submit :: "handle \<Rightarrow> hsys \<Rightarrow> hsys" where
  "scheduler_submit h s = s\<lparr>looper_runner := Some (submit h (the_runner s)),
     unqueued := (if stopped (the_runner s) then unqueued s @ [h] else unqueued s)\<rparr>"

definition put :: "handle \<Rightarrow> hplace \<Rightarrow> hsys \<Rightarrow> hsys" where
  "put h p s = s\<lparr>hplace_of := (hplace_of s)(h := p)\<rparr>"

text \<open>
  What the worker and \<open>stop\<close> do with handles: \<open>resume\<close> and \<open>destroy\<close> are undefined unless the coroutine
  is suspended.
\<close>

definition worker_resume :: "handle \<Rightarrow> hsys \<Rightarrow> hsys" where
  "worker_resume h s = (if hplace_of s h = HSuspended then put h HWorker s else s\<lparr>hbad := Some Unreachable\<rparr>)"

definition destroy_all :: "handle list \<Rightarrow> hsys \<Rightarrow> hsys" where
  "destroy_all hs s = (if distinct hs \<and> (\<forall>h \<in> set hs. hplace_of s h = HSuspended)
     then s\<lparr>hplace_of := (\<lambda>h. if h \<in> set hs then HDestroyed else hplace_of s h)\<rparr>
     else s\<lparr>hbad := Some Unreachable\<rparr>)"

text \<open>
  \<open>Hop\<close>: a running coroutine reaches \<open>co_await sched()\<close> and is suspended; \<open>Submit\<close>: \<open>await_suspend\<close>;
  \<open>Finish\<close>: the coroutine ends. The others are of the runner; its worker goes on after \<open>resume\<close>
  once the coroutine is suspended again and through \<open>await_suspend\<close>, or over.
\<close>

datatype hact = Hop handle | Submit handle | Finish handle | StopAll | AtWorker nat | SpuriousWake

definition on_worker :: "hplace \<Rightarrow> bool" where
  "on_worker p \<longleftrightarrow> p = HWorker \<or> p = HSubmit True"

definition with_runner :: "handle wact \<Rightarrow> (handle wsys \<Rightarrow> hsys \<Rightarrow> hsys) \<Rightarrow> hsys \<Rightarrow> hsys option" where
  "with_runner a k s = (case looper_runner s of None \<Rightarrow> None
   | Some r \<Rightarrow> (case looper_step a r of None \<Rightarrow> None | Some r' \<Rightarrow> Some (k r' (s\<lparr>looper_runner := Some r'\<rparr>))))"

definition worker_act :: "nat \<Rightarrow> hsys \<Rightarrow> hsys option" where
  "worker_act k s = (case worker (the_runner s) of
     WInner \<Rightarrow> with_runner (Work k) (\<lambda>r'. case worker r' of WRun h \<Rightarrow> worker_resume h | _ \<Rightarrow> id) s
   | WRun h \<Rightarrow> if on_worker (hplace_of s h) then None else with_runner (Work k) (\<lambda>r'. id) s
   | _ \<Rightarrow> with_runner (Work k) (\<lambda>r'. id) s)"

fun hop_act :: "hact \<Rightarrow> hsys \<Rightarrow> hsys option" where
  "hop_act (Hop h) s = (case hplace_of s h of
     HThread \<Rightarrow> Some (if sched_await_ready then s else put h (HSubmit False) s)
   | HWorker \<Rightarrow> Some (if sched_await_ready then s else put h (HSubmit True) s)
   | _ \<Rightarrow> None)"
| "hop_act (Submit h) s = (case hplace_of s h of
     HSubmit w \<Rightarrow>
       if holds_mutex (worker (the_runner s)) then None
       else Some (sched_await_suspend scheduler_submit False h ((put h HSuspended s)\<lparr>hops := (hops s)(h := hops s h + 1)\<rparr>))
   | _ \<Rightarrow> None)"
| "hop_act (Finish h) s = (if hplace_of s h = HThread \<or> hplace_of s h = HWorker then Some (put h HOver s) else None)"
| "hop_act StopAll s = with_runner (Stop (tasks (the_runner s))) (\<lambda>r'. destroy_all (tasks (the_runner s))) s"
| "hop_act (AtWorker k) s = worker_act k s"
| "hop_act SpuriousWake s = with_runner Spurious (\<lambda>r'. id) s"

definition hop_step :: "hact \<Rightarrow> hsys \<Rightarrow> hsys option" where
  "hop_step a s = (if hbad s \<noteq> None then None else hop_act a s)"

section \<open>The invariant\<close>

text \<open>
  A coroutine is suspended exactly when it is in the queue or was turned away, in the queue at most
  once; what runs on the worker is the task the worker is in.
\<close>

definition hop_inv :: "hsys \<Rightarrow> bool" where
  "hop_inv s \<longleftrightarrow> hbad s = None \<and> reachable looper_step (wsys_init 0) (the_runner s) \<and>
     distinct (tasks (the_runner s) @ unqueued s) \<and>
     (\<forall>h. hplace_of s h = HSuspended \<longleftrightarrow> h \<in> set (tasks (the_runner s) @ unqueued s)) \<and>
     (\<forall>h. on_worker (hplace_of s h) \<longrightarrow> worker (the_runner s) = WRun h) \<and>
     (\<forall>h. hplace_of s h = HDestroyed \<longleftrightarrow> h \<in> set (dropped (the_runner s))) \<and>
     (\<forall>h. hops s h = count_list (added (the_runner s) @ unqueued s) h) \<and>
     (unqueued s \<noteq> [] \<longrightarrow> stopped (the_runner s))"

lemma hop_invD:
  assumes "hop_inv s"
  shows "hbad s = None" and "distinct (tasks (the_runner s) @ unqueued s)"
    and "hplace_of s h = HSuspended \<longleftrightarrow> h \<in> set (tasks (the_runner s) @ unqueued s)"
    and "on_worker (hplace_of s h) \<Longrightarrow> worker (the_runner s) = WRun h"
    and "hplace_of s h = HDestroyed \<longleftrightarrow> h \<in> set (dropped (the_runner s))"
    and "hops s h = count_list (added (the_runner s) @ unqueued s) h"
    and "unqueued s \<noteq> [] \<Longrightarrow> stopped (the_runner s)"
  using assms by (simp_all add: hop_inv_def)

lemma put_fields [simp]:
  "looper_runner (put h p s) = looper_runner s" "hplace_of (put h p s) = (hplace_of s)(h := p)"
  "hops (put h p s) = hops s" "unqueued (put h p s) = unqueued s" "hbad (put h p s) = hbad s"
  "the_runner (put h p s) = the_runner s"
  by (simp_all add: put_def the_runner_def)

lemma the_runner_upd [simp]:
  "the_runner (s\<lparr>looper_runner := Some r\<rparr>) = r" "the_runner (s\<lparr>hops := f\<rparr>) = the_runner s"
  "the_runner (s\<lparr>hplace_of := g\<rparr>) = the_runner s" "the_runner (s\<lparr>unqueued := u\<rparr>) = the_runner s"
  by (simp_all add: the_runner_def)

lemma on_worker_simps [simp]:
  "on_worker HWorker" "on_worker (HSubmit w) = w" "\<not> on_worker HThread" "\<not> on_worker HSuspended"
  "\<not> on_worker HOver" "\<not> on_worker HDestroyed"
  by (simp_all add: on_worker_def)

lemma hop_inv_init: "hop_inv hsys_init"
  by (simp add: hop_inv_def hsys_init_def the_runner_def wsys_init_def)

lemma with_runner_Some:
  assumes "with_runner a k s = Some s'"
  obtains r' where "looper_step a (the_runner s) = Some r'" and "s' = k r' (s\<lparr>looper_runner := Some r'\<rparr>)"
  using assms by (auto simp: with_runner_def the_runner_def split: option.splits)

lemma runner_reached:
  "hop_inv s \<Longrightarrow> looper_step a (the_runner s) = Some r' \<Longrightarrow> reachable looper_step (wsys_init 0) r'"
  by (auto simp: hop_inv_def intro: reachable_step)

text \<open>A runner's step that leaves queue, logs and coroutines as they are, and is not from inside a task.\<close>

lemma hop_inv_quiet:
  assumes inv: "hop_inv s" and st: "looper_step a (the_runner s) = Some r'"
    and same: "tasks r' = tasks (the_runner s)" "dropped r' = dropped (the_runner s)"
      "added r' = added (the_runner s)" "stopped r' = stopped (the_runner s)"
    and away: "\<And>h. on_worker (hplace_of s h) \<Longrightarrow> worker r' = WRun h"
  shows "hop_inv (s\<lparr>looper_runner := Some r'\<rparr>)"
  using inv away runner_reached [OF inv st] unfolding hop_inv_def by (simp add: same)

lemma hop_inv_take:
  assumes inv: "hop_inv s" and w: "worker (the_runner s) = WInner"
    and st: "looper_step (Work k) (the_runner s) = Some r'" and w': "worker r' = WRun h"
  shows "hop_inv (worker_resume h (s\<lparr>looper_runner := Some r'\<rparr>))"
proof -
  have q: "tasks (the_runner s) = h # tasks r'" "dropped r' = dropped (the_runner s)" "added r' = added (the_runner s)"
    "stopped r' = stopped (the_runner s)"
    using st w w' by (auto simp: looper_step_def remove_nth_def neq_Nil_conv split: if_splits)
  have "hplace_of s h = HSuspended" using hop_invD(3) [OF inv] q(1) by simp
  moreover from this have "h \<notin> set (dropped (the_runner s))" using hop_invD(5) [OF inv, of h] by simp
  moreover have "\<not> on_worker (hplace_of s g)" for g using inv w by (auto simp: hop_inv_def)
  ultimately show ?thesis using inv q w' runner_reached [OF inv st]
    unfolding hop_inv_def worker_resume_def by auto
qed

lemma hop_inv_worker:
  assumes inv: "hop_inv s" and st: "worker_act k s = Some s'"
  shows "hop_inv s'"
proof -
  obtain r' where r: "looper_step (Work k) (the_runner s) = Some r'"
    using st by (auto simp: worker_act_def split: wpc.splits if_splits elim!: with_runner_Some)
  have away: "\<not> on_worker (hplace_of s h)" if "\<forall>h. worker (the_runner s) \<noteq> WRun h" for h
    using inv that by (auto simp: hop_inv_def)
  show ?thesis
  proof (cases "worker (the_runner s)")
    case WInner
    with st r have s': "s' = (case worker r' of WRun h \<Rightarrow> worker_resume h | _ \<Rightarrow> id) (s\<lparr>looper_runner := Some r'\<rparr>)"
      by (auto simp: worker_act_def elim!: with_runner_Some)
    show ?thesis
    proof (cases "\<exists>h. worker r' = WRun h")
      case True
      with s' hop_inv_take [OF inv WInner r] show ?thesis by auto
    next
      case False
      then have "s' = s\<lparr>looper_runner := Some r'\<rparr>" using s' by (cases "worker r'") simp_all
      moreover have "r' = (the_runner s)\<lparr>worker := WIdle\<rparr>"
        using r WInner False by (auto simp: looper_step_def split: if_splits)
      ultimately show ?thesis using hop_inv_quiet [OF inv r] away WInner by simp
    qed
  next
    case (WRun h)
    with st r have s': "s' = s\<lparr>looper_runner := Some r'\<rparr>" "\<not> on_worker (hplace_of s h)"
      by (auto simp: worker_act_def split: if_splits elim!: with_runner_Some)
    then have "\<not> on_worker (hplace_of s g)" for g using inv WRun unfolding hop_inv_def by (metis wpc.inject(1))
    with s' hop_inv_quiet [OF inv r] r WRun show ?thesis by (auto simp: looper_step_def)
  qed (use st r away hop_inv_quiet [OF inv r] in
      \<open>auto simp: worker_act_def looper_step_def split: if_splits elim!: with_runner_Some\<close>)
qed

lemma hop_inv_stop:
  assumes inv: "hop_inv s" and st: "hop_act StopAll s = Some s'"
  shows "hop_inv s'"
proof -
  obtain r' where r: "looper_step (Stop (tasks (the_runner s))) (the_runner s) = Some r'"
    and s': "s' = destroy_all (tasks (the_runner s)) (s\<lparr>looper_runner := Some r'\<rparr>)"
    using st by (auto elim!: with_runner_Some)
  have f: "tasks r' = []" "dropped r' = dropped (the_runner s) @ tasks (the_runner s)" "added r' = added (the_runner s)"
    "stopped r'" "\<And>h. worker (the_runner s) = WRun h \<Longrightarrow> worker r' = WRun h"
    using r by (auto simp: looper_step_stop looper_stop_def stop_tasks_def split: if_splits)
  have I: "distinct (tasks (the_runner s) @ unqueued s)"
    "\<And>h. hplace_of s h = HSuspended \<longleftrightarrow> h \<in> set (tasks (the_runner s) @ unqueued s)"
    using inv by (simp_all add: hop_inv_def)
  then have "s' = s\<lparr>looper_runner := Some r',
      hplace_of := (\<lambda>h. if h \<in> set (tasks (the_runner s)) then HDestroyed else hplace_of s h)\<rparr>"
    by (simp add: s' destroy_all_def cong: if_cong)
  with I inv f runner_reached [OF inv r] show ?thesis unfolding hop_inv_def by auto
qed

lemma hop_inv_submit:
  assumes inv: "hop_inv s" and p: "hplace_of s h = HSubmit w" and free: "\<not> holds_mutex (worker (the_runner s))"
    and s': "s' = scheduler_submit h ((put h HSuspended s)\<lparr>hops := (hops s)(h := hops s h + 1)\<rparr>)"
  shows "hop_inv s'"
proof -
  let ?r = "submit h (the_runner s)"
  have st: "looper_step (Add h) (the_runner s) = Some ?r" using free by (simp add: looper_step_submit)
  have f: "dropped ?r = dropped (the_runner s)" "stopped ?r = stopped (the_runner s)"
    "\<And>g. worker (the_runner s) = WRun g \<Longrightarrow> worker ?r = WRun g"
    "tasks ?r = tasks (the_runner s) @ (if stopped (the_runner s) then [] else [h])"
    "added ?r = added (the_runner s) @ (if stopped (the_runner s) then [] else [h])"
    by (auto simp: submit_def add_task_def)
  have new: "h \<notin> set (tasks (the_runner s) @ unqueued s)" "h \<notin> set (dropped (the_runner s))"
    using p hop_invD(3,5) [OF inv, of h] by auto
  have e: "s' = s\<lparr>looper_runner := Some ?r, hplace_of := (hplace_of s)(h := HSuspended), hops := (hops s)(h := hops s h + 1),
      unqueued := unqueued s @ (if stopped (the_runner s) then [h] else [])\<rparr>"
    by (simp add: s' scheduler_submit_def put_def)
  have q: "the_runner s' = ?r" by (simp add: e the_runner_def)
  show ?thesis unfolding hop_inv_def q
  proof (intro conjI allI impI)
    show "hbad s' = None" using hop_invD(1) [OF inv] by (simp add: e)
    show "reachable looper_step (wsys_init 0) ?r" using runner_reached [OF inv st] .
    show "distinct (tasks ?r @ unqueued s')" using new(1) hop_invD(2) [OF inv] by (auto simp: e f)
    show "stopped ?r" if "unqueued s' \<noteq> []"
      using that hop_invD(7) [OF inv] by (auto simp: e f split: if_splits)
  next
    fix g
    show "hplace_of s' g = HSuspended \<longleftrightarrow> g \<in> set (tasks ?r @ unqueued s')"
      using hop_invD(3) [OF inv, of g] by (auto simp: e f)
    show "worker ?r = WRun g" if "on_worker (hplace_of s' g)"
      using that hop_invD(4) [OF inv, of g] f(3) by (auto simp: e split: if_splits)
    show "hplace_of s' g = HDestroyed \<longleftrightarrow> g \<in> set (dropped ?r)"
      using new(2) hop_invD(5) [OF inv, of g] by (auto simp: e f(1))
    show "hops s' g = count_list (added ?r @ unqueued s') g"
      using hop_invD(6) [OF inv, of g] by (auto simp: e f(5))
  qed
qed

text \<open>A coroutine that runs goes on.\<close>

lemma hop_inv_put:
  assumes inv: "hop_inv s" and "hplace_of s h \<notin> {HSuspended, HDestroyed}" and "p \<notin> {HSuspended, HDestroyed}"
    and "on_worker p \<Longrightarrow> on_worker (hplace_of s h)"
  shows "hop_inv (put h p s)"
  using assms(2-4) hop_invD(3-5) [OF inv, of h] inv unfolding hop_inv_def by simp

lemma hop_inv_step:
  assumes inv: "hop_inv s" and st: "hop_step a s = Some s'"
  shows "hop_inv s'"
proof -
  have act: "hop_act a s = Some s'" using st by (simp add: hop_step_def split: if_splits)
  show ?thesis
  proof (cases a)
    case (Hop h)
    have "(hplace_of s h = HThread \<and> s' = put h (HSubmit False) s) \<or> (hplace_of s h = HWorker \<and> s' = put h (HSubmit True) s)"
      using act Hop by (simp add: sched_await_ready_def split: hplace.splits)
    then show ?thesis by (auto intro!: hop_inv_put [OF inv])
  next
    case (Submit h)
    with act hop_inv_submit [OF inv] show ?thesis
      by (auto simp: sched_await_suspend_def split: hplace.splits if_splits)
  next
    case (Finish h)
    with act show ?thesis by (auto intro!: hop_inv_put [OF inv] split: if_splits)
  next
    case SpuriousWake
    with act obtain r' where r: "looper_step Spurious (the_runner s) = Some r'" "s' = s\<lparr>looper_runner := Some r'\<rparr>"
      by (auto elim!: with_runner_Some)
    then obtain d where d: "worker (the_runner s) = WWait d" "r' = (the_runner s)\<lparr>worker := WWake\<rparr>"
      by (auto simp: looper_step_def split: wpc.splits)
    then have "\<not> on_worker (hplace_of s h)" for h using hop_invD(4) [OF inv, of h] by auto
    with r hop_inv_quiet [OF inv r(1)] d(2) show ?thesis by simp
  qed (use act hop_inv_worker [OF inv] hop_inv_stop [OF inv] in simp_all)
qed

interpretation hopping: machine_inv hop_step hsys_init hop_inv
  by unfold_locales (auto intro: hop_inv_init hop_inv_step)

section \<open>What \<open>sched\<close> does\<close>

lemma count_list_distinct: "distinct xs \<Longrightarrow> count_list xs x = (if x \<in> set xs then 1 else 0)"
  by (induction xs) auto

text \<open>
  C27. A coroutine that moves to the looper by \<open>sched\<close> goes on there, once for each time it moved. In
  every interleaving of any number of coroutines, on any threads, with the worker and with \<open>stop\<close>,
  the worker resumes and \<open>stop\<close> destroys only coroutines that are suspended, even when the
  worker takes a coroutine out before \<open>await_suspend\<close> has returned. Each move led to one resumption, to
  one destruction by \<open>stop\<close>, or is still in the queue, or was turned away; what runs after a resumption
  is the one coroutine the worker is in. While the looper is not stopped, a suspended coroutine is in
  the queue and the worker does not sleep.
\<close>

theorem sched_moves_once:
  assumes "reachable hop_step hsys_init s"
  shows "hbad s = None \<and>
    hops s h = count_list (map fst (fired (the_runner s))) h + count_list (dropped (the_runner s)) h
      + count_list (tasks (the_runner s)) h + count_list (unqueued s) h \<and>
    count_list (tasks (the_runner s)) h + count_list (unqueued s) h = (if hplace_of s h = HSuspended then 1 else 0) \<and>
    (hplace_of s h = HDestroyed \<longleftrightarrow> h \<in> set (dropped (the_runner s))) \<and>
    (on_worker (hplace_of s h) \<longrightarrow> worker (the_runner s) = WRun h) \<and>
    (\<not> stopped (the_runner s) \<and> hplace_of s h = HSuspended \<longrightarrow>
       h \<in> set (tasks (the_runner s)) \<and> (\<forall>d. worker (the_runner s) \<noteq> WWait d))"
proof -
  have inv: "hop_inv s" using hopping.reachable_inv [OF assms] .
  note D = hop_invD [OF inv] and sus = hop_invD(3) [OF inv, of h]
  have r: "reachable looper_step (wsys_init 0) (the_runner s)" using inv by (simp add: hop_inv_def)
  have "fifo_inv (the_runner s)" "looper.loop_inv (the_runner s)"
    using fifo.reachable_inv [OF r] looper.reachable_loop_inv r by (simp_all add: looper_step_def)
  then have a: "added (the_runner s) = map fst (fired (the_runner s)) @ dropped (the_runner s) @ tasks (the_runner s)"
    and w: "worker (the_runner s) = WWait d \<Longrightarrow> tasks (the_runner s) = []" for d
    by (auto simp: fifo_inv_def looper.loop_inv_def)
  have "hops s h = count_list (map fst (fired (the_runner s))) h + count_list (dropped (the_runner s)) h
      + count_list (tasks (the_runner s)) h + count_list (unqueued s) h"
    using D(6) [of h] by (simp add: a)
  moreover have "count_list (tasks (the_runner s)) h + count_list (unqueued s) h = (if hplace_of s h = HSuspended then 1 else 0)"
    using count_list_distinct [OF D(2), of h] sus by simp
  moreover have "h \<in> set (tasks (the_runner s)) \<and> (\<forall>d. worker (the_runner s) \<noteq> WWait d)"
    if "\<not> stopped (the_runner s) \<and> hplace_of s h = HSuspended"
    using that D(7) sus w by fastforce
  ultimately show ?thesis using D(1) D(4,5) [of h] by blast
qed

lemmas hop_eval = hop_step_def hsys_init_def put_def scheduler_submit_def sched_await_suspend_def sched_await_ready_def
  the_runner_def submit_def worker_act_def with_runner_def worker_resume_def destroy_all_def looper_eval

text \<open>Coroutine 5 moves to the worker, and again when it is there; 6 is destroyed, 7 turned away.\<close>

definition hop_demo :: "hact list" where
  "hop_demo = [Hop 5, Submit 5, AtWorker 0, AtWorker 0, AtWorker 0, Hop 5, Submit 5, AtWorker 0, AtWorker 0, AtWorker 0,
     Finish 5, Hop 6, Submit 6, StopAll, AtWorker 0, Hop 7, Submit 7]"

lemma hop_demo_run:
  "\<exists>s. run hop_step hop_demo hsys_init = Some s \<and> hops s 5 = 2 \<and> map fst (fired (the_runner s)) = [5, 5] \<and>
     hplace_of s 6 = HDestroyed \<and> hplace_of s 7 = HSuspended \<and> tasks (the_runner s) = []"
  by (simp add: hop_demo_def hop_eval)

theorem sched_moves_once_witness:
  "\<exists>s. run hop_step hop_demo hsys_init = Some s \<and> hbad s = None \<and> hops s 5 = 2 \<and>
     count_list (map fst (fired (the_runner s))) 5 = 2 \<and> count_list (unqueued s) 7 = 1"
proof -
  obtain s where s: "run hop_step hop_demo hsys_init = Some s" "hops s 5 = 2" "map fst (fired (the_runner s)) = [5, 5]"
    "hplace_of s 7 = HSuspended" "tasks (the_runner s) = []" using hop_demo_run by (elim exE conjE)
  note facts = sched_moves_once [OF reachable_run [OF s(1)]]
  have "hbad s = None" "count_list (unqueued s) 7 = 1" using facts [of 7] s(4,5) by simp_all
  with s show ?thesis by (intro exI [of _ s]) simp
qed

section \<open>After \<open>stop\<close>\<close>

lemma unqueued_step: "hop_step a s = Some s' \<Longrightarrow> set (unqueued s) \<subseteq> set (unqueued s')"
  by (cases a) (auto simp: hop_step_def put_def scheduler_submit_def sched_await_suspend_def worker_act_def
      worker_resume_def destroy_all_def split: if_splits hplace.splits wpc.splits elim!: with_runner_Some)

lemma unqueued_run: "run hop_step as s = Some s' \<Longrightarrow> set (unqueued s) \<subseteq> set (unqueued s')"
  by (induction as arbitrary: s) (auto split: option.splits dest!: unqueued_step)

text \<open>
  A coroutine that moves to a stopped looper is lost: \<open>submit\<close> returns without a trace, \<open>await_suspend\<close>
  has suspended the coroutine all the same, and whatever happens afterwards nobody resumes it or
  destroys its frame.
\<close>

theorem sched_after_stop_lost:
  assumes "reachable hop_step hsys_init s" and "stopped (the_runner s)"
    and "hop_step (Submit h) s = Some s'" and "run hop_step as s' = Some t"
  shows "hplace_of t h = HSuspended \<and> h \<notin> set (tasks (the_runner t)) \<and> h \<notin> set (dropped (the_runner t))"
proof -
  have "h \<in> set (unqueued s')"
    using assms(2,3) by (auto simp: hop_step_def sched_await_suspend_def scheduler_submit_def split: if_splits hplace.splits)
  with unqueued_run [OF assms(4)] have u: "h \<in> set (unqueued t)" by blast
  have inv: "hop_inv t"
    using hopping.run_inv [OF hopping.inv_step [OF hopping.reachable_inv [OF assms(1)] assms(3)] assms(4)] .
  with u hop_invD(2) [OF inv] hop_invD(3,5) [OF inv, of h] show ?thesis by auto
qed

theorem sched_after_stop_lost_witness:
  "\<exists>s s'. run hop_step [Hop 5, Submit 5, StopAll, Hop 7] hsys_init = Some s \<and> hop_step (Submit 7) s = Some s' \<and>
     (\<forall>as t. run hop_step as s' = Some t \<longrightarrow> hplace_of t 7 = HSuspended)"
proof -
  have "\<exists>s s'. run hop_step [Hop 5, Submit 5, StopAll, Hop 7] hsys_init = Some s \<and> hop_step (Submit 7) s = Some s' \<and>
     stopped (the_runner s)"
    by (simp add: hop_eval)
  then obtain s s' where s: "run hop_step [Hop 5, Submit 5, StopAll, Hop 7] hsys_init = Some s"
    "hop_step (Submit 7) s = Some s'" "stopped (the_runner s)" by blast
  with sched_after_stop_lost [OF reachable_run [OF s(1)] s(3,2)] show ?thesis by blast
qed

end
