(* ===== verification/Timer.thy ===== *)
theory Timer
  imports Worker
begin

text \<open>
  \<open>Timer\<close> of \<open>include/timer.hpp\<close>, as a policy of the worker loop: a priority queue of tasks by
  execution time, a wait until one millisecond before the earliest. Times are counts of
  nanoseconds; their width is not modelled.
\<close>

section \<open>Tasks and the priority queue\<close>

text \<open>A task: a function pointer for the time, one for cancelling or none, and their argument.\<close>

record 'c task =
  execute_time :: int
  callback :: 'c
  arg :: addr
  cancel_fn :: "'c option"

definition millisecond :: int where
  "millisecond = 1000000"

text \<open>
  \<open>std::priority_queue\<close> with \<open>TaskCompare\<close>: its top is an element with the least execution
  time, which one of several is not specified.
\<close>

definition earliest :: "'c task list \<Rightarrow> int" where
  "earliest q = Min (execute_time ` set q)"

definition task_top :: "'c task list \<Rightarrow> nat \<Rightarrow> bool" where
  "task_top q k \<longleftrightarrow> (\<forall>t \<in> set q. execute_time (q ! k) \<le> execute_time t)"

lemma earliest_le: "t \<in> set q \<Longrightarrow> earliest q \<le> execute_time t"
  by (simp add: earliest_def)

lemma earliest_in: "q \<noteq> [] \<Longrightarrow> \<exists>k < length q. execute_time (q ! k) = earliest q"
proof -
  assume "q \<noteq> []"
  then have "earliest q \<in> execute_time ` set q" unfolding earliest_def by (intro Min_in) auto
  then show ?thesis by (auto simp: in_set_conv_nth)
qed

lemma task_top_earliest: "k < length q \<Longrightarrow> task_top q k \<longleftrightarrow> execute_time (q ! k) = earliest q"
proof
  assume k: "k < length q" and t: "task_top q k"
  from k have "q \<noteq> []" by auto
  with earliest_in obtain j where "j < length q" "execute_time (q ! j) = earliest q" by blast
  with t have "execute_time (q ! k) \<le> earliest q" by (metis nth_mem task_top_def)
  with k show "execute_time (q ! k) = earliest q" by (simp add: earliest_le antisym)
next
  assume "execute_time (q ! k) = earliest q"
  then show "task_top q k" by (simp add: task_top_def earliest_le)
qed

section \<open>The policy\<close>

definition timer_policy :: "'c task policy" where
  "timer_policy = \<lparr>due = (\<lambda>t q. q \<noteq> [] \<and> earliest q \<le> t), front = task_top,
     bedtime = (\<lambda>t q. if q = [] then Some None
                      else if earliest q > t then Some (Some (earliest q - millisecond)) else None),
     accepts = (\<lambda>b. True),
     drains = (\<lambda>q order. mset order = mset q \<and> sorted (map execute_time order))\<rparr>"

definition timer_add :: "int \<Rightarrow> 'c \<Rightarrow> addr \<Rightarrow> 'c option \<Rightarrow> 'c task wsys \<Rightarrow> 'c task wsys" where
  "timer_add expire cb a cn s =
     add_task timer_policy \<lparr>execute_time = expire, callback = cb, arg = a, cancel_fn = cn\<rparr> s"

definition timer_add_after :: "int \<Rightarrow> 'c \<Rightarrow> addr \<Rightarrow> 'c option \<Rightarrow> 'c task wsys \<Rightarrow> 'c task wsys" where
  "timer_add_after delay cb a cn s = timer_add (now s + delay) cb a cn s"

text \<open>What \<open>stop\<close> calls.\<close>

definition cancel_calls :: "'c task list \<Rightarrow> ('c \<times> addr) list" where
  "cancel_calls order = concat (map (\<lambda>t. case cancel_fn t of None \<Rightarrow> [] | Some c \<Rightarrow> [(c, arg t)]) order)"

definition timer_step :: "'c task wact \<Rightarrow> 'c task wsys \<Rightarrow> 'c task wsys option" where
  "timer_step = worker_step timer_policy"

lemma timer_policy_simps [simp]:
  "due timer_policy t q \<longleftrightarrow> q \<noteq> [] \<and> earliest q \<le> t" "front timer_policy = task_top"
  "bedtime timer_policy t q = (if q = [] then Some None
     else if earliest q > t then Some (Some (earliest q - millisecond)) else None)"
  "accepts timer_policy b"
  "drains timer_policy q order \<longleftrightarrow> mset order = mset q \<and> sorted (map execute_time order)"
  by (simp_all add: timer_policy_def)

text \<open>A wait is in time for a task when its deadline is a millisecond before the task's.\<close>

definition in_time :: "int option \<Rightarrow> 'c task \<Rightarrow> bool" where
  "in_time d t \<longleftrightarrow> (\<exists>x. d = Some x \<and> x + millisecond \<le> execute_time t)"

interpretation timer: task_policy timer_policy in_time
proof unfold_locales
  fix t :: int and q :: "'c task list"
  show "due timer_policy t q \<Longrightarrow> \<exists>k<length q. front timer_policy q k"
    using earliest_in [of q] by (auto simp: task_top_earliest)
next
  fix t :: int and q :: "'c task list" and d
  assume d: "due timer_policy t q" and i: "\<forall>x \<in> set q. in_time d x"
  then obtain k where "k < length q" "execute_time (q ! k) = earliest q" using earliest_in by auto
  with i have "in_time d (q ! k)" by simp
  with d \<open>execute_time (q ! k) = earliest q\<close> show "\<exists>x. d = Some x \<and> x \<le> t"
    by (auto simp: in_time_def millisecond_def)
qed (auto simp: in_time_def split: if_splits dest: earliest_le)

section \<open>Each task once, on time, earliest first\<close>

definition times_inv :: "'c task wsys \<Rightarrow> bool" where
  "times_inv s \<longleftrightarrow> (\<forall>(t, \<tau>) \<in> set (fired s). execute_time t \<le> \<tau> \<and> \<tau> \<le> now s) \<and> sorted (map snd (fired s))"

lemma times_step:
  assumes inv: "times_inv s" and st: "timer_step a s = Some s'"
  shows "times_inv s'"
proof (cases a)
  case (Work k)
  with st have "work timer_policy k (worker s) s = Some s'" by (simp add: timer_step_def)
  with inv show ?thesis
    by (cases "worker s") (fastforce simp: times_inv_def task_top_earliest sorted_append split: if_splits)+
next
  case (Tick t)
  with inv st show ?thesis by (fastforce simp: timer_step_def times_inv_def split: if_splits)
qed (use inv st in \<open>auto simp: timer_step_def times_inv_def add_task_def stop_tasks_def
       split: wpc.splits option.splits if_splits\<close>)

lemma times_init: "times_inv (wsys_init t)"
  by (simp add: times_inv_def wsys_init_def)

interpretation times: machine_inv timer_step "wsys_init t" times_inv for t
  by unfold_locales (auto intro: times_step times_init)

lemma timer_reachable_facts:
  assumes "reachable timer_step (wsys_init t) s"
  shows "mset (added s) = mset (tasks s) + mset (map fst (fired s)) + mset (dropped s)"
    and "\<forall>(u, \<tau>) \<in> set (fired s). execute_time u \<le> \<tau> \<and> \<tau> \<le> now s" and "sorted (map snd (fired s))"
proof -
  have "timer.loop_inv s" using timer.reachable_loop_inv assms by (simp add: timer_step_def)
  moreover have "times_inv s" using times.reachable_inv [OF assms] .
  ultimately show "mset (added s) = mset (tasks s) + mset (map fst (fired s)) + mset (dropped s)"
    "\<forall>(u, \<tau>) \<in> set (fired s). execute_time u \<le> \<tau> \<and> \<tau> \<le> now s" "sorted (map snd (fired s))"
    by (simp_all add: timer.loop_inv_def times_inv_def)
qed

text \<open>
  C23. The timer runs every task at most once, never early, and the earliest first. In every
  reachable state the tasks added are, as a multiset, those in the queue, those started and
  those cancelled by \<open>stop\<close>; a task was started at or after its execution time; start times do
  not go back; and the task a step starts is a minimum of the queue.
\<close>

theorem timer_runs_on_time:
  assumes "reachable timer_step (wsys_init t) s"
  shows "mset (added s) = mset (tasks s) + mset (map fst (fired s)) + mset (dropped s) \<and>
    (\<forall>(u, \<tau>) \<in> set (fired s). execute_time u \<le> \<tau> \<and> \<tau> \<le> now s) \<and> sorted (map snd (fired s)) \<and>
    (\<forall>k s' u. worker s = WInner \<and> timer_step (Work k) s = Some s' \<and> worker s' = WRun u \<longrightarrow>
       u \<in> set (tasks s) \<and> (\<forall>v \<in> set (tasks s). execute_time u \<le> execute_time v))"
proof -
  have "u \<in> set (tasks s) \<and> (\<forall>v \<in> set (tasks s). execute_time u \<le> execute_time v)"
    if "worker s = WInner" "timer_step (Work k) s = Some s'" "worker s' = WRun u" for k s' u
    using that by (auto simp: timer_step_def task_top_def split: if_splits)
  with timer_reachable_facts [OF assms] show ?thesis by blast
qed

lemmas timer_eval = timer_step_def wsys_init_def add_task_def stop_tasks_def notify_def holds_mutex_def
  remove_nth_def task_top_def earliest_def millisecond_def

definition sleep_task :: "int \<Rightarrow> nat task" where
  "sleep_task t = \<lparr>execute_time = t, callback = 1, arg = 7, cancel_fn = Some 2\<rparr>"

definition timer_demo :: "nat task wact list" where
  "timer_demo = [Add (sleep_task 9), Add (sleep_task 4), Tick 5, Work 0, Work 0, Work 1]"

lemma timer_demo_runs:
  "\<exists>s. run timer_step timer_demo (wsys_init 0) = Some s \<and> fired s = [(sleep_task 4, 5)] \<and> tasks s = [sleep_task 9]"
  by (simp add: timer_demo_def timer_eval sleep_task_def numeral_2_eq_2)

theorem timer_runs_on_time_witness:
  "\<exists>s. run timer_step timer_demo (wsys_init 0) = Some s \<and> fired s = [(sleep_task 4, 5)] \<and>
     (\<forall>(u, \<tau>) \<in> set (fired s). execute_time u \<le> \<tau> \<and> \<tau> \<le> now s)"
proof -
  obtain s where s: "run timer_step timer_demo (wsys_init 0) = Some s" "fired s = [(sleep_task 4, 5)]"
    using timer_demo_runs by (elim exE conjE)
  have "\<forall>(u, \<tau>) \<in> set (fired s). execute_time u \<le> \<tau> \<and> \<tau> \<le> now s"
    using timer_runs_on_time [OF reachable_run [OF s(1)]] by (elim conjE)
  with s show ?thesis by (intro exI [of _ s] conjI)
qed

section \<open>No task is overslept\<close>

text \<open>
  C24. The timer does not oversleep. Whenever the worker waits, its deadline is at least a
  millisecond before every task in the queue, and without a deadline the queue is empty, so no
  notification is ever missed. And when a task is due, unless the timer is stopped or inside
  a callback, the worker starts one with the earliest time within four steps of its own.
\<close>

theorem timer_no_oversleep:
  assumes "reachable timer_step (wsys_init t) s"
  shows "(\<forall>d u. worker s = WWait d \<and> u \<in> set (tasks s) \<longrightarrow> (\<exists>x. d = Some x \<and> x + millisecond \<le> execute_time u)) \<and>
    (\<forall>u \<in> set (tasks s). execute_time u \<le> now s \<and> \<not> stopped s \<and> (\<forall>v. worker s \<noteq> WRun v) \<longrightarrow>
      (\<exists>as s' v. length as \<le> 4 \<and> (\<forall>a \<in> set as. a = Timeout \<or> (\<exists>k. a = Work k)) \<and> run timer_step as s = Some s' \<and>
         worker s' = WRun v \<and> v \<in> set (tasks s) \<and> execute_time v = earliest (tasks s)))"
proof -
  have inv: "timer.loop_inv s" using timer.reachable_loop_inv assms by (simp add: timer_step_def)
  have "\<exists>as s' v. length as \<le> 4 \<and> (\<forall>a \<in> set as. a = Timeout \<or> (\<exists>k. a = Work k)) \<and> run timer_step as s = Some s' \<and>
         worker s' = WRun v \<and> v \<in> set (tasks s) \<and> execute_time v = earliest (tasks s)"
    if u: "u \<in> set (tasks s)" "execute_time u \<le> now s" and st: "\<not> stopped s" "\<forall>v. worker s \<noteq> WRun v" for u
  proof -
    have "due timer_policy (now s) (tasks s)" using u earliest_le [OF u(1)] by auto
    from timer.loop_progress [OF inv this st(1)] st(2) have "starts_within timer_policy 4 s" by blast
    then show ?thesis unfolding starts_within_def timer_step_def
      by (metis nth_mem task_top_earliest timer_policy_simps(2))
  qed
  with inv show ?thesis by (auto simp: timer.loop_inv_def in_time_def)
qed

theorem timer_no_oversleep_witness:
  "\<exists>s. run timer_step [Add (sleep_task 4000000), Work 0, Work 0, Work 0, Work 0] (wsys_init 0) = Some s \<and>
     worker s = WWait (Some 3000000) \<and> (\<exists>x. Some (3000000 :: int) = Some x \<and> x + millisecond \<le> execute_time (sleep_task 4000000))"
proof -
  have "\<exists>s. run timer_step [Add (sleep_task 4000000), Work 0, Work 0, Work 0, Work 0] (wsys_init 0) = Some s \<and>
     worker s = WWait (Some 3000000) \<and> sleep_task 4000000 \<in> set (tasks s)"
    by (simp add: timer_eval sleep_task_def)
  then obtain s where s: "run timer_step [Add (sleep_task 4000000), Work 0, Work 0, Work 0, Work 0] (wsys_init 0) = Some s"
     "worker s = WWait (Some 3000000)" "sleep_task 4000000 \<in> set (tasks s)" by (elim exE conjE)
  from timer_no_oversleep [OF reachable_run [OF s(1)], THEN conjunct1] s(2,3)
  have "\<exists>x. Some (3000000 :: int) = Some x \<and> x + millisecond \<le> execute_time (sleep_task 4000000)" by simp
  with s show ?thesis by (intro exI [of _ s] conjI)
qed

section \<open>Stopping\<close>

text \<open>
  Stopping a timer cancels exactly the tasks in the queue, in the order of their times,
  and ends the worker exactly when it is not inside a callback: if it is not, \<open>join\<close> returns
  after two steps of the worker; if it is, the worker goes on into a wait without looking at
  \<open>m_stop\<close>, and \<open>join\<close> never returns unless a task is added, \<open>stop\<close> is called again
  or the wait ends spuriously.
\<close>

theorem timer_stop_ends_or_hangs:
  assumes "timer_step (Stop order) s = Some s'"
  shows "mset order = mset (tasks s) \<and> sorted (map execute_time order) \<and> dropped s' = dropped s @ order \<and> tasks s' = [] \<and>
    (\<not> in_task (worker s) \<longrightarrow>
      (\<exists>n \<le> 2. \<exists>t. run timer_step (replicate n (Work 0)) s' = Some t \<and> join t \<noteq> None)) \<and>
    (in_task (worker s) \<longrightarrow> (\<forall>as t. (\<forall>a \<in> set as. a \<noteq> Spurious \<and> (\<forall>q. a \<noteq> Stop q) \<and> (\<forall>u. a \<noteq> Add u)) \<and>
      run timer_step as s' = Some t \<longrightarrow> join t = None))"
proof (intro conjI impI)
  assume "\<not> in_task (worker s)"
  then show "\<exists>n \<le> 2. \<exists>t. run timer_step (replicate n (Work 0)) s' = Some t \<and> join t \<noteq> None"
    using timer.stop_ends assms by (fastforce simp: timer_step_def join_def)
next
  assume h: "in_task (worker s)"
  show "\<forall>as t. (\<forall>a \<in> set as. a \<noteq> Spurious \<and> (\<forall>q. a \<noteq> Stop q) \<and> (\<forall>u. a \<noteq> Add u)) \<and>
      run timer_step as s' = Some t \<longrightarrow> join t = None"
    by (intro allI impI, elim conjE, rule timer.hung_never_joins [OF assms [unfolded timer_step_def] h])
      (auto simp: timer_step_def)
qed (use assms in \<open>auto simp: timer_step_def stop_tasks_def split: if_splits\<close>)

theorem timer_stop_ends_or_hangs_witness:
  "\<exists>s. run timer_step (timer_demo @ [Stop [sleep_task 9]]) (wsys_init 0) = Some s \<and>
     dropped s = [sleep_task 9] \<and> cancel_calls (dropped s) = [(2, 7)] \<and>
     (\<forall>as t. (\<forall>a \<in> set as. a \<noteq> Spurious \<and> (\<forall>q. a \<noteq> Stop q) \<and> (\<forall>u. a \<noteq> Add u)) \<and> run timer_step as s = Some t \<longrightarrow> join t = None)"
proof -
  let ?s = "\<lparr>tasks = [sleep_task 9], stopped = False, worker = WRun (sleep_task 4), now = 5,
     added = [sleep_task 9, sleep_task 4], fired = [(sleep_task 4, 5)], dropped = []\<rparr>"
  have r: "run timer_step timer_demo (wsys_init 0) = Some ?s"
    by (simp add: timer_demo_def timer_eval sleep_task_def numeral_2_eq_2)
  obtain s' where st: "timer_step (Stop [sleep_task 9]) ?s = Some s'" by (simp add: timer_eval)
  have "run timer_step (timer_demo @ [Stop [sleep_task 9]]) (wsys_init 0) = Some s'"
    using r st by (simp only: run_append) simp
  moreover have "dropped s' = [sleep_task 9]" using timer_stop_ends_or_hangs [OF st] by simp
  moreover have "cancel_calls [sleep_task 9] = [(2, 7)]" by (simp add: cancel_calls_def sleep_task_def)
  moreover have "in_task (worker ?s)" by simp
  note timer_stop_ends_or_hangs [OF st, THEN conjunct2, THEN conjunct2, THEN conjunct2, THEN conjunct2, THEN conjunct2,
      rule_format (no_asm), OF this]
  ultimately show ?thesis by (intro exI [of _ s']) simp
qed

end
