(* ===== verification/Sleep.thy ===== *)
theory Sleep
  imports Timer
begin

text \<open>
  The sleeping awaitables of \<open>TimerWrapper\<close> in \<open>include/timer.hpp\<close>: \<open>SleepAwaitable\<close>, whose
  tasks are tasks of the model of \<open>Timer\<close>, and \<open>CancelableSleepAwaitable\<close>, its control box shared
  between the awaiting coroutine, the timer's callback and cancelling threads, one access of
  the code per action.
\<close>

section \<open>\<open>SleepAwaitable\<close>\<close>

text \<open>The two function pointers a plain sleep hands to the timer.\<close>

datatype sleep_fn = ResumeAddress | DestroyAddress

definition sleep_ready :: "int \<Rightarrow> sleep_fn task wsys \<Rightarrow> bool" where
  "sleep_ready wake s \<longleftrightarrow> now s \<ge> wake"

definition sleep_suspend :: "int \<Rightarrow> handle \<Rightarrow> sleep_fn task wsys \<Rightarrow> sleep_fn task wsys" where
  "sleep_suspend wake h s = timer_add wake ResumeAddress h (Some DestroyAddress) s"

definition sleep_for_wake :: "int \<Rightarrow> sleep_fn task wsys \<Rightarrow> int" where
  "sleep_for_wake dur s = now s + dur"

lemma added_grows: "worker_step P a s = Some s' \<Longrightarrow> set (added s) \<subseteq> set (added s')"
proof (cases a)
  case (Work k)
  moreover assume "worker_step P a s = Some s'"
  ultimately show ?thesis by (cases "worker s") (auto split: if_splits)
qed (auto simp: add_task_def stop_tasks_def split: if_splits wpc.splits option.splits)

lemma run_added_grows: "run (worker_step P) as s = Some s' \<Longrightarrow> set (added s) \<subseteq> set (added s')"
proof (induction as arbitrary: s)
  case (Cons a as)
  then obtain t where "worker_step P a s = Some t" "run (worker_step P) as t = Some s'"
    by (auto split: option.splits)
  with Cons.IH [of t] added_grows [of P a s t] show ?case by blast
qed simp

text \<open>
  A sleeping coroutine is resumed on time or destroyed. From any reachable state of the
  timer in which it suspends, in every later state its task is still in the queue, or the
  callback that resumes it was started, at a time not before the wake time, or \<open>stop\<close> has
  called the function that destroys it.
\<close>

theorem sleep_resumed_on_time:
  assumes "reachable timer_step (wsys_init t0) s" and "\<not> holds_mutex (worker s)"
    and "run timer_step as (sleep_suspend wake h s) = Some s'"
  shows "\<exists>u. execute_time u = wake \<and> callback u = ResumeAddress \<and> arg u = h \<and>
    (u \<in> set (tasks s') \<or> (\<exists>\<tau> \<ge> wake. (u, \<tau>) \<in> set (fired s')) \<or>
     (u \<in> set (dropped s') \<and> (DestroyAddress, h) \<in> set (cancel_calls (dropped s'))))"
proof -
  let ?u = "\<lparr>execute_time = wake, callback = ResumeAddress, arg = h, cancel_fn = Some DestroyAddress\<rparr>"
  have st: "timer_step (Add ?u) s = Some (sleep_suspend wake h s)"
    using assms(2) by (simp add: timer_step_def sleep_suspend_def timer_add_def)
  obtain bs where "run timer_step bs (wsys_init t0) = Some s" using assms(1) by (auto simp: reachable_def)
  then have "run timer_step (bs @ Add ?u # as) (wsys_init t0) = Some s'"
    using st assms(3) by (simp add: run_append)
  then have r: "reachable timer_step (wsys_init t0) s'" by (rule reachable_run)
  note ok = timer_reachable_facts [OF r]
  have "?u \<in> set (added (sleep_suspend wake h s))"
    by (simp add: sleep_suspend_def timer_add_def add_task_def)
  then have "?u \<in> set (added s')" using run_added_grows assms(3) unfolding timer_step_def by blast
  then have "?u \<in># mset (tasks s') + mset (map fst (fired s')) + mset (dropped s')"
    using ok(1) by (metis set_mset_mset)
  then have cases: "?u \<in> set (tasks s') \<or> ?u \<in> fst ` set (fired s') \<or> ?u \<in> set (dropped s')" by auto
  moreover have "\<exists>\<tau> \<ge> wake. (?u, \<tau>) \<in> set (fired s')" if "?u \<in> fst ` set (fired s')"
  proof -
    from that obtain \<tau> where "(?u, \<tau>) \<in> set (fired s')" by force
    with ok(2) show ?thesis by force
  qed
  moreover have "(DestroyAddress, h) \<in> set (cancel_calls (dropped s'))" if "?u \<in> set (dropped s')"
    using that by (force simp: cancel_calls_def)
  ultimately show ?thesis by (intro exI [of _ ?u]) auto
qed

theorem sleep_resumed_on_time_witness:
  "\<exists>s u. run timer_step [Tick 6, Work 0, Work 0, Work 0] (sleep_suspend 5 3 (wsys_init 0)) = Some s \<and>
     tasks s = [] \<and> execute_time u = 5 \<and> arg u = 3 \<and>
     ((\<exists>\<tau> \<ge> 5. (u, \<tau>) \<in> set (fired s)) \<or> u \<in> set (dropped s))"
proof -
  have "\<exists>s. run timer_step [Tick 6, Work 0, Work 0, Work 0] (sleep_suspend 5 3 (wsys_init 0)) = Some s \<and> tasks s = []"
    by (simp add: timer_eval sleep_suspend_def timer_add_def)
  then obtain s where s: "run timer_step [Tick 6, Work 0, Work 0, Work 0] (sleep_suspend 5 3 (wsys_init 0)) = Some s"
    "tasks s = []" by (elim exE conjE)
  have m: "\<not> holds_mutex (worker (wsys_init 0))" by (simp add: wsys_init_def holds_mutex_def)
  obtain u where "execute_time u = 5" "arg u = 3"
    "u \<in> set (tasks s) \<or> (\<exists>\<tau> \<ge> 5. (u, \<tau>) \<in> set (fired s)) \<or> u \<in> set (dropped s)"
    using sleep_resumed_on_time [OF reachable_refl m s(1)] by blast
  with s show ?thesis by (intro exI [of _ s] exI [of _ u]) simp
qed

section \<open>\<open>CancelableSleepAwaitable\<close>\<close>

text \<open>
  The control box has a state, a waiter and a reference count. The coroutine \<open>self\<close> has not
  awaited yet (\<open>CNew\<close>), is suspended or runs on after the await; \<open>sus\<close> is the thread in
  \<open>await_suspend\<close>: storing the waiter, adding a reference, adding the task. The timer's callback,
  with a flag whether it is the cancel function: taking a reference in an \<open>intrusive_ptr\<close>, dropping
  the task's, the exchange, reading the waiter, resuming it, clearing it, dropping the pointer. A
  thread in \<open>cancel\<close> is past a successful exchange: reading, resuming, clearing.
\<close>

datatype box_state = BPending | BCanceled | BConsumed

datatype coro_pc = CNew | CSusp | CRes

datatype sus_pc = SIdle | SStore | SRef | STask | SDone

datatype cb_pc = QNone | QQueued | QTake bool | QDrop bool | QCas bool | QRead | QResume handle | QClear | QEnd | QGone

datatype canceller_pc = XIdle | XRead | XResume handle | XClear

record ssys =
  self :: handle
  box_state :: box_state
  box_waiter :: "handle option"
  refs :: nat
  freed :: bool
  alive :: bool
  coro :: coro_pc
  sus :: sus_pc
  cb :: cb_pc
  cancellers :: "canceller_pc list"
  wake :: int
  clock :: int
  trues :: nat
  resumes :: nat
  answer :: "bool option"
  sbad :: "fault option"

definition ssys_init :: "handle \<Rightarrow> int \<Rightarrow> int \<Rightarrow> nat \<Rightarrow> ssys" where
  "ssys_init h w t n = \<lparr>self = h, box_state = BPending, box_waiter = None, refs = 1, freed = False, alive = True,
     coro = CNew, sus = SIdle, cb = QNone, cancellers = replicate n XIdle, wake = w, clock = t, trues = 0,
     resumes = 0, answer = None, sbad = None\<rparr>"

text \<open>
  \<open>Await\<close> is \<open>await_ready\<close> and \<open>await_suspend\<close> in one go; \<open>Ready\<close> and \<open>Suspend\<close> are
  their steps. \<open>Fire\<close> and \<open>StopTimer\<close> are the timer calling the callback or the cancel function.
  \<open>Destroy\<close> is the end of the awaitable; \<open>DestroyQuiet\<close> only when no thread is inside \<open>cancel\<close>.
\<close>

datatype sact =
    Clock int | Await | Ready | Suspend | Fire | StopTimer | Callback
  | Cancel nat | CancelStep nat | Value | Destroy | DestroyQuiet

definition fault :: "fault \<Rightarrow> ssys \<Rightarrow> ssys" where
  "fault e s = s\<lparr>sbad := Some e\<rparr>"

text \<open>Accesses through the awaitable and to the box.\<close>

definition via_awaitable :: "ssys \<Rightarrow> ssys \<Rightarrow> ssys" where
  "via_awaitable s t = (if alive s \<and> \<not> freed s then t else fault UseAfterFree s)"

definition via_box :: "ssys \<Rightarrow> ssys \<Rightarrow> ssys" where
  "via_box s t = (if freed s then fault UseAfterFree s else t)"

definition drop_ref :: "ssys \<Rightarrow> ssys" where
  "drop_ref s = s\<lparr>refs := refs s - 1, freed := (refs s = 1)\<rparr>"

definition sleep_await_ready :: "ssys \<Rightarrow> bool" where
  "sleep_await_ready s \<longleftrightarrow> clock s \<ge> wake s \<or> box_state s \<noteq> BPending"

definition resume_self :: "handle \<Rightarrow> ssys \<Rightarrow> ssys" where
  "resume_self h s = (if h = self s \<and> coro s = CSusp then s\<lparr>coro := CRes, resumes := resumes s + 1\<rparr>
     else fault Unreachable s)"

fun sleep_await_suspend :: "sus_pc \<Rightarrow> ssys \<Rightarrow> ssys option" where
  "sleep_await_suspend SStore s = Some (via_awaitable s (s\<lparr>box_waiter := Some (self s), sus := SRef\<rparr>))"
| "sleep_await_suspend SRef s = Some (via_awaitable s (s\<lparr>refs := refs s + 1, sus := STask\<rparr>))"
| "sleep_await_suspend STask s = Some (via_awaitable s (s\<lparr>cb := QQueued, sus := SDone\<rparr>))"
| "sleep_await_suspend pc s = None"

text \<open>The exchange from \<open>ePending\<close>, and what follows its success.\<close>

definition box_cas :: "box_state \<Rightarrow> ssys \<Rightarrow> (bool \<times> ssys)" where
  "box_cas to s = (if box_state s = BPending then (True, s\<lparr>box_state := to\<rparr>) else (False, s))"

fun timer_callback :: "cb_pc \<Rightarrow> ssys \<Rightarrow> ssys option" where
  "timer_callback (QTake c) s = Some (via_box s (s\<lparr>refs := refs s + 1, cb := QDrop c\<rparr>))"
| "timer_callback (QDrop c) s = Some (via_box s ((drop_ref s)\<lparr>cb := QCas c\<rparr>))"
| "timer_callback (QCas c) s = Some (via_box s (case box_cas (if c then BCanceled else BConsumed) s of
     (True, t) \<Rightarrow> t\<lparr>cb := QRead\<rparr> | (False, t) \<Rightarrow> t\<lparr>cb := QEnd\<rparr>))"
| "timer_callback QRead s = Some (via_box s (s\<lparr>cb := (case box_waiter s of None \<Rightarrow> QEnd | Some h \<Rightarrow> QResume h)\<rparr>))"
| "timer_callback (QResume h) s = Some (resume_self h (s\<lparr>cb := QClear\<rparr>))"
| "timer_callback QClear s = Some (via_box s (s\<lparr>box_waiter := None, cb := QEnd\<rparr>))"
| "timer_callback QEnd s = Some (via_box s ((drop_ref s)\<lparr>cb := QGone\<rparr>))"
| "timer_callback pc s = None"

definition set_x :: "nat \<Rightarrow> canceller_pc \<Rightarrow> ssys \<Rightarrow> ssys" where
  "set_x j pc s = s\<lparr>cancellers := (cancellers s)[j := pc]\<rparr>"

definition sleep_cancel :: "nat \<Rightarrow> ssys \<Rightarrow> ssys" where
  "sleep_cancel j s = (case box_cas BCanceled s of
     (True, t) \<Rightarrow> set_x j XRead (t\<lparr>trues := trues t + 1\<rparr>) | (False, t) \<Rightarrow> t)"

fun cancel_step :: "nat \<Rightarrow> canceller_pc \<Rightarrow> ssys \<Rightarrow> ssys option" where
  "cancel_step j XRead s =
     Some (via_awaitable s (set_x j (case box_waiter s of None \<Rightarrow> XIdle | Some h \<Rightarrow> XResume h) s))"
| "cancel_step j (XResume h) s = Some (resume_self h (set_x j XClear s))"
| "cancel_step j XClear s = Some (via_awaitable s (set_x j XIdle (s\<lparr>box_waiter := None\<rparr>)))"
| "cancel_step j XIdle s = None"

definition sleep_await_resume :: "ssys \<Rightarrow> bool" where
  "sleep_await_resume s \<longleftrightarrow> box_state s = BConsumed"

definition await_now :: "ssys \<Rightarrow> ssys" where
  "await_now s = (if sleep_await_ready s then s\<lparr>coro := CRes\<rparr>
     else s\<lparr>coro := CSusp, box_waiter := Some (self s), refs := refs s + 1, cb := QQueued, sus := SDone\<rparr>)"

definition destroy_awaitable :: "ssys \<Rightarrow> ssys" where
  "destroy_awaitable s = (drop_ref s)\<lparr>alive := False\<rparr>"

fun sact_step :: "sact \<Rightarrow> ssys \<Rightarrow> ssys option" where
  "sact_step (Clock t) s = (if clock s \<le> t then Some (s\<lparr>clock := t\<rparr>) else None)"
| "sact_step Await s = (if coro s = CNew \<and> sus s = SIdle then Some (await_now s) else None)"
| "sact_step Ready s = (if coro s = CNew \<and> sus s = SIdle
     then Some (if sleep_await_ready s then s\<lparr>coro := CRes\<rparr> else s\<lparr>coro := CSusp, sus := SStore\<rparr>) else None)"
| "sact_step Suspend s = sleep_await_suspend (sus s) s"
| "sact_step Fire s = (if cb s = QQueued \<and> wake s \<le> clock s then Some (s\<lparr>cb := QTake False\<rparr>) else None)"
| "sact_step StopTimer s = (if cb s = QQueued then Some (s\<lparr>cb := QTake True\<rparr>) else None)"
| "sact_step Callback s = timer_callback (cb s) s"
| "sact_step (Cancel j) s = (if j < length (cancellers s) \<and> cancellers s ! j = XIdle \<and> alive s
     then Some (sleep_cancel j s) else None)"
| "sact_step (CancelStep j) s = (if j < length (cancellers s) then cancel_step j (cancellers s ! j) s else None)"
| "sact_step Value s = (if coro s = CRes \<and> alive s \<and> answer s = None
     then Some (s\<lparr>answer := Some (sleep_await_resume s)\<rparr>) else None)"
| "sact_step Destroy s = (if coro s = CRes \<and> alive s then Some (destroy_awaitable s) else None)"
| "sact_step DestroyQuiet s = (if coro s = CRes \<and> alive s \<and> (\<forall>pc \<in> set (cancellers s). pc = XIdle)
     then Some (destroy_awaitable s) else None)"

definition sleep_step :: "sact \<Rightarrow> ssys \<Rightarrow> ssys option" where
  "sleep_step a s = (if sbad s \<noteq> None then None else sact_step a s)"

section \<open>Without races\<close>

text \<open>
  The discipline: nobody cancels between the two halves of the await, and the awaitable does not
  end while a thread is inside its \<open>cancel\<close>.
\<close>

fun calm :: "sact \<Rightarrow> bool" where
  "calm Ready = False" | "calm Suspend = False" | "calm Destroy = False" | "calm a = True"

fun cb_refs :: "cb_pc \<Rightarrow> nat" where
  "cb_refs QNone = 0" | "cb_refs QGone = 0" | "cb_refs (QDrop c) = 2" | "cb_refs pc = 1"

fun cb_waiting :: "cb_pc \<Rightarrow> bool" where
  "cb_waiting QQueued = True" | "cb_waiting (QTake c) = True" | "cb_waiting (QDrop c) = True"
| "cb_waiting (QCas c) = True" | "cb_waiting pc = False"

fun cb_firing :: "cb_pc \<Rightarrow> bool" where
  "cb_firing (QTake c) = (\<not> c)" | "cb_firing (QDrop c) = (\<not> c)" | "cb_firing (QCas c) = (\<not> c)"
| "cb_firing pc = False"

text \<open>Who owes the resumption, who is about to resume, who is past it.\<close>

fun x_owes :: "canceller_pc \<Rightarrow> nat" where
  "x_owes XRead = 1" | "x_owes (XResume h) = 1" | "x_owes pc = 0"

fun x_resumes :: "canceller_pc \<Rightarrow> nat" where
  "x_resumes (XResume h) = 1" | "x_resumes pc = 0"

fun x_clears :: "canceller_pc \<Rightarrow> nat" where
  "x_clears XClear = 1" | "x_clears pc = 0"

fun q_owes :: "cb_pc \<Rightarrow> nat" where
  "q_owes QRead = 1" | "q_owes (QResume h) = 1" | "q_owes pc = 0"

fun q_resumes :: "cb_pc \<Rightarrow> nat" where
  "q_resumes (QResume h) = 1" | "q_resumes pc = 0"

fun q_clears :: "cb_pc \<Rightarrow> nat" where
  "q_clears QClear = 1" | "q_clears pc = 0"

definition owes :: "ssys \<Rightarrow> nat" where
  "owes s = sum_list (map x_owes (cancellers s)) + q_owes (cb s)"

definition resuming :: "ssys \<Rightarrow> nat" where
  "resuming s = sum_list (map x_resumes (cancellers s)) + q_resumes (cb s)"

definition clearing :: "ssys \<Rightarrow> nat" where
  "clearing s = sum_list (map x_clears (cancellers s)) + q_clears (cb s)"

definition own_handle :: "ssys \<Rightarrow> bool" where
  "own_handle s \<longleftrightarrow> (\<forall>h. XResume h \<in> set (cancellers s) \<longrightarrow> h = self s) \<and> (\<forall>h. cb s = QResume h \<longrightarrow> h = self s) \<and>
     (\<forall>h. box_waiter s = Some h \<longrightarrow> h = self s)"

declare sum_list_eq_0_iff [simp del]

definition ref_inv :: "ssys \<Rightarrow> bool" where
  "ref_inv s \<longleftrightarrow> sbad s = None \<and> (sus s = SIdle \<or> sus s = SDone) \<and>
     refs s = (if alive s then 1 else 0) + cb_refs (cb s) \<and> freed s = (refs s = 0) \<and>
     (\<not> alive s \<longrightarrow> coro s = CRes \<and> (\<forall>pc \<in> set (cancellers s). pc = XIdle))"

definition token_inv :: "ssys \<Rightarrow> bool" where
  "token_inv s \<longleftrightarrow> owes s \<le> 1 \<and> (box_state s = BPending \<longrightarrow> owes s = 0) \<and>
     (coro s = CNew \<longrightarrow> box_waiter s = None \<and> cb s = QNone \<and> resumes s = 0) \<and>
     (coro s = CSusp \<longrightarrow> box_waiter s = Some (self s) \<and> resumes s = 0 \<and> clearing s = 0 \<and>
        (box_state s = BPending \<longrightarrow> cb_waiting (cb s)) \<and> (box_state s \<noteq> BPending \<longrightarrow> owes s = 1)) \<and>
     (coro s = CRes \<longrightarrow> resumes s \<le> 1 \<and> (box_state s = BPending \<longrightarrow> cb s = QNone \<and> box_waiter s = None)) \<and>
     (coro s \<noteq> CSusp \<longrightarrow> resuming s = 0 \<and> (owes s = 1 \<longrightarrow> box_waiter s = None)) \<and>
     (coro s = CNew \<longrightarrow> clearing s = 0)"

definition answer_inv :: "ssys \<Rightarrow> bool" where
  "answer_inv s \<longleftrightarrow> (cb_firing (cb s) \<longrightarrow> wake s \<le> clock s) \<and>
     (box_state s = BConsumed \<longrightarrow> wake s \<le> clock s \<and> trues s = 0) \<and> trues s \<le> 1 \<and>
     (box_state s = BPending \<longrightarrow> trues s = 0) \<and>
     (\<forall>b. answer s = Some b \<longrightarrow> coro s = CRes \<and> (b \<longleftrightarrow> box_state s = BConsumed))"

definition sleep_inv :: "ssys \<Rightarrow> bool" where
  "sleep_inv s \<longleftrightarrow> own_handle s \<and> ref_inv s \<and> token_inv s \<and> answer_inv s"

lemmas token_defs = token_inv_def owes_def resuming_def clearing_def

lemma sleep_inv_init: "sleep_inv (ssys_init h w t n)"
  by (simp add: sleep_inv_def own_handle_def ref_inv_def answer_inv_def token_defs ssys_init_def
      sum_list_replicate map_replicate_const)

lemma x_update:
  assumes "j < length (cancellers s)"
  shows "sum_list (map x_owes ((cancellers s)[j := pc])) + x_owes (cancellers s ! j) = sum_list (map x_owes (cancellers s)) + x_owes pc"
    and "sum_list (map x_resumes ((cancellers s)[j := pc])) + x_resumes (cancellers s ! j) = sum_list (map x_resumes (cancellers s)) + x_resumes pc"
    and "sum_list (map x_clears ((cancellers s)[j := pc])) + x_clears (cancellers s ! j) = sum_list (map x_clears (cancellers s)) + x_clears pc"
  using assms by (simp_all only: sum_map_update)

lemma quiet_sums:
  assumes "\<forall>pc \<in> set xs. pc = XIdle"
  shows "sum_list (map x_owes xs) = 0" "sum_list (map x_resumes xs) = 0" "sum_list (map x_clears xs) = 0"
  using assms by (auto intro!: sum_map_zero)

lemma box_live: "ref_inv s \<Longrightarrow> cb_refs (cb s) \<noteq> 0 \<Longrightarrow> via_box s t = t"
  by (simp add: ref_inv_def via_box_def)

lemma resume_callback:
  "own_handle s \<Longrightarrow> token_inv s \<Longrightarrow> cb s = QResume h \<Longrightarrow>
   resume_self h (s\<lparr>cb := QClear\<rparr>) = s\<lparr>cb := QClear, coro := CRes, resumes := resumes s + 1\<rparr>"
proof -
  assume "own_handle s" and t: "token_inv s" and q: "cb s = QResume h"
  then have "h = self s" by (simp add: own_handle_def)
  moreover have "resuming s \<noteq> 0" using q by (simp add: resuming_def)
  with t have "coro s = CSusp" by (auto simp only: token_inv_def)
  ultimately show ?thesis by (simp add: resume_self_def)
qed

lemma x_resumes_le: "x_resumes pc \<le> x_owes pc"
  by (cases pc) simp_all

lemma resumes_le_owes: "sum_list (map x_resumes xs) \<le> sum_list (map x_owes xs)"
  by (rule sum_list_mono) (rule x_resumes_le)

lemma no_debt_no_resume [simp]: "sum_list (map x_owes xs) = 0 \<Longrightarrow> sum_list (map x_resumes xs) = 0"
  using resumes_le_owes [of xs] by linarith

lemma callback_own:
  "own_handle s \<Longrightarrow> ref_inv s \<Longrightarrow> token_inv s \<Longrightarrow> timer_callback (cb s) s = Some s' \<Longrightarrow> own_handle s'"
proof -
  assume o: "own_handle s" and r: "ref_inv s" and t: "token_inv s" and st: "timer_callback (cb s) s = Some s'"
  note e = box_live [OF r] resume_callback [OF o t]
  show ?thesis
    using o st by (cases "cb s"; cases "box_state s = BPending"; cases "box_waiter s";
      clarsimp simp: e box_cas_def; simp add: own_handle_def drop_ref_def)
qed

lemma callback_ref:
  "own_handle s \<Longrightarrow> ref_inv s \<Longrightarrow> token_inv s \<Longrightarrow> timer_callback (cb s) s = Some s' \<Longrightarrow> ref_inv s'"
proof -
  assume o: "own_handle s" and r: "ref_inv s" and t: "token_inv s" and st: "timer_callback (cb s) s = Some s'"
  note e = box_live [OF r] resume_callback [OF o t]
  show ?thesis
    using r st by (cases "cb s"; cases "box_state s = BPending"; cases "box_waiter s"; clarsimp simp: e box_cas_def;
      simp add: ref_inv_def drop_ref_def)
qed

lemma callback_token:
  "own_handle s \<Longrightarrow> ref_inv s \<Longrightarrow> token_inv s \<Longrightarrow> timer_callback (cb s) s = Some s' \<Longrightarrow> token_inv s'"
proof -
  assume o: "own_handle s" and r: "ref_inv s" and t: "token_inv s" and st: "timer_callback (cb s) s = Some s'"
  note e = box_live [OF r] resume_callback [OF o t]
  show ?thesis
    using t st by (cases "cb s"; cases "box_state s = BPending"; cases "box_waiter s"; cases "coro s";
      clarsimp simp: e box_cas_def; simp add: token_defs drop_ref_def)
qed

lemma callback_answer:
  "own_handle s \<Longrightarrow> ref_inv s \<Longrightarrow> token_inv s \<Longrightarrow> answer_inv s \<Longrightarrow> timer_callback (cb s) s = Some s' \<Longrightarrow> answer_inv s'"
proof -
  assume o: "own_handle s" and r: "ref_inv s" and t: "token_inv s" and a: "answer_inv s"
    and st: "timer_callback (cb s) s = Some s'"
  note e = box_live [OF r] resume_callback [OF o t]
  have c: "coro s = CRes \<longrightarrow> box_state s = BPending \<longrightarrow> cb s = QNone" using t by (simp add: token_inv_def)
  show ?thesis
    using a st c by (cases "cb s"; cases "box_state s = BPending"; cases "box_waiter s";
      clarsimp simp: e box_cas_def; auto simp: answer_inv_def drop_ref_def)
qed

lemma sleep_callback_inv: "sleep_inv s \<Longrightarrow> timer_callback (cb s) s = Some s' \<Longrightarrow> sleep_inv s'"
  unfolding sleep_inv_def using callback_own callback_ref callback_token callback_answer by blast

text \<open>The steps of a thread in \<open>cancel\<close>.\<close>

lemma awaitable_live:
  "ref_inv s \<Longrightarrow> j < length (cancellers s) \<Longrightarrow> cancellers s ! j \<noteq> XIdle \<Longrightarrow> via_awaitable s t = t"
  using nth_mem [of j "cancellers s"] by (auto simp: ref_inv_def via_awaitable_def)

lemma set_x_fields [simp]:
  "self (set_x j pc s) = self s" "box_state (set_x j pc s) = box_state s" "box_waiter (set_x j pc s) = box_waiter s"
  "refs (set_x j pc s) = refs s" "freed (set_x j pc s) = freed s" "alive (set_x j pc s) = alive s"
  "coro (set_x j pc s) = coro s" "sus (set_x j pc s) = sus s" "cb (set_x j pc s) = cb s"
  "cancellers (set_x j pc s) = (cancellers s)[j := pc]" "wake (set_x j pc s) = wake s" "clock (set_x j pc s) = clock s"
  "trues (set_x j pc s) = trues s" "resumes (set_x j pc s) = resumes s" "answer (set_x j pc s) = answer s"
  "sbad (set_x j pc s) = sbad s"
  by (simp_all add: set_x_def)

lemma set_x_own: "own_handle s \<Longrightarrow> (\<And>h. pc = XResume h \<Longrightarrow> h = self s) \<Longrightarrow> own_handle (set_x j pc s)"
  unfolding own_handle_def by (auto dest!: set_update_subset_insert [THEN subsetD])

lemma set_x_ref: "ref_inv s \<Longrightarrow> j < length (cancellers s) \<Longrightarrow> alive s \<Longrightarrow> ref_inv (set_x j pc s)"
  by (simp add: ref_inv_def)

lemma busy_alive: "ref_inv s \<Longrightarrow> j < length (cancellers s) \<Longrightarrow> cancellers s ! j \<noteq> XIdle \<Longrightarrow> alive s"
  using nth_mem [of j "cancellers s"] by (auto simp: ref_inv_def)

lemma sleep_cancel_inv:
  assumes inv: "sleep_inv s" and j: "j < length (cancellers s)" "cancellers s ! j = XIdle" "alive s"
  shows "sleep_inv (sleep_cancel j s)"
proof (cases "box_state s = BPending")
  case True
  let ?t = "s\<lparr>box_state := BCanceled, trues := trues s + 1\<rparr>"
  have o: "own_handle s" and r: "ref_inv s" and t: "token_inv s" and a: "answer_inv s"
    using inv by (simp_all add: sleep_inv_def)
  have e: "sleep_cancel j s = set_x j XRead ?t" using True by (simp add: sleep_cancel_def box_cas_def)
  have "own_handle ?t" using o by (simp add: own_handle_def)
  then have "own_handle (sleep_cancel j s)" unfolding e by (rule set_x_own) simp
  moreover have "ref_inv ?t" using r by (simp add: ref_inv_def)
  then have "ref_inv (sleep_cancel j s)" unfolding e using j by (intro set_x_ref) simp_all
  moreover have "token_inv (sleep_cancel j s)"
    unfolding e using t x_update [OF j(1), of XRead] j True by (cases "coro s"; cases "cb s") (simp_all add: token_defs)
  moreover have "answer_inv (sleep_cancel j s)" unfolding e using a True by (auto simp: answer_inv_def)
  ultimately show ?thesis by (simp add: sleep_inv_def)
next
  case False
  with inv show ?thesis by (simp add: sleep_cancel_def box_cas_def)
qed

lemma cancel_step_inv:
  assumes inv: "sleep_inv s" and j: "j < length (cancellers s)"
    and st: "cancel_step j (cancellers s ! j) s = Some s'"
  shows "sleep_inv s'"
proof -
  have o: "own_handle s" and r: "ref_inv s" and t: "token_inv s" and a: "answer_inv s"
    using inv by (simp_all add: sleep_inv_def)
  have al: "alive s" and e: "\<And>t. via_awaitable s t = t" if "cancellers s ! j \<noteq> XIdle"
    using busy_alive [OF r j that] awaitable_live [OF r j that] by simp_all
  show ?thesis
  proof (cases "cancellers s ! j")
    case XRead
    define pc where "pc = (case box_waiter s of None \<Rightarrow> XIdle | Some h \<Rightarrow> XResume h)"
    have s': "s' = set_x j pc s" using st XRead e by (simp add: pc_def)
    have "own_handle s'" unfolding s'
      by (rule set_x_own [OF o]) (use o in \<open>auto simp: pc_def own_handle_def split: option.splits\<close>)
    moreover have "ref_inv s'" unfolding s' using r j al XRead by (intro set_x_ref) simp_all
    moreover have "answer_inv s'" unfolding s' using a by (simp add: answer_inv_def)
    moreover have "token_inv s'" unfolding s'
      using t x_update [OF j, of pc] XRead
      by (cases "coro s"; cases "box_waiter s"; cases "box_state s = BPending") (simp_all add: token_defs pc_def)
    ultimately show ?thesis by (simp add: sleep_inv_def)
  next
    case (XResume h)
    have "0 < resuming s" using nth_le_sum_map [OF j, of x_resumes] XResume by (simp add: resuming_def)
    then have c: "coro s = CSusp" using t by (auto simp: token_inv_def)
    have h: "h = self s" using o XResume j by (metis nth_mem own_handle_def)
    let ?u = "s\<lparr>coro := CRes, resumes := resumes s + 1\<rparr>"
    have "set_x j XClear ?u = (set_x j XClear s)\<lparr>coro := CRes, resumes := resumes s + 1\<rparr>" by (simp add: set_x_def)
    with st XResume c h have s': "s' = set_x j XClear ?u" by (simp add: resume_self_def)
    have "own_handle ?u" "ref_inv ?u" using o r al XResume by (simp_all add: own_handle_def ref_inv_def)
    then have "own_handle s'" "ref_inv s'" unfolding s' using j al XResume
      by (auto intro!: set_x_own set_x_ref)
    moreover have "answer_inv s'" unfolding s' using a by (simp add: answer_inv_def)
    moreover have "token_inv s'" unfolding s'
      using t x_update [OF j, of XClear] XResume c
      by (cases "cb s"; cases "box_state s = BPending") (simp_all add: token_defs)
    ultimately show ?thesis by (simp add: sleep_inv_def)
  next
    case XClear
    have "0 < clearing s" using nth_le_sum_map [OF j, of x_clears] XClear by (simp add: clearing_def)
    then have c: "coro s = CRes" using t by (cases "coro s") (auto simp: token_inv_def)
    let ?u = "s\<lparr>box_waiter := None\<rparr>"
    have s': "s' = set_x j XIdle ?u" using st XClear e by simp
    have "own_handle ?u" "ref_inv ?u" using o r by (simp_all add: own_handle_def ref_inv_def)
    then have "own_handle s'" "ref_inv s'" unfolding s' using j al XClear
      by (auto intro!: set_x_own set_x_ref)
    moreover have "answer_inv s'" unfolding s' using a by (simp add: answer_inv_def)
    moreover have "token_inv s'" unfolding s'
      using t x_update [OF j, of XIdle] XClear c by (simp add: token_defs)
    ultimately show ?thesis by (simp add: sleep_inv_def)
  qed (use st in simp)
qed

lemma await_now_inv:
  assumes inv: "sleep_inv s" and c: "coro s = CNew" and i: "sus s = SIdle"
  shows "sleep_inv (await_now s)"
proof -
  have o: "own_handle s" and r: "ref_inv s" and t: "token_inv s" and a: "answer_inv s"
    using inv by (simp_all add: sleep_inv_def)
  have n: "box_waiter s = None" "cb s = QNone" "alive s" using t r c by (auto simp: token_inv_def ref_inv_def)
  show ?thesis
  proof (cases "sleep_await_ready s")
    case True
    then have e: "await_now s = s\<lparr>coro := CRes\<rparr>" by (simp add: await_now_def)
    have "own_handle (await_now s)" "ref_inv (await_now s)" "answer_inv (await_now s)"
      using o r a unfolding e by (simp_all add: own_handle_def ref_inv_def answer_inv_def)
    moreover have "token_inv (await_now s)" using t c n unfolding e by (simp add: token_defs)
    ultimately show ?thesis by (simp add: sleep_inv_def)
  next
    case False
    then have p: "box_state s = BPending" and e: "await_now s = s\<lparr>coro := CSusp, box_waiter := Some (self s),
        refs := refs s + 1, cb := QQueued, sus := SDone\<rparr>"
      by (simp_all add: await_now_def sleep_await_ready_def)
    have "own_handle (await_now s)" "ref_inv (await_now s)"
      using o r n unfolding e by (simp_all add: own_handle_def ref_inv_def)
    moreover have "answer_inv (await_now s)" using a c unfolding e by (auto simp: answer_inv_def)
    moreover have "token_inv (await_now s)" using t c n p unfolding e by (simp add: token_defs)
    ultimately show ?thesis by (simp add: sleep_inv_def)
  qed
qed

lemma destroy_inv:
  assumes inv: "sleep_inv s" and c: "coro s = CRes" "alive s" and q: "\<forall>pc \<in> set (cancellers s). pc = XIdle"
  shows "sleep_inv (destroy_awaitable s)"
proof -
  have e: "destroy_awaitable s = s\<lparr>refs := refs s - 1, freed := (refs s = 1), alive := False\<rparr>"
    by (simp add: destroy_awaitable_def drop_ref_def)
  have o: "own_handle s" and r: "ref_inv s" and t: "token_inv s" and a: "answer_inv s"
    using inv by (simp_all add: sleep_inv_def)
  have "refs s = 1 + cb_refs (cb s)" using r c by (simp add: ref_inv_def)
  moreover have "sbad s = None" "sus s = SIdle \<or> sus s = SDone" using r by (simp_all add: ref_inv_def)
  ultimately have "ref_inv (destroy_awaitable s)" using c q unfolding e by (simp add: ref_inv_def)
  moreover have "own_handle (destroy_awaitable s)" using o unfolding e by (simp add: own_handle_def)
  moreover have "token_inv (destroy_awaitable s)" using t unfolding e by (simp add: token_defs)
  moreover have "answer_inv (destroy_awaitable s)" using a unfolding e by (simp add: answer_inv_def)
  ultimately show ?thesis by (simp add: sleep_inv_def)
qed

lemma clock_inv:
  assumes inv: "sleep_inv s" and t: "clock s \<le> t"
  shows "sleep_inv (s\<lparr>clock := t\<rparr>)"
proof -
  have o: "own_handle s" and r: "ref_inv s" and k: "token_inv s" and a: "answer_inv s"
    using inv by (simp_all add: sleep_inv_def)
  have "own_handle (s\<lparr>clock := t\<rparr>)" using o by (simp add: own_handle_def)
  moreover have "ref_inv (s\<lparr>clock := t\<rparr>)" using r by (simp add: ref_inv_def)
  moreover have "token_inv (s\<lparr>clock := t\<rparr>)" using k by (simp add: token_defs)
  moreover have "answer_inv (s\<lparr>clock := t\<rparr>)" using a t by (auto simp: answer_inv_def)
  ultimately show ?thesis by (simp add: sleep_inv_def)
qed

lemma fire_inv:
  assumes inv: "sleep_inv s" and q: "cb s = QQueued" and c: "c \<or> wake s \<le> clock s"
  shows "sleep_inv (s\<lparr>cb := QTake c\<rparr>)"
proof -
  have o: "own_handle s" and r: "ref_inv s" and k: "token_inv s" and a: "answer_inv s"
    using inv by (simp_all add: sleep_inv_def)
  have "own_handle (s\<lparr>cb := QTake c\<rparr>)" using o by (simp add: own_handle_def)
  moreover have "ref_inv (s\<lparr>cb := QTake c\<rparr>)" using r q by (simp add: ref_inv_def)
  moreover have "token_inv (s\<lparr>cb := QTake c\<rparr>)" using k q by (cases "coro s") (simp_all add: token_defs)
  moreover have "answer_inv (s\<lparr>cb := QTake c\<rparr>)" using a c by (auto simp: answer_inv_def)
  ultimately show ?thesis by (simp add: sleep_inv_def)
qed

lemma value_inv:
  assumes inv: "sleep_inv s" and c: "coro s = CRes"
  shows "sleep_inv (s\<lparr>answer := Some (sleep_await_resume s)\<rparr>)"
proof -
  have o: "own_handle s" and r: "ref_inv s" and k: "token_inv s" and a: "answer_inv s"
    using inv by (simp_all add: sleep_inv_def)
  let ?t = "s\<lparr>answer := Some (sleep_await_resume s)\<rparr>"
  have "own_handle ?t" using o by (simp add: own_handle_def)
  moreover have "ref_inv ?t" using r by (simp add: ref_inv_def)
  moreover have "token_inv ?t" using k by (simp add: token_defs)
  moreover have "answer_inv ?t" using a c by (simp add: answer_inv_def sleep_await_resume_def)
  ultimately show ?thesis by (simp add: sleep_inv_def)
qed

lemma sleep_inv_step:
  assumes inv: "sleep_inv s" and ok: "calm a" and "sleep_step a s = Some s'"
  shows "sleep_inv s'"
proof -
  have st: "sact_step a s = Some s'" using assms(3) by (simp add: sleep_step_def split: if_splits)
  show ?thesis
  proof (cases a)
    case (Clock t)
    with st inv clock_inv show ?thesis by (auto split: if_splits)
  next
    case Await
    with st inv await_now_inv show ?thesis by (auto split: if_splits)
  next
    case Fire
    with st fire_inv [OF inv, of False] show ?thesis by (auto split: if_splits)
  next
    case StopTimer
    with st fire_inv [OF inv, of True] show ?thesis by (auto split: if_splits)
  next
    case Callback
    with st inv sleep_callback_inv show ?thesis by simp
  next
    case (Cancel j)
    with st inv sleep_cancel_inv show ?thesis by (auto split: if_splits)
  next
    case (CancelStep j)
    with st inv cancel_step_inv show ?thesis by (auto split: if_splits)
  next
    case Value
    with st inv value_inv show ?thesis by (auto split: if_splits)
  next
    case DestroyQuiet
    with st inv destroy_inv show ?thesis by (auto split: if_splits)
  qed (use ok in simp_all)
qed

interpretation sleeping: machine_inv_on sleep_step calm "ssys_init h w t n" sleep_inv for h w t n
  by unfold_locales (auto intro: sleep_inv_init sleep_inv_step)


lemmas sleep_eval = sleep_step_def ssys_init_def fault_def via_awaitable_def via_box_def drop_ref_def
  sleep_await_ready_def resume_self_def box_cas_def set_x_def sleep_cancel_def sleep_await_resume_def await_now_def
  destroy_awaitable_def

definition sleep_demo :: "sact list" where
  "sleep_demo = [Await, Cancel 0, CancelStep 0, CancelStep 0, CancelStep 0, Value, DestroyQuiet, Clock 9, Fire,
     Callback, Callback, Callback, Callback]"

lemma sleep_demo_runs:
  "\<exists>s. run sleep_step sleep_demo (ssys_init 3 5 0 1) = Some s \<and> answer s = Some False \<and> resumes s = 1 \<and>
     \<not> alive s \<and> cb s = QGone"
  by (simp add: sleep_demo_def sleep_eval)


section \<open>Where it goes wrong\<close>

text \<open>
  A cancel that is lost. When another thread cancels between \<open>await_ready\<close> and the store of
  the waiter, it finds no waiter; the coroutine suspends, and the timer's callback later finds the
  box canceled and does not resume it: \<open>cancel\<close> has returned true, the timer is through, and the
  coroutine stays suspended.
\<close>

theorem sleep_cancel_lost:
  "\<exists>s. run sleep_step [Ready, Cancel 0, CancelStep 0, Suspend, Suspend, Suspend, Clock 9, Fire, Callback, Callback,
       Callback, Callback] (ssys_init 3 5 0 1) = Some s \<and>
     coro s = CSusp \<and> resumes s = 0 \<and> trues s = 1 \<and> cb s = QGone \<and> cancellers s = [XIdle] \<and> sbad s = None"
  by (simp add: sleep_eval)

text \<open>
  A sleep whose wake time has passed before it is awaited reports \<open>false\<close>, the answer for a
  cancelled sleep, although nobody cancelled it.
\<close>

theorem elapsed_sleep_reports_cancel:
  "\<exists>s. run sleep_step [Clock 6, Await, Value] (ssys_init 3 5 0 1) = Some s \<and>
     answer s = Some False \<and> trues s = 0 \<and> box_state s = BPending \<and> wake s \<le> clock s"
  by (simp add: sleep_eval)

text \<open>
  \<open>cancel\<close> clears the waiter through the awaitable after resuming the coroutine, which may
  have destroyed the awaitable by then.
\<close>

theorem sleep_cancel_use_after_free:
  "\<exists>s. run sleep_step [Await, Cancel 0, CancelStep 0, CancelStep 0, Value, Destroy, CancelStep 0]
       (ssys_init 3 5 0 1) = Some s \<and> answer s = Some False \<and> sbad s = Some UseAfterFree"
  by (simp add: sleep_eval)

end
