(* ===== verification/Timeout.thy ===== *)
theory Timeout
  imports Await_Results
begin

text \<open>
  \<open>TimeoutAwaitable\<close> of \<open>include/timer.hpp\<close>: an inner coroutine, the runner, awaits the given
  awaitable, a timer task waits for the deadline, and the first to exchange the shared state
  resumes the caller. One access of the code per action.
\<close>

section \<open>The machine\<close>

text \<open>
  The runner is created suspended (\<open>RNew\<close>), awaits (\<open>RBody\<close>), exchanges the state (\<open>RCas\<close>),
  resumes the caller, and drops its share of the state. The timer's task: queued, exchanging,
  resuming, deleting its share. \<open>tsus\<close> is the thread in \<open>await_suspend\<close>: storing the caller,
  starting the runner, adding the task.
\<close>

datatype to_state = TPending | TValid | TError | TTimeout

datatype runner_pc = RNew | RBody | RCas to_state | RResume | REnd | RDone

datatype task_pc = KNone | KQueued | KCas | KResume | KDelete | KGone

datatype caller_pc = CNew | CSusp | CRes

datatype suspend_pc = SIdle | SCaller | SStart | SAdd | SDone

datatype 'v to_answer = ATimeout | AValue 'v | AThrow exn | AFault fault

text \<open>\<open>shared\<close> counts the shared pointers to the state; \<open>ended\<close> logs the awaited outcome.\<close>

record 'v tosys =
  tstate :: to_state
  buf :: "'v option"
  texn :: "exn option"
  tcaller :: "handle option"
  tself :: handle
  runner :: runner_pc
  ttask :: task_pc
  tsus :: suspend_pc
  tcoro :: caller_pc
  talive :: bool
  shared :: nat
  ended :: "'v outcome option"
  tresumes :: nat
  tanswer :: "'v to_answer option"
  timeout :: int
  tclock :: int
  tbad :: "fault option"

text \<open>The constructor makes the state, shared with the runner's parameter.\<close>

definition tosys_init :: "handle \<Rightarrow> int \<Rightarrow> int \<Rightarrow> 'v tosys" where
  "tosys_init h t c = \<lparr>tstate = TPending, buf = None, texn = None, tcaller = None, tself = h, runner = RNew,
     ttask = KNone, tsus = SIdle, tcoro = CNew, talive = True, shared = 2, ended = None, tresumes = 0, tanswer = None,
     timeout = t, tclock = c, tbad = None\<rparr>"

text \<open>\<open>Await\<close> is \<open>await_ready\<close> and \<open>await_suspend\<close> with no step of the runner in between.\<close>

datatype 'v toact =
    TClock int | Await | Ready | Suspend | Ends "'v outcome" | Run | Fire | StopTimer | Task | Value | Destroy

definition resume_caller :: "'v tosys \<Rightarrow> 'v tosys" where
  "resume_caller s = (if tcaller s = Some (tself s) \<and> tcoro s = CSusp
     then s\<lparr>tcoro := CRes, tresumes := tresumes s + 1\<rparr> else s\<lparr>tbad := Some Unreachable\<rparr>)"

definition own :: "'v tosys \<Rightarrow> 'v tosys \<Rightarrow> 'v tosys" where
  "own s t = (if talive s then t else s\<lparr>tbad := Some UseAfterFree\<rparr>)"

definition timeout_ready :: "'v tosys \<Rightarrow> 'v tosys" where
  "timeout_ready s = (if tclock s \<ge> timeout s then s\<lparr>tstate := TTimeout, tcoro := CRes\<rparr>
     else s\<lparr>tcoro := CSusp, tsus := SCaller\<rparr>)"

fun timeout_suspend :: "suspend_pc \<Rightarrow> 'v tosys \<Rightarrow> 'v tosys option" where
  "timeout_suspend SCaller s = Some (own s (s\<lparr>tcaller := Some (tself s), tsus := SStart\<rparr>))"
| "timeout_suspend SStart s = Some (own s (s\<lparr>runner := RBody, tsus := SAdd\<rparr>))"
| "timeout_suspend SAdd s = Some (own s (s\<lparr>ttask := KQueued, shared := shared s + 1, tsus := SDone\<rparr>))"
| "timeout_suspend pc s = None"

definition await_all :: "'v tosys \<Rightarrow> 'v tosys" where
  "await_all s = (if tclock s \<ge> timeout s then timeout_ready s
     else s\<lparr>tcoro := CSusp, tcaller := Some (tself s), runner := RBody, ttask := KQueued, shared := shared s + 1, tsus := SDone\<rparr>)"

text \<open>The awaitable ends: its value is stored, or its exception, before the exchange.\<close>

definition runner_ends :: "'v outcome \<Rightarrow> 'v tosys \<Rightarrow> 'v tosys" where
  "runner_ends oc s = (case oc of
     OValue v \<Rightarrow> s\<lparr>ended := Some oc, buf := Some v, runner := RCas TValid\<rparr>
   | OThrow e \<Rightarrow> s\<lparr>ended := Some oc, texn := Some e, runner := RCas TError\<rparr>)"

fun runner_step :: "runner_pc \<Rightarrow> 'v tosys \<Rightarrow> 'v tosys option" where
  "runner_step (RCas next_state) s = Some (if tstate s = TPending then s\<lparr>tstate := next_state, runner := RResume\<rparr>
     else s\<lparr>runner := REnd\<rparr>)"
| "runner_step RResume s = Some (resume_caller (s\<lparr>runner := REnd\<rparr>))"
| "runner_step REnd s = Some (s\<lparr>runner := RDone, shared := shared s - 1\<rparr>)"
| "runner_step pc s = None"

fun task_step :: "task_pc \<Rightarrow> 'v tosys \<Rightarrow> 'v tosys option" where
  "task_step KCas s = Some (if tstate s = TPending then s\<lparr>tstate := TTimeout, ttask := KResume\<rparr> else s\<lparr>ttask := KDelete\<rparr>)"
| "task_step KResume s = Some (resume_caller (s\<lparr>ttask := KDelete\<rparr>))"
| "task_step KDelete s = Some (s\<lparr>ttask := KGone, shared := shared s - 1\<rparr>)"
| "task_step pc s = None"

definition timeout_resume :: "'v tosys \<Rightarrow> 'v to_answer" where
  "timeout_resume s = (case tstate s of
     TPending \<Rightarrow> AFault Unreachable
   | TTimeout \<Rightarrow> ATimeout
   | TValid \<Rightarrow> (case buf s of Some v \<Rightarrow> AValue v | None \<Rightarrow> AFault UseAfterFree)
   | TError \<Rightarrow> (case texn s of Some e \<Rightarrow> AThrow e | None \<Rightarrow> AFault Terminate))"

text \<open>What the destructor of the state destroys.\<close>

definition state_dtor :: "'v tosys \<Rightarrow> 'v option" where
  "state_dtor s = (if tstate s = TValid then buf s else None)"

fun toact_step :: "'v toact \<Rightarrow> 'v tosys \<Rightarrow> 'v tosys option" where
  "toact_step (TClock t) s = (if tclock s \<le> t then Some (s\<lparr>tclock := t\<rparr>) else None)"
| "toact_step Await s = (if tcoro s = CNew then Some (await_all s) else None)"
| "toact_step Ready s = (if tcoro s = CNew then Some (timeout_ready s) else None)"
| "toact_step Suspend s = timeout_suspend (tsus s) s"
| "toact_step (Ends oc) s = (if runner s = RBody then Some (runner_ends oc s) else None)"
| "toact_step Run s = runner_step (runner s) s"
| "toact_step Fire s = (if ttask s = KQueued \<and> timeout s \<le> tclock s then Some (s\<lparr>ttask := KCas\<rparr>) else None)"
| "toact_step StopTimer s = (if ttask s = KQueued then Some (s\<lparr>ttask := KDelete\<rparr>) else None)"
| "toact_step Task s = task_step (ttask s) s"
| "toact_step Value s = (if tcoro s = CRes \<and> talive s \<and> tanswer s = None
     then Some (s\<lparr>tanswer := Some (timeout_resume s)\<rparr>) else None)"
| "toact_step Destroy s = (if tcoro s = CRes \<and> talive s
     then Some (s\<lparr>talive := False, shared := shared s - 1\<rparr>) else None)"

definition timeout_step :: "'v toact \<Rightarrow> 'v tosys \<Rightarrow> 'v tosys option" where
  "timeout_step a s = (if tbad s \<noteq> None then None else toact_step a s)"

section \<open>Without an early end\<close>

fun calm :: "'v toact \<Rightarrow> bool" where
  "calm Ready = False" | "calm Suspend = False" | "calm a = True"

fun r_refs :: "runner_pc \<Rightarrow> nat" where
  "r_refs RDone = 0" | "r_refs pc = 1"

fun k_refs :: "task_pc \<Rightarrow> nat" where
  "k_refs KNone = 0" | "k_refs KGone = 0" | "k_refs pc = 1"

definition refs_inv :: "'v tosys \<Rightarrow> bool" where
  "refs_inv s \<longleftrightarrow> tbad s = None \<and> (tsus s = SIdle \<or> tsus s = SDone) \<and>
     shared s = (if talive s then 1 else 0) + r_refs (runner s) + k_refs (ttask s) \<and> (\<not> talive s \<longrightarrow> tcoro s = CRes)"

text \<open>Who owes the resumption.\<close>

definition debt :: "'v tosys \<Rightarrow> nat" where
  "debt s = (if runner s = RResume then 1 else 0) + (if ttask s = KResume then 1 else 0)"

definition owed_inv :: "'v tosys \<Rightarrow> bool" where
  "owed_inv s \<longleftrightarrow>
     (tcoro s = CNew \<longrightarrow> tstate s = TPending \<and> runner s = RNew \<and> ttask s = KNone \<and> tresumes s = 0 \<and> tsus s = SIdle) \<and>
     (tcoro s = CSusp \<longrightarrow> tcaller s = Some (tself s) \<and> tresumes s = 0 \<and>
        (tstate s = TPending \<longrightarrow> (runner s = RBody \<or> (\<exists>n. runner s = RCas n)) \<and> debt s = 0) \<and>
        (tstate s \<noteq> TPending \<longrightarrow> debt s = 1)) \<and>
     (tcoro s = CRes \<longrightarrow> tstate s \<noteq> TPending \<and> tresumes s \<le> 1) \<and> (tcoro s \<noteq> CSusp \<longrightarrow> debt s = 0)"

definition stored_inv :: "'v tosys \<Rightarrow> bool" where
  "stored_inv s \<longleftrightarrow>
     (runner s = RCas TValid \<or> tstate s = TValid \<longrightarrow> (\<exists>v. ended s = Some (OValue v) \<and> buf s = Some v)) \<and>
     (runner s = RCas TError \<or> tstate s = TError \<longrightarrow> (\<exists>e. ended s = Some (OThrow e) \<and> texn s = Some e)) \<and>
     runner s \<noteq> RCas TPending \<and> runner s \<noteq> RCas TTimeout \<and>
     (runner s = RNew \<or> runner s = RBody \<longrightarrow> tstate s \<noteq> TValid \<and> tstate s \<noteq> TError) \<and>
     (ttask s = KCas \<or> ttask s = KResume \<or> tstate s = TTimeout \<longrightarrow> timeout s \<le> tclock s) \<and>
     (\<forall>a. tanswer s = Some a \<longrightarrow> tcoro s = CRes \<and> a = timeout_resume s)"

definition timeout_inv :: "'v tosys \<Rightarrow> bool" where
  "timeout_inv s \<longleftrightarrow> refs_inv s \<and> owed_inv s \<and> stored_inv s"

lemma timeout_resume_frame [simp]:
  "timeout_resume (s\<lparr>runner := x1\<rparr>) = timeout_resume s" "timeout_resume (s\<lparr>ttask := x2\<rparr>) = timeout_resume s"
  "timeout_resume (s\<lparr>shared := x3\<rparr>) = timeout_resume s" "timeout_resume (s\<lparr>tcoro := x4\<rparr>) = timeout_resume s"
  "timeout_resume (s\<lparr>tresumes := x5\<rparr>) = timeout_resume s" "timeout_resume (s\<lparr>tanswer := x6\<rparr>) = timeout_resume s"
  "timeout_resume (s\<lparr>talive := x7\<rparr>) = timeout_resume s" "timeout_resume (s\<lparr>tclock := x8\<rparr>) = timeout_resume s"
  by (simp_all add: timeout_resume_def split: to_state.splits)

lemma timeout_inv_init: "timeout_inv (tosys_init h t c)"
  by (simp add: timeout_inv_def refs_inv_def owed_inv_def stored_inv_def debt_def tosys_init_def)

text \<open>A resumption meets the suspended caller.\<close>

lemma resume_owed:
  assumes "owed_inv s" and "runner s = RResume \<or> ttask s = KResume"
  shows "tcoro s = CSusp" and "tcaller s = Some (tself s)" and "tresumes s = 0"
proof -
  have "debt s \<noteq> 0" using assms(2) by (auto simp: debt_def)
  with assms(1) show "tcoro s = CSusp" by (auto simp only: owed_inv_def)
  with assms(1) show "tcaller s = Some (tself s)" "tresumes s = 0" by (simp_all add: owed_inv_def)
qed

lemma runner_inv:
  assumes inv: "timeout_inv s" and st: "runner_step (runner s) s = Some s'"
  shows "timeout_inv s'"
proof -
  have r: "refs_inv s" and o: "owed_inv s" and d: "stored_inv s" using inv by (simp_all add: timeout_inv_def)
  show ?thesis
  proof (cases "runner s")
    case (RCas n)
    show ?thesis
    proof (cases "tstate s = TPending")
      case True
      with st RCas have e: "s' = s\<lparr>tstate := n, runner := RResume\<rparr>" by simp
      have n: "n = TValid \<or> n = TError" using d RCas by (cases n) (simp_all add: stored_inv_def)
      have "refs_inv s'" using r RCas unfolding e by (simp add: refs_inv_def)
      moreover have c: "tcoro s = CSusp" using o True RCas by (cases "tcoro s") (simp_all add: owed_inv_def)
      have "owed_inv s'" using o True RCas c n unfolding e by (auto simp: owed_inv_def debt_def)
      moreover have "stored_inv s'" using d True RCas c n unfolding e by (auto simp: stored_inv_def)
      ultimately show ?thesis by (simp add: timeout_inv_def)
    next
      case False
      with st RCas have e: "s' = s\<lparr>runner := REnd\<rparr>" by simp
      have "refs_inv s'" using r RCas unfolding e by (simp add: refs_inv_def)
      moreover have "owed_inv s'" using o False RCas unfolding e by (cases "tcoro s") (simp_all add: owed_inv_def debt_def)
      moreover have "stored_inv s'" using d False RCas unfolding e by (simp add: stored_inv_def)
      ultimately show ?thesis by (simp add: timeout_inv_def)
    qed
  next
    case RResume
    note c = resume_owed [OF o, OF disjI1, OF RResume]
    have e: "s' = s\<lparr>runner := REnd, tcoro := CRes, tresumes := tresumes s + 1\<rparr>"
      using st RResume c by (simp add: resume_caller_def)
    have "refs_inv s'" using r RResume unfolding e by (simp add: refs_inv_def)
    moreover have "owed_inv s'" using o RResume c unfolding e by (auto simp: owed_inv_def debt_def)
    moreover have "stored_inv s'" using d RResume c unfolding e by (simp add: stored_inv_def)
    ultimately show ?thesis by (simp add: timeout_inv_def)
  next
    case REnd
    with st have e: "s' = s\<lparr>runner := RDone, shared := shared s - 1\<rparr>" by simp
    have "refs_inv s'" using r REnd unfolding e by (simp add: refs_inv_def)
    moreover have "owed_inv s'" using o REnd unfolding e by (cases "tcoro s") (simp_all add: owed_inv_def debt_def)
    moreover have "stored_inv s'" using d REnd unfolding e by (simp add: stored_inv_def)
    ultimately show ?thesis by (simp add: timeout_inv_def)
  qed (use st in simp_all)
qed

lemma task_inv:
  assumes inv: "timeout_inv s" and st: "task_step (ttask s) s = Some s'"
  shows "timeout_inv s'"
proof -
  have r: "refs_inv s" and o: "owed_inv s" and d: "stored_inv s" using inv by (simp_all add: timeout_inv_def)
  show ?thesis
  proof (cases "ttask s")
    case KCas
    show ?thesis
    proof (cases "tstate s = TPending")
      case True
      with st KCas have e: "s' = s\<lparr>tstate := TTimeout, ttask := KResume\<rparr>" by simp
      have "refs_inv s'" using r KCas unfolding e by (simp add: refs_inv_def)
      moreover have c: "tcoro s = CSusp" using o True KCas by (cases "tcoro s") (simp_all add: owed_inv_def)
      have "owed_inv s'" using o True KCas c unfolding e by (auto simp: owed_inv_def debt_def)
      moreover have "stored_inv s'" using d True KCas c unfolding e by (auto simp: stored_inv_def)
      ultimately show ?thesis by (simp add: timeout_inv_def)
    next
      case False
      with st KCas have e: "s' = s\<lparr>ttask := KDelete\<rparr>" by simp
      have "refs_inv s'" using r KCas unfolding e by (simp add: refs_inv_def)
      moreover have "owed_inv s'" using o False KCas unfolding e by (cases "tcoro s") (simp_all add: owed_inv_def debt_def)
      moreover have "stored_inv s'" using d False KCas unfolding e by (simp add: stored_inv_def)
      ultimately show ?thesis by (simp add: timeout_inv_def)
    qed
  next
    case KResume
    note c = resume_owed [OF o, OF disjI2, OF KResume]
    have e: "s' = s\<lparr>ttask := KDelete, tcoro := CRes, tresumes := tresumes s + 1\<rparr>"
      using st KResume c by (simp add: resume_caller_def)
    have "refs_inv s'" using r KResume unfolding e by (simp add: refs_inv_def)
    moreover have "owed_inv s'" using o KResume c unfolding e by (auto simp: owed_inv_def debt_def)
    moreover have "stored_inv s'" using d KResume c unfolding e by (simp add: stored_inv_def)
    ultimately show ?thesis by (simp add: timeout_inv_def)
  next
    case KDelete
    with st have e: "s' = s\<lparr>ttask := KGone, shared := shared s - 1\<rparr>" by simp
    have "refs_inv s'" using r KDelete unfolding e by (simp add: refs_inv_def)
    moreover have "owed_inv s'" using o KDelete unfolding e by (cases "tcoro s") (simp_all add: owed_inv_def debt_def)
    moreover have "stored_inv s'" using d KDelete unfolding e by (simp add: stored_inv_def)
    ultimately show ?thesis by (simp add: timeout_inv_def)
  qed (use st in simp_all)
qed

lemma await_all_inv:
  assumes inv: "timeout_inv s" and c: "tcoro s = CNew"
  shows "timeout_inv (await_all s)"
proof -
  have r: "refs_inv s" and o: "owed_inv s" and d: "stored_inv s" using inv by (simp_all add: timeout_inv_def)
  have n: "tstate s = TPending" "runner s = RNew" "ttask s = KNone" "tresumes s = 0" "talive s"
    using o r c by (auto simp: owed_inv_def refs_inv_def)
  show ?thesis
  proof (cases "tclock s \<ge> timeout s")
    case True
    then have e: "await_all s = s\<lparr>tstate := TTimeout, tcoro := CRes\<rparr>" by (simp add: await_all_def timeout_ready_def)
    have "refs_inv (await_all s)" using r unfolding e by (simp add: refs_inv_def)
    moreover have "owed_inv (await_all s)" using n unfolding e by (simp add: owed_inv_def debt_def)
    moreover have "stored_inv (await_all s)" using d c n True unfolding e by (auto simp: stored_inv_def)
    ultimately show ?thesis by (simp add: timeout_inv_def)
  next
    case False
    then have e: "await_all s = s\<lparr>tcoro := CSusp, tcaller := Some (tself s), runner := RBody, ttask := KQueued,
        shared := shared s + 1, tsus := SDone\<rparr>" by (simp add: await_all_def)
    have "refs_inv (await_all s)" using r n unfolding e by (simp add: refs_inv_def)
    moreover have "owed_inv (await_all s)" using n unfolding e by (simp add: owed_inv_def debt_def)
    moreover have "stored_inv (await_all s)" using d c n unfolding e by (auto simp: stored_inv_def)
    ultimately show ?thesis by (simp add: timeout_inv_def)
  qed
qed

lemma ends_inv:
  assumes inv: "timeout_inv s" and b: "runner s = RBody"
  shows "timeout_inv (runner_ends oc s)"
proof -
  have r: "refs_inv s" and o: "owed_inv s" and d: "stored_inv s" using inv by (simp_all add: timeout_inv_def)
  have a: "tstate s \<noteq> TValid" "tstate s \<noteq> TError" using d b by (simp_all add: stored_inv_def)
  have "refs_inv (runner_ends oc s)" using r b by (cases oc) (simp_all add: runner_ends_def refs_inv_def)
  moreover have "owed_inv (runner_ends oc s)"
    using o b by (cases oc; cases "tcoro s") (simp_all add: runner_ends_def owed_inv_def debt_def)
  moreover have "stored_inv (runner_ends oc s)"
    using d b a by (cases oc; cases "tstate s") (simp_all add: runner_ends_def stored_inv_def timeout_resume_def)
  ultimately show ?thesis by (simp add: timeout_inv_def)
qed

lemma small_steps_inv:
  assumes inv: "timeout_inv s"
  shows "tclock s \<le> t \<Longrightarrow> timeout_inv (s\<lparr>tclock := t\<rparr>)"
    and "ttask s = KQueued \<Longrightarrow> k = KCas \<and> timeout s \<le> tclock s \<or> k = KDelete \<Longrightarrow> timeout_inv (s\<lparr>ttask := k\<rparr>)"
    and "tcoro s = CRes \<Longrightarrow> timeout_inv (s\<lparr>tanswer := Some (timeout_resume s)\<rparr>)"
    and "tcoro s = CRes \<Longrightarrow> talive s \<Longrightarrow> timeout_inv (s\<lparr>talive := False, shared := shared s - 1\<rparr>)"
proof -
  have r: "refs_inv s" and o: "owed_inv s" and d: "stored_inv s" using inv by (simp_all add: timeout_inv_def)
  show "timeout_inv (s\<lparr>tclock := t\<rparr>)" if t: "tclock s \<le> t"
  proof -
    have "refs_inv (s\<lparr>tclock := t\<rparr>)" using r by (simp add: refs_inv_def)
    moreover have "owed_inv (s\<lparr>tclock := t\<rparr>)" using o by (simp add: owed_inv_def debt_def)
    moreover have "stored_inv (s\<lparr>tclock := t\<rparr>)" using d order_trans [OF _ t] by (simp add: stored_inv_def)
    ultimately show ?thesis by (simp add: timeout_inv_def)
  qed
  show "timeout_inv (s\<lparr>ttask := k\<rparr>)"
    if q: "ttask s = KQueued" and k: "k = KCas \<and> timeout s \<le> tclock s \<or> k = KDelete"
  proof -
    have "refs_inv (s\<lparr>ttask := k\<rparr>)" using r q k by (auto simp: refs_inv_def)
    moreover have "owed_inv (s\<lparr>ttask := k\<rparr>)" using o q k by (cases "tcoro s") (auto simp: owed_inv_def debt_def)
    moreover have "stored_inv (s\<lparr>ttask := k\<rparr>)" using d k by (auto simp: stored_inv_def)
    ultimately show ?thesis by (simp add: timeout_inv_def)
  qed
  show "timeout_inv (s\<lparr>tanswer := Some (timeout_resume s)\<rparr>)" if c: "tcoro s = CRes"
  proof -
    let ?t = "s\<lparr>tanswer := Some (timeout_resume s)\<rparr>"
    have "refs_inv ?t" using r by (simp add: refs_inv_def)
    moreover have "owed_inv ?t" using o by (simp add: owed_inv_def debt_def)
    moreover have "stored_inv ?t" using d c by (simp add: stored_inv_def)
    ultimately show ?thesis by (simp add: timeout_inv_def)
  qed
  show "timeout_inv (s\<lparr>talive := False, shared := shared s - 1\<rparr>)" if c: "tcoro s = CRes" "talive s"
  proof -
    let ?t = "s\<lparr>talive := False, shared := shared s - 1\<rparr>"
    have "refs_inv ?t" using r c by (simp add: refs_inv_def)
    moreover have "owed_inv ?t" using o by (simp add: owed_inv_def debt_def)
    moreover have "stored_inv ?t" using d c by (simp add: stored_inv_def)
    ultimately show ?thesis by (simp add: timeout_inv_def)
  qed
qed

lemma timeout_inv_step:
  assumes inv: "timeout_inv s" and ok: "calm a" and "timeout_step a s = Some s'"
  shows "timeout_inv s'"
proof -
  have st: "toact_step a s = Some s'" using assms(3) by (simp add: timeout_step_def split: if_splits)
  note small = small_steps_inv [OF inv]
  show ?thesis
  proof (cases a)
    case (TClock t) with st small(1) show ?thesis by (auto split: if_splits)
  next
    case Await with st await_all_inv [OF inv] show ?thesis by (auto split: if_splits)
  next
    case (Ends oc) with st ends_inv [OF inv] show ?thesis by (auto split: if_splits)
  next
    case Run with st runner_inv [OF inv] show ?thesis by simp
  next
    case Fire with st small(2) [of KCas] show ?thesis by (auto split: if_splits)
  next
    case StopTimer with st small(2) [of KDelete] show ?thesis by (auto split: if_splits)
  next
    case Task with st task_inv [OF inv] show ?thesis by simp
  next
    case Value with st small(3) show ?thesis by (auto split: if_splits)
  next
    case Destroy with st small(4) show ?thesis by (auto split: if_splits)
  qed (use ok in simp_all)
qed

interpretation timing: machine_inv_on timeout_step calm "tosys_init h t c" timeout_inv for h t c
  by unfold_locales (auto intro: timeout_inv_init timeout_inv_step)

lemma answer_cases:
  assumes "timeout_inv s" and "tanswer s = Some a"
  shows "(a = ATimeout \<and> timeout s \<le> tclock s) \<or> (\<exists>v. a = AValue v \<and> ended s = Some (OValue v)) \<or>
    (\<exists>e. a = AThrow e \<and> ended s = Some (OThrow e))"
proof -
  have d: "stored_inv s" and o: "owed_inv s" using assms(1) by (simp_all add: timeout_inv_def)
  then have "a = timeout_resume s" "tstate s \<noteq> TPending" using assms(2) by (auto simp: stored_inv_def owed_inv_def)
  then show ?thesis using d by (cases "tstate s") (auto simp: stored_inv_def timeout_resume_def)
qed

text \<open>
  An await with a timeout resumes its caller once, with the winner's answer. When the
  awaited operation does not end before the timer task is added, no step touches a dead
  object or resumes a coroutine that is not suspended; the state is released exactly when the
  awaitable, the runner and the timer have all dropped it; while the caller is suspended, the
  runner is still on its way to the exchange or somebody is about to resume the caller; and
  the answer is the value or the exception the operation ended with, or a timeout, which is given
  only when the deadline has been reached.
\<close>

theorem timeout_correct:
  assumes "run timeout_step as (tosys_init h t c) = Some s" and "\<forall>a \<in> set as. calm a"
  shows "tbad s = None \<and> tresumes s \<le> 1 \<and>
    (shared s = 0 \<longleftrightarrow> \<not> talive s \<and> runner s = RDone \<and> (ttask s = KNone \<or> ttask s = KGone)) \<and>
    (tcoro s = CSusp \<longrightarrow> (tstate s = TPending \<and> (runner s = RBody \<or> (\<exists>n. runner s = RCas n))) \<or>
       runner s = RResume \<or> ttask s = KResume) \<and>
    (\<forall>a. tanswer s = Some a \<longrightarrow> (a = ATimeout \<and> timeout s \<le> tclock s) \<or> (\<exists>v. a = AValue v \<and> ended s = Some (OValue v)) \<or>
       (\<exists>e. a = AThrow e \<and> ended s = Some (OThrow e)))"
proof -
  have inv: "timeout_inv s" using timing.init_run_inv_on [OF assms] .
  then have r: "refs_inv s" and o: "owed_inv s" by (simp_all add: timeout_inv_def)
  have "tresumes s \<le> 1" using o by (cases "tcoro s") (simp_all add: owed_inv_def)
  moreover have "shared s = 0 \<longleftrightarrow> \<not> talive s \<and> runner s = RDone \<and> (ttask s = KNone \<or> ttask s = KGone)"
    using r by (cases "runner s"; cases "ttask s") (simp_all add: refs_inv_def)
  moreover have "(tstate s = TPending \<and> (runner s = RBody \<or> (\<exists>n. runner s = RCas n))) \<or> runner s = RResume \<or> ttask s = KResume"
    if "tcoro s = CSusp"
    using o that by (cases "tstate s = TPending") (auto simp: owed_inv_def debt_def split: if_splits)
  ultimately show ?thesis using r answer_cases [OF inv] by (auto simp: refs_inv_def)
qed

lemmas timeout_eval = timeout_step_def tosys_init_def resume_caller_def own_def timeout_ready_def await_all_def
  runner_ends_def timeout_resume_def state_dtor_def

definition timeout_demo :: "nat toact list" where
  "timeout_demo = [Await, TClock 9, Fire, Ends (OValue 4), Task, Run, Task, Value, Destroy, Task, Run]"

lemma timeout_demo_runs:
  "\<exists>s. run timeout_step timeout_demo (tosys_init 3 5 0) = Some s \<and> tanswer s = Some ATimeout \<and> shared s = 0 \<and>
     buf s = Some 4 \<and> state_dtor s = None"
  by (simp add: timeout_demo_def timeout_eval)

theorem timeout_correct_witness:
  "\<exists>s. run timeout_step timeout_demo (tosys_init 3 5 0) = Some s \<and> tanswer s = Some ATimeout \<and>
     timeout s \<le> tclock s \<and> tresumes s \<le> 1 \<and> tbad s = None"
proof -
  obtain s where s: "run timeout_step timeout_demo (tosys_init 3 5 0) = Some s" "tanswer s = Some ATimeout"
    using timeout_demo_runs by (elim exE conjE)
  have "\<forall>a \<in> set timeout_demo. calm a" by (simp add: timeout_demo_def)
  from timeout_correct [OF s(1) this] s(2) have "tbad s = None" "tresumes s \<le> 1" "timeout s \<le> tclock s" by auto
  with s show ?thesis by (intro exI [of _ s] conjI)
qed

section \<open>Where it goes wrong\<close>

text \<open>
  An operation that ends early. When the awaited operation ends while \<open>await_suspend\<close> has
  not yet added the timer task, as it does when it never suspends, the caller is resumed and the
  awaitable destroyed; \<open>await_suspend\<close> then adds the task with members of the destroyed awaitable.
\<close>

theorem timeout_early_end:
  "\<exists>s. run timeout_step [Ready, Suspend, Suspend, Ends (OValue (4::nat)), Run, Run, Value, Destroy, Suspend]
       (tosys_init 3 5 0) = Some s \<and> tanswer s = Some (AValue 4) \<and> tbad s = Some UseAfterFree"
  by (simp add: timeout_eval)

text \<open>
  A value that arrives after the deadline is constructed in the state's buffer and never
  destroyed: the state's destructor looks at the state, which says timeout.
\<close>

theorem timeout_value_leaks:
  "\<exists>s. run timeout_step timeout_demo (tosys_init 3 5 0) = Some s \<and> shared s = 0 \<and> buf s = Some 4 \<and> state_dtor s = None"
  by (simp add: timeout_demo_def timeout_eval)

text \<open>
  A deadline that has passed before the await: the runner, which no future owns, is never started,
  so that its frame and its share of the state stay for ever.
\<close>

theorem timeout_runner_leaks:
  "\<exists>s. run timeout_step [TClock 6, Await, Value, Destroy] (tosys_init 3 5 0 :: nat tosys) = Some s \<and>
     tanswer s = Some ATimeout \<and> runner s = RNew \<and> shared s = 1 \<and>
     (\<forall>a. (\<forall>t. a \<noteq> TClock t) \<longrightarrow> timeout_step a s = None)"
proof -
  have "toact_step a s = None" if "runner s = RNew" "ttask s = KNone" "tcoro s = CRes" "\<not> talive s" "tsus s = SIdle"
    "\<forall>t. a \<noteq> TClock t" for a and s :: "nat tosys"
    using that by (cases a) simp_all
  then show ?thesis by (simp add: timeout_eval)
qed

end
