(* ===== verification/Timeout_Future.thy ===== *)
theory Timeout_Future
  imports Timeout Future_Await
begin

text \<open>
  \<open>with_timeout_until\<close> and \<open>with_timeout_for\<close> of \<open>include/timer.hpp\<close>: the coroutine that awaits a
  \<open>TimeoutAwaitable\<close> and returns its answer through a \<open>Future\<close>. The machine of \<open>Timeout\<close> for the
  await inside, composed with the machine of \<open>Future_Await\<close> for the coroutine and its parent.
\<close>

section \<open>The machine\<close>

text \<open>
  \<open>return_type\<close> is \<open>bool\<close> for an operation without a result and \<open>std::optional\<close> otherwise: here
  \<open>None\<close> for a timeout, \<open>Some v\<close> for the result.
\<close>

record 'v tofut =
  tm :: "'v tosys"
  fu :: "'v option fsys"

text \<open>The coroutine starts at the call; \<open>h\<close> is its handle, \<open>p\<close> that of the parent.\<close>

definition with_timeout_until :: "handle \<Rightarrow> handle \<Rightarrow> int \<Rightarrow> int \<Rightarrow> 'v tofut" where
  "with_timeout_until h p atime now = \<lparr>tm = tosys_init h atime now, fu = fsys_init False p ByValue False\<rparr>"

definition with_timeout_for :: "handle \<Rightarrow> handle \<Rightarrow> int \<Rightarrow> int \<Rightarrow> 'v tofut" where
  "with_timeout_for h p dur now = with_timeout_until h p (now + dur) now"

text \<open>How the coroutine ends, by the answer of \<open>await_resume\<close>: no outcome for undefined behaviour.\<close>

fun answer_outcome :: "'v to_answer \<Rightarrow> 'v option outcome option" where
  "answer_outcome ATimeout = Some (OValue None)"
| "answer_outcome (AValue v) = Some (OValue (Some v))"
| "answer_outcome (AThrow e) = Some (OThrow e)"
| "answer_outcome (AFault f) = None"

text \<open>
  The await and everybody in it; the \<open>co_return\<close>, after \<open>await_resume\<close> has answered and the
  awaitable, a temporary, is gone; the child's end and the parent.
\<close>

datatype 'v tfact = InAwait "'v toact" | CoReturn | AtFuture "'v option fact"

fun is_finish :: "'v fact \<Rightarrow> bool" where
  "is_finish (Finish_body oc) = True" | "is_finish a = False"

fun tofut_step :: "'v tfact \<Rightarrow> 'v tofut \<Rightarrow> 'v tofut option" where
  "tofut_step (InAwait a) s =
     (if a = toact.Destroy \<and> tanswer (tm s) = None then None
      else map_option (\<lambda>t. s\<lparr>tm := t\<rparr>) (timeout_step a (tm s)))"
| "tofut_step CoReturn s =
     (if talive (tm s) then None else case tanswer (tm s) of
        None \<Rightarrow> None
      | Some a \<Rightarrow> (case answer_outcome a of
          None \<Rightarrow> None
        | Some oc \<Rightarrow> map_option (\<lambda>f. s\<lparr>fu := f\<rparr>) (fstep (Finish_body oc) (fu s))))"
| "tofut_step (AtFuture a) s = (if is_finish a then None else map_option (\<lambda>f. s\<lparr>fu := f\<rparr>) (fstep a (fu s)))"

fun tcalm :: "'v tfact \<Rightarrow> bool" where
  "tcalm (InAwait a) = Timeout.calm a" | "tcalm CoReturn = True" | "tcalm (AtFuture a) = Future_Await.calm a"

section \<open>The parts\<close>

text \<open>An answer, once given, stays, and the awaitable is destroyed only after it.\<close>

lemma timeout_step_answer:
  assumes "timeout_step a s = Some s'"
  shows "(tanswer s' = tanswer s \<or> tanswer s = None) \<and> (talive s' = talive s \<or> a = toact.Destroy)"
proof -
  have st: "toact_step a s = Some s'" using assms by (simp add: timeout_step_def split: if_splits)
  show ?thesis
  proof (cases a)
    case Suspend with st show ?thesis by (cases "tsus s") (auto simp: own_def split: if_splits)
  next
    case Run with st show ?thesis by (cases "runner s") (auto simp: resume_caller_def split: if_splits)
  next
    case Task with st show ?thesis by (cases "ttask s") (auto simp: resume_caller_def split: if_splits)
  qed (use st in \<open>auto simp: await_all_def timeout_ready_def runner_ends_def split: if_splits outcome.splits\<close>)
qed

text \<open>The kind of the promise does not change, and this kind does not terminate.\<close>

lemma finish_value: "pkind p = ByValue \<Longrightarrow> \<not> nothrow p \<Longrightarrow>
  \<exists>q. finish oc p = Inr q \<and> pkind q = ByValue \<and> \<not> nothrow q"
  by (cases oc) (simp_all add: finish_def return_value_def unhandled_exception_def)

lemma promise_get_nothrow: "nothrow (snd (promise_get p)) = nothrow p"
  by (auto simp: promise_get_def split: option.splits kind.splits stored.splits)

definition plain :: "'v fsys \<Rightarrow> bool" where
  "plain s \<longleftrightarrow> pkind (prom s) = ByValue \<and> \<not> nothrow (prom s)"

lemma fetch_plain:
  "plain (fetch_result s) = plain s" "fbad s = None \<Longrightarrow> frame_alive s \<Longrightarrow> fbad (fetch_result s) = None"
  "outc (fetch_result s) = outc s" "child (fetch_result s) = child s"
  using promise_get_facts [of "prom s"] promise_get_nothrow [of "prom s"]
  by (cases "promise_get (prom s)"; simp add: fetch_result_def touch_def plain_def)+

lemma child_plain:
  assumes "final_waiter (child s) s = Some s'" and "finv s" and "plain s" and "fbad s = None"
  shows "plain s' \<and> fbad s' = None \<and> outc s' = outc s \<and> child s' \<noteq> CBody"
proof -
  have pi: "parent_inv s" and al: "frame_alive s" using assms(2) by (simp_all add: finv_def)
  show ?thesis
  proof (cases "child s")
    case (CTransfer h)
    with pi have "parent s = PSuspended" "h = parent_handle s"
      by (auto simp: parent_inv_def split: parent_pc.splits)
    with assms CTransfer show ?thesis by (auto simp: plain_def)
  next
    case CRead2
    with pi have "caller (prom s) = Some (parent_handle s)" by (auto simp: parent_inv_def split: parent_pc.splits)
    with assms al CRead2 show ?thesis by (auto simp: plain_def touch_def)
  qed (use assms al in \<open>auto simp: plain_def touch_def split: if_splits\<close>)
qed

lemma fstep_plain:
  assumes st: "fstep a s = Some s'" and inv: "finv s" and pl: "plain s" and ok: "Future_Await.calm a"
  shows "plain s' \<and> fbad s' = None \<and> (is_finish a \<or> outc s' = outc s \<and> (child s' = CBody \<longleftrightarrow> child s = CBody))"
proof -
  have fb: "fbad s = None" and f: "fact_step a s = Some s'" using st by (simp_all add: fstep_def split: if_splits)
  have al: "frame_alive s" using inv by (simp add: finv_def)
  show ?thesis
  proof (cases a)
    case (Finish_body oc)
    with pl finish_value [of "prom s" oc] obtain q where "finish oc (prom s) = Inr q" "pkind q = ByValue" "\<not> nothrow q"
      by (auto simp: plain_def)
    with Finish_body f fb al show ?thesis by (auto simp: plain_def touch_def split: if_splits)
  next
    case Child_step
    with f have c: "final_waiter (child s) s = Some s'" by simp
    then have "child s \<noteq> CBody" by auto
    with child_plain [OF c inv pl fb] show ?thesis by simp
  next
    case Parent_get
    with f fb al pl fetch_plain [of s] show ?thesis by (auto split: if_splits)
  next
    case Owner_get
    with f fb al pl fetch_plain [of s] show ?thesis by (auto split: if_splits)
  qed (use f ok fb pl al in \<open>auto simp: plain_def touch_def await_suspend_def set_caller_def split: if_splits\<close>)
qed

section \<open>The invariant\<close>

definition tofut_inv :: "'v tofut \<Rightarrow> bool" where
  "tofut_inv s \<longleftrightarrow> timeout_inv (tm s) \<and> finv (fu s) \<and> plain (fu s) \<and> fbad (fu s) = None \<and>
     (\<not> talive (tm s) \<longrightarrow> tanswer (tm s) \<noteq> None) \<and>
     (child (fu s) \<noteq> CBody \<longrightarrow> (\<exists>a. tanswer (tm s) = Some a \<and> answer_outcome a = outc (fu s)))"

lemma tofut_inv_init: "tofut_inv (with_timeout_until h p atime now)"
proof -
  let ?f = "fsys_init False p ByValue False :: 'a option fsys" and ?t = "tosys_init h atime now :: 'a tosys"
  have "plain ?f" "fbad ?f = None" "child ?f = CBody" "talive ?t"
    by (simp_all add: plain_def fsys_init_def new_promise_def tosys_init_def)
  then show ?thesis using timeout_inv_init finv_init by (auto simp: tofut_inv_def with_timeout_until_def)
qed

lemma tofut_inv_step:
  assumes inv: "tofut_inv s" and ok: "tcalm a" and st: "tofut_step a s = Some s'"
  shows "tofut_inv s'"
proof (cases a)
  case (InAwait b)
  then obtain t where t: "timeout_step b (tm s) = Some t" "s' = s\<lparr>tm := t\<rparr>" "b \<noteq> toact.Destroy \<or> tanswer (tm s) \<noteq> None"
    using st by (auto split: if_splits)
  have "timeout_inv t" using inv ok InAwait t(1) timeout_inv_step [of "tm s" b t] by (simp add: tofut_inv_def)
  with timeout_step_answer [OF t(1)] t(2,3) inv show ?thesis by (auto simp: tofut_inv_def)
next
  case CoReturn
  then obtain b oc f where b: "tanswer (tm s) = Some b" "answer_outcome b = Some oc"
    "fstep (Finish_body oc) (fu s) = Some f" "s' = s\<lparr>fu := f\<rparr>"
    using st by (auto split: if_splits option.splits)
  have I: "finv (fu s)" "plain (fu s)" using inv by (simp_all add: tofut_inv_def)
  have "finv f" by (rule finv_step [OF I(1) _ b(3)]) simp
  moreover have "plain f \<and> fbad f = None" using fstep_plain [OF b(3) I] by simp
  moreover have "outc f = Some oc"
  proof -
    have al: "frame_alive (fu s)" using I(1) by (simp add: finv_def)
    obtain q where "finish oc (prom (fu s)) = Inr q" using finish_value I(2) by (auto simp: plain_def)
    with b(3) al show ?thesis by (auto simp: fstep_def touch_def split: if_splits)
  qed
  ultimately show ?thesis using inv b by (auto simp: tofut_inv_def)
next
  case (AtFuture b)
  then obtain f where f: "fstep b (fu s) = Some f" "s' = s\<lparr>fu := f\<rparr>" "\<not> is_finish b"
    using st by (auto split: if_splits)
  have I: "finv (fu s)" "plain (fu s)" and c: "Future_Await.calm b" using inv ok AtFuture by (simp_all add: tofut_inv_def)
  have "finv f" by (rule finv_step [OF I(1) c f(1)])
  with fstep_plain [OF f(1) I c] f(2,3) inv show ?thesis by (auto simp: tofut_inv_def)
qed

interpretation timeouts: machine_inv_on tofut_step tcalm "with_timeout_until h p atime now" tofut_inv for h p atime now
  by unfold_locales (auto intro: tofut_inv_init tofut_inv_step)


lemmas tofut_eval = with_timeout_until_def with_timeout_for_def timeout_eval future_eval

text \<open>An operation that ends at time 4 under a timeout of 5, awaited before it ends.\<close>

definition with_timeout_demo :: "nat tfact list" where
  "with_timeout_demo = [InAwait toact.Await, AtFuture fact.Await, InAwait (TClock 4), InAwait (Ends (OValue 7)),
     InAwait Run, InAwait Run, InAwait Value, InAwait toact.Destroy, CoReturn, AtFuture Child_step, AtFuture Child_step,
     AtFuture Child_step, AtFuture Child_step, AtFuture Parent_get]"

lemma with_timeout_run:
  "\<exists>s. run tofut_step with_timeout_demo (with_timeout_for 3 9 5 0) = Some s \<and> read (fu s) = Some (GValue (Some 7)) \<and>
     presumed (fu s) = 1"
  by (simp add: with_timeout_demo_def tofut_eval)


end
