(* ===== verification/Timer_Stop.thy ===== *)
theory Timer_Stop
  imports Timer
begin

text \<open>
  \<open>Timer::stop\<close> of \<open>include/timer.hpp\<close> call by call, and the destructor of \<open>TimerRunner\<close>. In \<open>Timer\<close> the
  whole of \<open>stop\<close> is one action, which is what it is when no cancel function comes back to the timer;
  here the cancel functions are called with the mutex held.
\<close>

section \<open>The loop of \<open>stop\<close>\<close>

text \<open>
  \<open>R c a\<close> tells whether the cancel function \<open>c\<close>, called with \<open>a\<close>, calls \<open>add_task\<close> or \<open>stop\<close> of this timer
  before it returns, as that of a cancelable sleep does when the coroutine it resumes sleeps again.
  \<open>std::mutex\<close> is not recursive: the thread then waits for itself. \<open>ks\<close> tells which of several earliest
  tasks is on top.
\<close>

datatype 'c stop_end =
    StopReturns "'c task list" "('c \<times> addr) list"
  | StopDeadlocks "'c task list" "('c \<times> addr) list" "'c task" "'c task list"

definition reenters :: "('c \<Rightarrow> addr \<Rightarrow> bool) \<Rightarrow> 'c task \<Rightarrow> bool" where
  "reenters R t = (case cancel_fn t of None \<Rightarrow> False | Some c \<Rightarrow> R c (arg t))"

fun stop_loop :: "('c \<Rightarrow> addr \<Rightarrow> bool) \<Rightarrow> nat list \<Rightarrow> 'c task list \<Rightarrow> 'c task list \<Rightarrow> ('c \<times> addr) list \<Rightarrow> 'c stop_end option" where
  "stop_loop R ks q popped log =
     (if q = [] then Some (StopReturns popped log)
      else case ks of [] \<Rightarrow> None
      | k # ks' \<Rightarrow>
          if k < length q \<and> task_top q k
          then let t = q ! k; log' = log @ (case cancel_fn t of None \<Rightarrow> [] | Some c \<Rightarrow> [(c, arg t)])
            in if reenters R t then Some (StopDeadlocks popped log' t (remove_nth k q))
               else stop_loop R ks' (remove_nth k q) (popped @ [t]) log'
          else None)"

declare stop_loop.simps [simp del]

definition timer_stop :: "('c \<Rightarrow> addr \<Rightarrow> bool) \<Rightarrow> nat list \<Rightarrow> 'c task wsys \<Rightarrow> 'c stop_end option" where
  "timer_stop R ks s = (if holds_mutex (worker s) then None else stop_loop R ks (tasks s) [] [])"

text \<open>\<open>~TimerRunner\<close>: \<open>stop\<close>, then \<open>join\<close>; \<open>as\<close> is what happens in between.\<close>

definition runner_dtor :: "('c \<Rightarrow> addr \<Rightarrow> bool) \<Rightarrow> nat list \<Rightarrow> 'c task wact list \<Rightarrow> 'c task wsys \<Rightarrow> 'c task wsys option" where
  "runner_dtor R ks as s = (case timer_stop R ks s of
     Some (StopReturns order log) \<Rightarrow> (case run timer_step as (stop_tasks order s) of Some t \<Rightarrow> join t | None \<Rightarrow> None)
   | _ \<Rightarrow> None)"

section \<open>What it does\<close>

lemma cancel_calls_snoc:
  "cancel_calls (ts @ [t]) = cancel_calls ts @ (case cancel_fn t of None \<Rightarrow> [] | Some c \<Rightarrow> [(c, arg t)])"
  by (simp add: cancel_calls_def)

lemma length_remove_nth: "k < length q \<Longrightarrow> length (remove_nth k q) = length q - 1"
  by (simp add: remove_nth_def)

lemma stop_loop_result:
  assumes "stop_loop R ks q popped log = Some r" and "log = cancel_calls popped"
    and "sorted (map execute_time popped)" and "\<forall>t \<in> set popped. \<forall>u \<in> set q. execute_time t \<le> execute_time u"
    and "\<forall>t \<in> set popped. \<not> reenters R t"
  shows "(\<exists>order. r = StopReturns order (cancel_calls order) \<and> mset order = mset popped + mset q \<and>
      sorted (map execute_time order) \<and> (\<forall>t \<in> set order. \<not> reenters R t)) \<or>
    (\<exists>order t rest. r = StopDeadlocks order (cancel_calls (order @ [t])) t rest \<and> reenters R t \<and>
      mset order + {#t#} + mset rest = mset popped + mset q \<and> sorted (map execute_time (order @ [t])) \<and>
      (\<forall>u \<in> set rest. execute_time t \<le> execute_time u) \<and> (\<forall>t \<in> set order. \<not> reenters R t))"
  using assms
proof (induction ks arbitrary: q popped log)
  case Nil
  then show ?case by (auto simp: stop_loop.simps split: if_splits)
next
  case (Cons k ks)
  show ?case
  proof (cases "q = []")
    case True
    with Cons.prems show ?thesis by (auto simp: stop_loop.simps)
  next
    case False
    with Cons.prems(1) have k: "k < length q" "task_top q k" by (auto simp: stop_loop.simps split: if_splits)
    define t where "t = q ! k"
    have q: "mset q = add_mset t (mset (remove_nth k q))" using mset_remove_nth [OF k(1)] by (simp add: t_def)
    have sub: "set (remove_nth k q) \<subseteq> set q" using q by (metis set_mset_mset set_mset_add_mset_insert subset_insertI)
    have t: "t \<in> set q" "\<forall>u \<in> set q. execute_time t \<le> execute_time u" using k by (simp_all add: t_def task_top_def)
    have s: "sorted (map execute_time (popped @ [t]))" using Cons.prems(3,4) t(1) by (simp add: sorted_append)
    let ?log = "cancel_calls (popped @ [t])"
    have e: "stop_loop R (k # ks) q popped log = (if reenters R t then Some (StopDeadlocks popped ?log t (remove_nth k q))
        else stop_loop R ks (remove_nth k q) (popped @ [t]) ?log)"
      using False k Cons.prems(2) by (simp add: stop_loop.simps [of _ "k # ks"] t_def cancel_calls_snoc Let_def)
    show ?thesis
    proof (cases "reenters R t")
      case True
      then have "r = StopDeadlocks popped ?log t (remove_nth k q)" using Cons.prems(1) e by simp
      moreover have "mset popped + {#t#} + mset (remove_nth k q) = mset popped + mset q" using q by simp
      moreover have "\<forall>u \<in> set (remove_nth k q). execute_time t \<le> execute_time u" using t(2) sub by blast
      ultimately show ?thesis using True s Cons.prems(5) by blast
    next
      case r: False
      then have l: "stop_loop R ks (remove_nth k q) (popped @ [t]) ?log = Some r" using Cons.prems(1) e by simp
      have le: "\<forall>x \<in> set (popped @ [t]). \<forall>u \<in> set (remove_nth k q). execute_time x \<le> execute_time u"
        using t(2) sub Cons.prems(4) by auto
      have nr: "\<forall>x \<in> set (popped @ [t]). \<not> reenters R x" using r Cons.prems(5) by simp
      from Cons.IH [OF l refl s le nr] have
        "(\<exists>order. r = StopReturns order (cancel_calls order) \<and> mset order = mset (popped @ [t]) + mset (remove_nth k q) \<and>
          sorted (map execute_time order) \<and> (\<forall>t \<in> set order. \<not> reenters R t)) \<or>
         (\<exists>order t' rest. r = StopDeadlocks order (cancel_calls (order @ [t'])) t' rest \<and> reenters R t' \<and>
          mset order + {#t'#} + mset rest = mset (popped @ [t]) + mset (remove_nth k q) \<and> sorted (map execute_time (order @ [t'])) \<and>
          (\<forall>u \<in> set rest. execute_time t' \<le> execute_time u) \<and> (\<forall>t \<in> set order. \<not> reenters R t))" .
      moreover have "mset (popped @ [t]) + mset (remove_nth k q) = mset popped + mset q" using q by simp
      ultimately show ?thesis by (simp only:)
    qed
  qed
qed

lemma stop_loop_total: "\<exists>ks r. length ks = length q \<and> stop_loop R ks q popped log = Some r"
proof (induction "length q" arbitrary: q popped log)
  case 0
  then show ?case by (intro exI [of _ "[]"]) (simp add: stop_loop.simps)
next
  case (Suc n)
  then have "q \<noteq> []" by auto
  from earliest_in [OF this] obtain k where k: "k < length q" "task_top q k" using task_top_earliest by blast
  have "length (remove_nth k q) = n" using Suc(2) k(1) by (simp add: length_remove_nth)
  with Suc(1) obtain ks r where "length ks = n"
    "stop_loop R ks (remove_nth k q) (popped @ [q ! k]) (log @ (case cancel_fn (q ! k) of None \<Rightarrow> [] | Some c \<Rightarrow> [(c, arg (q ! k))])) = Some r"
    by metis
  with k \<open>q \<noteq> []\<close> Suc(2) show ?case
    by (intro exI [of _ "k # ks"]) (auto simp: stop_loop.simps [of _ "k # ks"] Let_def)
qed

text \<open>
  C39. \<open>stop\<close> call by call is the single action of the timer's machine exactly when no cancel function of
  a pending task comes back to the timer. Then the functions were all called, in the order of the times,
  each once; the destructor of the runner returns within two steps of the worker unless the
  worker is inside a callback, when it hangs whatever the worker does. Otherwise the thread that
  calls \<open>stop\<close> waits for itself in the first such function and the destructor never returns; the later
  tasks are neither run nor cancelled.
\<close>

theorem timer_stop_refines:
  assumes "timer_stop R ks s = Some r"
  shows "(\<exists>order. r = StopReturns order (cancel_calls order) \<and> (\<forall>t \<in> set (tasks s). \<not> reenters R t) \<and>
      timer_step (Stop order) s = Some (stop_tasks order s) \<and>
      (\<not> in_task (worker s) \<longrightarrow> (\<exists>n \<le> 2. runner_dtor R ks (replicate n (Work 0)) s \<noteq> None)) \<and>
      (in_task (worker s) \<longrightarrow> (\<forall>as. (\<forall>a \<in> set as. \<exists>k. a = Work k \<or> a = Timeout \<or> a = Tick (int k)) \<longrightarrow> runner_dtor R ks as s = None))) \<or>
    (\<exists>order t rest. r = StopDeadlocks order (cancel_calls (order @ [t])) t rest \<and> reenters R t \<and>
      mset order + {#t#} + mset rest = mset (tasks s) \<and> (\<forall>u \<in> set rest. execute_time t \<le> execute_time u) \<and>
      (\<forall>as. runner_dtor R ks as s = None))"
proof -
  have h: "\<not> holds_mutex (worker s)" and l: "stop_loop R ks (tasks s) [] [] = Some r"
    using assms by (simp_all add: timer_stop_def split: if_splits)
  from stop_loop_result [OF l] consider
    (ret) order where "r = StopReturns order (cancel_calls order)" "mset order = mset (tasks s)"
      "sorted (map execute_time order)" "\<forall>t \<in> set order. \<not> reenters R t"
  | (dead) order t rest where "r = StopDeadlocks order (cancel_calls (order @ [t])) t rest" "reenters R t"
      "mset order + {#t#} + mset rest = mset (tasks s)" "\<forall>u \<in> set rest. execute_time t \<le> execute_time u"
    by (auto simp: cancel_calls_def)
  then show ?thesis
  proof cases
    case ret
    have st: "timer_step (Stop order) s = Some (stop_tasks order s)" using h ret(2,3) by (simp add: timer_step_def)
    have d: "runner_dtor R ks as s = (case run timer_step as (stop_tasks order s) of Some t \<Rightarrow> join t | None \<Rightarrow> None)" for as
      using assms ret(1) by (simp add: runner_dtor_def)
    have "\<exists>n \<le> 2. runner_dtor R ks (replicate n (Work 0)) s \<noteq> None" if "\<not> in_task (worker s)"
      using timer.stop_ends [OF st [unfolded timer_step_def] that] by (auto simp: d timer_step_def join_def)
    moreover have "runner_dtor R ks as s = None"
      if i: "in_task (worker s)" and a: "\<forall>a \<in> set as. \<exists>k. a = Work k \<or> a = Timeout \<or> a = Tick (int k)" for as
    proof (cases "run timer_step as (stop_tasks order s)")
      case (Some t)
      have "\<forall>a \<in> set as. a \<noteq> Spurious \<and> (\<forall>q. a \<noteq> Stop q) \<and> (\<forall>t. a = Add t \<longrightarrow> \<not> accepts timer_policy True)"
        using a by fastforce
      from timer.hung_never_joins [OF st [unfolded timer_step_def] i this] Some show ?thesis
        by (simp add: d timer_step_def)
    qed (simp add: d)
    moreover have "\<forall>t \<in> set (tasks s). \<not> reenters R t" using ret(2,4) by (metis set_mset_mset)
    ultimately show ?thesis using ret(1) st by blast
  next
    case dead
    have "runner_dtor R ks as s = None" for as using assms dead(1) by (simp add: runner_dtor_def)
    with dead show ?thesis by blast
  qed
qed

theorem timer_stop_refines_witness:
  "\<exists>s. run timer_step [Add (sleep_task 9), Add (sleep_task 4)] (wsys_init 0) = Some s \<and>
     timer_stop (\<lambda>c a. c = 2) [1] s = Some (StopDeadlocks [] [(2, 7)] (sleep_task 4) [sleep_task 9]) \<and>
     (\<forall>as. runner_dtor (\<lambda>c a. c = 2) [1] as s = None)"
proof -
  let ?R = "\<lambda>c a. c = (2 :: nat)"
  have "\<exists>s. run timer_step [Add (sleep_task 9), Add (sleep_task 4)] (wsys_init 0) = Some s \<and>
     timer_stop ?R [1] s = Some (StopDeadlocks [] [(2, 7)] (sleep_task 4) [sleep_task 9])"
    by (simp add: timer_eval sleep_task_def timer_stop_def stop_loop.simps reenters_def task_top_def Let_def)
  then obtain s where s: "run timer_step [Add (sleep_task 9), Add (sleep_task 4)] (wsys_init 0) = Some s"
     "timer_stop ?R [1] s = Some (StopDeadlocks [] [(2, 7)] (sleep_task 4) [sleep_task 9])" by (elim exE conjE)
  from timer_stop_refines [OF s(2)] s show ?thesis by (intro exI [of _ s]) auto
qed

end
