(* ===== verification/Io_Service.thy ===== *)
theory Io_Service
  imports Prelude
begin

text \<open>
  \<open>include/io/service.hpp\<close> and \<open>include/io/sqe_awaitable.hpp\<close>: submission entries and their
  awaitables, the resolvers, and the event loop with its bookkeeping of the completion ring. The
  ring is liburing's: what \<open>io_uring_get_sqe\<close> answers and which completions arrive are inputs.
\<close>

section \<open>Submission entries\<close>

datatype sqe_op = NoOp | Nop | Read int addr u32 int | Write int addr u32 int

record sqe =
  operation :: sqe_op
  iflags :: "8 word"
  user_data :: "addr option"

datatype io_error = NoMem

datatype resolver =
    ResumeResolver handle int
  | DeferredResolver "int option"
  | CallbackResolver nat

text \<open>
  \<open>khead\<close> is the ring's count of completion entries given back to the kernel; \<open>submits\<close> counts
  calls of \<open>io_uring_submit\<close>. \<open>resolvers\<close> are the live resolver objects; \<open>resumed\<close> and \<open>called\<close>
  log what \<open>resolve\<close> did.
\<close>

record service =
  khead :: u32
  m_cqe_count :: u32
  submits :: nat
  resolvers :: "addr \<Rightarrow> resolver option"
  resumed :: "(handle \<times> int) list"
  called :: "(nat \<times> int) list"

definition cq_advance :: "u32 \<Rightarrow> service \<Rightarrow> service" where
  "cq_advance n s = s\<lparr>khead := khead s + n\<rparr>"

definition ring_submit :: "service \<Rightarrow> service" where
  "ring_submit s = s\<lparr>submits := submits s + 1\<rparr>"

text \<open>The arguments are the answers of the first and, if it comes to it, the second \<open>io_uring_get_sqe\<close>.\<close>

definition io_uring_get_sqe_safe :: "sqe option \<Rightarrow> sqe option \<Rightarrow> service \<Rightarrow> (io_error + sqe) \<times> service" where
  "io_uring_get_sqe_safe first second s = (case first of
     Some q \<Rightarrow> (Inr q, s)
   | None \<Rightarrow> (let s' = ring_submit ((cq_advance (m_cqe_count s) s)\<lparr>m_cqe_count := 0\<rparr>)
             in case second of Some q \<Rightarrow> (Inr q, s') | None \<Rightarrow> (Inl NoMem, s')))"

definition await_work :: "sqe \<Rightarrow> 8 word \<Rightarrow> sqe" where
  "await_work q fl = q\<lparr>iflags := fl\<rparr>"

text \<open>\<open>nop\<close>, \<open>read\<close> and \<open>write\<close>: get an entry, prepare it, set the flags.\<close>

definition prep :: "sqe_op \<Rightarrow> 8 word \<Rightarrow> sqe option \<Rightarrow> sqe option \<Rightarrow> service \<Rightarrow> (io_error + sqe) \<times> service" where
  "prep oper fl first second s = (case io_uring_get_sqe_safe first second s of
     (Inl e, s') \<Rightarrow> (Inl e, s')
   | (Inr q, s') \<Rightarrow> (Inr (await_work (q\<lparr>operation := oper\<rparr>) fl), s'))"

definition sq_nop :: "8 word \<Rightarrow> sqe option \<Rightarrow> sqe option \<Rightarrow> service \<Rightarrow> (io_error + sqe) \<times> service" where
  "sq_nop fl = prep Nop fl"

definition sq_read :: "int \<Rightarrow> addr \<Rightarrow> u32 \<Rightarrow> int \<Rightarrow> 8 word \<Rightarrow> sqe option \<Rightarrow> sqe option \<Rightarrow> service \<Rightarrow> (io_error + sqe) \<times> service" where
  "sq_read fd buf nbytes off fl = prep (Read fd buf nbytes off) fl"

definition sq_write :: "int \<Rightarrow> addr \<Rightarrow> u32 \<Rightarrow> int \<Rightarrow> 8 word \<Rightarrow> sqe option \<Rightarrow> sqe option \<Rightarrow> service \<Rightarrow> (io_error + sqe) \<times> service" where
  "sq_write fd buf nbytes off fl = prep (Write fd buf nbytes off) fl"

text \<open>
  Getting a submission entry. With a free entry the service only prepares it. With a full
  ring it gives the completions processed so far back to the kernel, clears their count,
  submits once and tries again; it throws only when the ring is still full after that. The
  entry it returns carries the operation and exactly the flags asked for.
\<close>

theorem get_sqe_safe_behaviour:
  "prep oper fl (Some q) second s = (Inr (q\<lparr>operation := oper, iflags := fl\<rparr>), s) \<and>
   (let (r, s') = prep oper fl None second s
    in khead s' = khead s + m_cqe_count s \<and> m_cqe_count s' = 0 \<and> submits s' = submits s + 1 \<and>
       resolvers s' = resolvers s \<and> resumed s' = resumed s \<and> called s' = called s \<and>
       r = (case second of None \<Rightarrow> Inl NoMem | Some p \<Rightarrow> Inr (p\<lparr>operation := oper, iflags := fl\<rparr>)))"
  by (cases second)
     (simp_all add: prep_def io_uring_get_sqe_safe_def await_work_def cq_advance_def ring_submit_def Let_def)

section \<open>Resolvers and awaitables\<close>

definition new_resolver :: "addr \<Rightarrow> resolver \<Rightarrow> service \<Rightarrow> service" where
  "new_resolver p r s = s\<lparr>resolvers := (resolvers s)(p \<mapsto> r)\<rparr>"

definition set_deferred :: "addr \<Rightarrow> sqe \<Rightarrow> sqe" where
  "set_deferred p q = q\<lparr>user_data := Some p\<rparr>"

definition set_callback :: "nat \<Rightarrow> addr \<Rightarrow> sqe \<Rightarrow> service \<Rightarrow> sqe \<times> service" where
  "set_callback cb p q s = (q\<lparr>user_data := Some p\<rparr>, new_resolver p (CallbackResolver cb) s)"

text \<open>
  \<open>co_await\<close> of an entry: the awaiting frame holds the resolver at \<open>p\<close>, its result 0 until the
  completion arrives; it is never ready.
\<close>

definition sqe_await_suspend :: "handle \<Rightarrow> addr \<Rightarrow> sqe \<Rightarrow> service \<Rightarrow> sqe \<times> service" where
  "sqe_await_suspend h p q s = (q\<lparr>user_data := Some p\<rparr>, ring_submit (new_resolver p (ResumeResolver h 0) s))"

definition sqe_await_resume :: "addr \<Rightarrow> service \<Rightarrow> fault + int" where
  "sqe_await_resume p s = (case resolvers s p of Some (ResumeResolver h r) \<Rightarrow> Inr r | _ \<Rightarrow> Inl UseAfterFree)"

text \<open>The virtual call \<open>resolve\<close>; a callback resolver deletes itself.\<close>

definition resolve :: "addr \<Rightarrow> int \<Rightarrow> service \<Rightarrow> fault + service" where
  "resolve p res s = (case resolvers s p of
     None \<Rightarrow> Inl UseAfterFree
   | Some (ResumeResolver h r) \<Rightarrow> Inr ((new_resolver p (ResumeResolver h res) s)\<lparr>resumed := resumed s @ [(h, res)]\<rparr>)
   | Some (DeferredResolver r) \<Rightarrow> Inr (new_resolver p (DeferredResolver (Some res)) s)
   | Some (CallbackResolver cb) \<Rightarrow>
       Inr (s\<lparr>called := called s @ [(cb, res)], resolvers := (resolvers s)(p := None)\<rparr>))"

section \<open>The event loop\<close>

text \<open>
  What a coroutine that was resumed, or a callback, does with the service before it gives
  control back: it asks for entries, awaits them, and the frame of a resolver ends.
\<close>

datatype client =
    GetSqe "sqe option" "sqe option"
  | AwaitSqe handle addr sqe
  | SetCallback nat addr sqe
  | EndFrame addr

definition client_step :: "client \<Rightarrow> service \<Rightarrow> service" where
  "client_step c s = (case c of
     GetSqe first second \<Rightarrow> snd (io_uring_get_sqe_safe first second s)
   | AwaitSqe h p q \<Rightarrow> snd (sqe_await_suspend h p q s)
   | SetCallback cb p q \<Rightarrow> snd (set_callback cb p q s)
   | EndFrame p \<Rightarrow> s\<lparr>resolvers := (resolvers s)(p := None)\<rparr>)"

type_synonym cqe = "addr option \<times> int \<times> client list"

text \<open>One iteration, with the completion entry and what its resolution leads to.\<close>

definition for_cqe :: "cqe \<Rightarrow> service \<Rightarrow> fault + service" where
  "for_cqe c s = (case c of (data, res, acts) \<Rightarrow>
     (let s1 = s\<lparr>m_cqe_count := m_cqe_count s + 1\<rparr>
      in case data of
           None \<Rightarrow> Inr s1
         | Some p \<Rightarrow> bindE (resolve p res s1) (\<lambda>s2. Inr (fold client_step acts s2))))"

fun for_each_cqe :: "cqe list \<Rightarrow> service \<Rightarrow> fault + service" where
  "for_each_cqe [] s = Inr s"
| "for_each_cqe (c # cs) s = bindE (for_cqe c s) (for_each_cqe cs)"

text \<open>
  \<open>run\<close>: rounds of submitting, waiting for completions and processing those found, until the
  future is done. Each round gives, beside its completions, whether the future is done before it;
  \<open>None\<close> is a loop that has not ended within the rounds. The function has no \<open>return\<close>, so that
  ending it with a result type other than \<open>void\<close> is undefined.
\<close>

definition run_round :: "cqe list \<Rightarrow> service \<Rightarrow> fault + service" where
  "run_round cs s = bindE (for_each_cqe cs (ring_submit s))
     (\<lambda>t. Inr ((cq_advance (m_cqe_count t) t)\<lparr>m_cqe_count := 0\<rparr>))"

fun run_service :: "bool \<Rightarrow> (bool \<times> cqe list) list \<Rightarrow> service \<Rightarrow> (fault + service) option" where
  "run_service is_void [] s = None"
| "run_service is_void ((is_done, cs) # rounds) s =
     (if is_done then Some (if is_void then Inr s else Inl Unreachable)
      else case run_round cs s of Inl e \<Rightarrow> Some (Inl e) | Inr t \<Rightarrow> run_service is_void rounds t)"

text \<open>
  What the loop maintains: of the \<open>n\<close> entries processed since \<open>s0\<close> some were given back to the
  kernel and the others are counted.
\<close>

definition accounted :: "service \<Rightarrow> nat \<Rightarrow> service \<Rightarrow> bool" where
  "accounted s0 n s \<longleftrightarrow> (\<exists>k \<le> n. khead s = khead s0 + of_nat k \<and> m_cqe_count s = of_nat (n - k))"

lemma accounted_client: "accounted s0 n s \<Longrightarrow> accounted s0 n (client_step c s)"
proof (cases c)
  case (GetSqe first second)
  assume a: "accounted s0 n s"
  then obtain k where k: "k \<le> n" "khead s = khead s0 + of_nat k" "m_cqe_count s = of_nat (n - k)"
    by (auto simp: accounted_def)
  then have "khead s + m_cqe_count s = khead s0 + of_nat n" by (simp add: of_nat_diff)
  with a GetSqe show ?thesis
    by (cases first; cases second)
      (auto simp: client_step_def io_uring_get_sqe_safe_def cq_advance_def ring_submit_def accounted_def Let_def
        intro: exI [of _ n])
qed (simp_all add: accounted_def client_step_def sqe_await_suspend_def set_callback_def new_resolver_def ring_submit_def)

lemma accounted_clients: "accounted s0 n s \<Longrightarrow> accounted s0 n (fold client_step acts s)"
  by (induction acts arbitrary: s) (simp_all add: accounted_client)

lemma accounted_resolve: "resolve p res s = Inr t \<Longrightarrow> accounted s0 n t = accounted s0 n s"
  by (auto simp: resolve_def accounted_def new_resolver_def split: option.splits resolver.splits)

lemma accounted_count: "accounted s0 n s \<Longrightarrow> accounted s0 (Suc n) (s\<lparr>m_cqe_count := m_cqe_count s + 1\<rparr>)"
proof -
  assume "accounted s0 n s"
  then obtain k where "k \<le> n" "khead s = khead s0 + of_nat k" "m_cqe_count s = of_nat (n - k)"
    by (auto simp: accounted_def)
  then show ?thesis unfolding accounted_def by (intro exI [of _ k]) (simp add: Suc_diff_le)
qed

lemma accounted_for_cqe: "accounted s0 n s \<Longrightarrow> for_cqe c s = Inr t \<Longrightarrow> accounted s0 (Suc n) t"
  by (cases c) (auto simp: for_cqe_def Let_def accounted_count accounted_resolve intro!: accounted_clients split: option.splits)

lemma accounted_for_each:
  "accounted s0 n s \<Longrightarrow> for_each_cqe cs s = Inr t \<Longrightarrow> accounted s0 (n + length cs) t"
proof (induction cs arbitrary: n s)
  case (Cons c cs)
  from Cons.prems(2) obtain u where "for_cqe c s = Inr u" "for_each_cqe cs u = Inr t" by auto
  with Cons.IH [of "Suc n" u] accounted_for_cqe [OF Cons.prems(1)] show ?case by simp
qed simp

text \<open>
  C31. Completion entries are given back to the kernel exactly once and not before they have
  been taken. At every point of a round, also when a resumed coroutine finds the submission
  ring full and gives entries back from inside the loop, those given back are a prefix of those
  taken so far and the count is the rest; at the end of the round all are given back and the
  count is zero again.
\<close>

theorem completions_released_once:
  assumes "m_cqe_count s = 0"
  shows "(for_each_cqe cs (ring_submit s) = Inr u \<longrightarrow>
      (\<exists>k \<le> length cs. khead u = khead s + of_nat k \<and> m_cqe_count u = of_nat (length cs - k))) \<and>
    (run_round cs s = Inr t \<longrightarrow> khead t = khead s + of_nat (length cs) \<and> m_cqe_count t = 0)"
proof -
  have a: "accounted s 0 (ring_submit s)" using assms by (simp add: accounted_def ring_submit_def)
  have "accounted s (length cs) u" if "for_each_cqe cs (ring_submit s) = Inr u" for u
    using accounted_for_each [OF a that] by simp
  moreover from this have "khead u + m_cqe_count u = khead s + of_nat (length cs)"
    if "for_each_cqe cs (ring_submit s) = Inr u" for u
    using that by (fastforce simp: accounted_def of_nat_diff)
  ultimately show ?thesis by (auto simp: accounted_def run_round_def cq_advance_def)
qed

section \<open>Delivery\<close>

fun touched :: "client \<Rightarrow> addr option" where
  "touched (AwaitSqe h p q) = Some p"
| "touched (SetCallback cb p q) = Some p"
| "touched (EndFrame p) = Some p"
| "touched (GetSqe first second) = None"

text \<open>
  A well-behaved batch: its completions belong to different resolvers, and nobody reuses or ends
  the resolver of an operation whose completion is still to be processed.
\<close>

fun tidy :: "cqe list \<Rightarrow> bool" where
  "tidy [] = True"
| "tidy ((data, res, acts) # cs) = ((data = None \<or> data \<notin> fst ` set cs) \<and>
     (\<forall>a \<in> set acts. touched a = None \<or> touched a \<notin> fst ` set cs) \<and> tidy cs)"

fun resumptions :: "(addr \<Rightarrow> resolver option) \<Rightarrow> cqe \<Rightarrow> (handle \<times> int) list" where
  "resumptions R (None, res, acts) = []"
| "resumptions R (Some p, res, acts) = (case R p of Some (ResumeResolver h r) \<Rightarrow> [(h, res)] | _ \<Rightarrow> [])"

fun calls :: "(addr \<Rightarrow> resolver option) \<Rightarrow> cqe \<Rightarrow> (nat \<times> int) list" where
  "calls R (None, res, acts) = []"
| "calls R (Some p, res, acts) = (case R p of Some (CallbackResolver cb) \<Rightarrow> [(cb, res)] | _ \<Rightarrow> [])"

lemma client_frame [simp]:
  "resumed (client_step a s) = resumed s" "called (client_step a s) = called s"
  "touched a \<noteq> Some p \<Longrightarrow> resolvers (client_step a s) p = resolvers s p"
  by (cases a; simp add: client_step_def io_uring_get_sqe_safe_def cq_advance_def ring_submit_def
     sqe_await_suspend_def set_callback_def new_resolver_def Let_def split: option.splits)+

lemma clients_frame:
  "resumed (fold client_step acts s) = resumed s" "called (fold client_step acts s) = called s"
  "\<forall>a \<in> set acts. touched a \<noteq> Some p \<Longrightarrow> resolvers (fold client_step acts s) p = resolvers s p"
  by (induction acts arbitrary: s) auto

lemma resolve_frame:
  assumes "resolve p res s = Inr t"
  shows "resumed t = resumed s @ resumptions (resolvers s) (Some p, res, acts)"
    and "called t = called s @ calls (resolvers s) (Some p, res, acts)"
    and "q \<noteq> p \<Longrightarrow> resolvers t q = resolvers s q"
  using assms by (auto simp: resolve_def new_resolver_def split: option.splits resolver.splits)

lemma resolve_returns: "resolvers s p \<noteq> None \<Longrightarrow> \<exists>t. resolve p res s = Inr t"
  by (auto simp: resolve_def split: resolver.splits)

lemma for_cqe_delivers:
  assumes "\<forall>p. data = Some p \<longrightarrow> resolvers s p \<noteq> None"
  shows "\<exists>t. for_cqe (data, res, acts) s = Inr t \<and>
    resumed t = resumed s @ resumptions (resolvers s) (data, res, acts) \<and>
    called t = called s @ calls (resolvers s) (data, res, acts) \<and>
    (\<forall>q. data \<noteq> Some q \<and> (\<forall>a \<in> set acts. touched a \<noteq> Some q) \<longrightarrow> resolvers t q = resolvers s q)"
proof (cases data)
  case None
  then show ?thesis by (simp add: for_cqe_def Let_def)
next
  case (Some p)
  let ?s = "s\<lparr>m_cqe_count := m_cqe_count s + 1\<rparr>"
  obtain u where u: "resolve p res ?s = Inr u" using resolve_returns [of ?s p res] assms Some by auto
  then have "for_cqe (data, res, acts) s = Inr (fold client_step acts u)" using Some by (simp add: for_cqe_def Let_def)
  with resolve_frame(1,2) [OF u, where acts = acts] resolve_frame(3) [OF u] show ?thesis
    using Some by (auto simp: clients_frame)
qed

lemma delivery:
  "tidy cs \<Longrightarrow> \<forall>p. Some p \<in> fst ` set cs \<longrightarrow> resolvers s p \<noteq> None \<Longrightarrow>
   \<exists>t. for_each_cqe cs s = Inr t \<and> resumed t = resumed s @ concat (map (resumptions (resolvers s)) cs) \<and>
     called t = called s @ concat (map (calls (resolvers s)) cs)"
proof (induction cs arbitrary: s)
  case (Cons c cs)
  obtain data res acts where c: "c = (data, res, acts)" by (cases c)
  have "\<forall>p. data = Some p \<longrightarrow> resolvers s p \<noteq> None" using Cons.prems(2) c by auto
  from for_cqe_delivers [OF this] obtain u where u: "for_cqe c s = Inr u"
    "resumed u = resumed s @ resumptions (resolvers s) c" "called u = called s @ calls (resolvers s) c"
    "\<forall>q. data \<noteq> Some q \<and> (\<forall>a \<in> set acts. touched a \<noteq> Some q) \<longrightarrow> resolvers u q = resolvers s q"
    unfolding c by blast
  have same: "resolvers u p = resolvers s p" if "Some p \<in> fst ` set cs" for p
  proof -
    have "data = None \<or> data \<notin> fst ` set cs"
      and "\<forall>a \<in> set acts. touched a = None \<or> touched a \<notin> fst ` set cs" using Cons.prems(1) c by simp_all
    with that have "data \<noteq> Some p" "\<forall>a \<in> set acts. touched a \<noteq> Some p"
      by (metis option.distinct(1), metis option.distinct(1))
    with u(4) show ?thesis by blast
  qed
  have "resumptions (resolvers u) d = resumptions (resolvers s) d \<and> calls (resolvers u) d = calls (resolvers s) d"
    if "d \<in> set cs" for d
  proof (cases "fst d")
    case None
    then show ?thesis by (cases d) simp
  next
    case (Some p)
    with that have "Some p \<in> fst ` set cs" by force
    with Some same show ?thesis by (cases d) simp
  qed
  then have eqs: "map (resumptions (resolvers u)) cs = map (resumptions (resolvers s)) cs"
    "map (calls (resolvers u)) cs = map (calls (resolvers s)) cs" by simp_all
  have "tidy cs" "\<forall>p. Some p \<in> fst ` set cs \<longrightarrow> resolvers u p \<noteq> None"
    using Cons.prems c same by auto
  from Cons.IH [OF this] u eqs show ?case by auto
qed simp


definition io_demo :: service where
  "io_demo = \<lparr>khead = 0, m_cqe_count = 0, submits = 0,
     resolvers = [1 \<mapsto> ResumeResolver 10 0, 2 \<mapsto> CallbackResolver 20], resumed = [], called = []\<rparr>"

definition io_batch :: "cqe list" where
  "io_batch = [(Some 1, 5, [EndFrame 1, GetSqe None None]), (None, 0, []), (Some 2, -11, [])]"


theorem completions_released_once_witness:
  "\<exists>t. run_round io_batch io_demo = Inr t \<and> khead t = 3 \<and> m_cqe_count t = 0"
proof -
  have c: "m_cqe_count io_demo = 0" by (simp add: io_demo_def)
  obtain t where t: "run_round io_batch io_demo = Inr t"
    by (simp add: io_batch_def io_demo_def run_round_def for_cqe_def resolve_def client_step_def Let_def
      new_resolver_def ring_submit_def io_uring_get_sqe_safe_def cq_advance_def)
  from completions_released_once [OF c, THEN conjunct2, rule_format, OF t] t show ?thesis
    by (simp add: io_batch_def io_demo_def)
qed

end
