(* ===== verification/Time_Wheel.thy ===== *)
theory Time_Wheel
  imports Prelude
begin

text \<open>
  \<open>include/timer/wheel.hpp\<close>: the data of the hierarchical timing wheel. Its operations have empty
  bodies in the source: \<open>step\<close> does nothing, and \<open>add_task\<close> ends without the value it declares, which
  is undefined behaviour.
\<close>

datatype wheel_task_state = WtPending | WtCanceled | WtConsumed

record wheel_task =
  wt_execute_time :: u64
  wt_arg :: "addr option"
  wt_callback :: nat
  wt_cancel :: "nat option"
  wt_state :: wheel_task_state

text \<open>
  A wheel is an array of \<open>N\<close> slots over a finer wheel; the finest has the pointer. The slots of the upper
  levels hold shared tasks.
\<close>

datatype time_wheel = FinestWheel u64 "wheel_task list list" | UpperWheel time_wheel "addr list list"

fun wheel_dur :: "time_wheel \<Rightarrow> u64" where
  "wheel_dur (FinestWheel p ts) = of_nat (length ts)"
| "wheel_dur (UpperWheel w ts) = of_nat (length ts) * wheel_dur w"

definition wheel_add_task :: "u64 \<Rightarrow> nat \<Rightarrow> addr option \<Rightarrow> nat option \<Rightarrow> time_wheel \<Rightarrow> fault + u64 \<times> time_wheel" where
  "wheel_add_task execute_time cb arg cancel w = Inl Unreachable"

definition wheel_step :: "time_wheel \<Rightarrow> time_wheel" where
  "wheel_step w = w"

fun wheel_sizes :: "time_wheel \<Rightarrow> nat list" where
  "wheel_sizes (FinestWheel p ts) = [length ts]"
| "wheel_sizes (UpperWheel w ts) = length ts # wheel_sizes w"

text \<open>
  The span of a wheel is the product of the sizes of its levels, exactly as long as that is below
  \<open>2 ^ 64\<close>; a size that is not zero can still give the span zero.
\<close>

lemma wheel_dur_product: "unat (wheel_dur w) = prod_list (wheel_sizes w) mod 2 ^ 64"
proof (induction w)
  case (UpperWheel w ts)
  then show ?case by (simp add: unat_mult_lem unat_word_ariths unat_of_nat mod_mult_left_eq mod_mult_right_eq mod_mult_eq)
qed (simp add: unat_of_nat)

end
