(* ===== verification/Queue_Test.thy ===== *)
theory Queue_Test
  imports Queue_Steps
begin

text \<open>
  \<open>test/test_atomic_queue.cpp\<close>, the stress test of the queue, composed with the machine of
  \<open>Queue_Concurrent\<close>: producers that each enqueue all pairs of their own number, the last of
  which stops the queue, and a consumer that marks what it receives until the queue answers
  nothing. \<open>N_THREAD\<close> and \<open>N_LOOP\<close> are the arguments \<open>n\<close> and \<open>l\<close>.
\<close>

section \<open>The test\<close>

text \<open>
  A producer is at the head of its loop, inside \<open>enqueue\<close>, at the \<open>fetch_sub\<close>, at the call of
  \<open>stop\<close>, has ended, or has returned early because \<open>enqueue\<close> answered false. The consumer is
  at the head of its loop, inside \<open>wait_dequeue\<close>, or has returned.
\<close>

datatype tpc = TLoop nat | TIn nat | TDec | TStop | TDone | TReturned

datatype rpc = RLoop | RIn | REnd

record qtest =
  tq :: "(nat \<times> nat) qsys"
  tpcs :: "nat \<Rightarrow> tpc"
  producers :: int
  rpc :: rpc
  arr :: "nat \<Rightarrow> nat \<Rightarrow> bool"

definition qtest_init :: "nat \<Rightarrow> addr \<Rightarrow> qtest" where
  "qtest_init n stub = \<lparr>tq = qsys_init stub, tpcs = (\<lambda>i. if i < n then TLoop 0 else TDone),
     producers = int n, rpc = RLoop, arr = (\<lambda>x y. False)\<rparr>"

datatype tact =
    TCall nat "addr option" | TLoopEnd nat | TEnq nat bool | TRet nat | TFetchSub nat | TStopCall nat
  | RCall | RStep | RRet

definition set_tpc :: "nat \<Rightarrow> tpc \<Rightarrow> qtest \<Rightarrow> qtest" where
  "set_tpc i pc s = s\<lparr>tpcs := (tpcs s)(i := pc)\<rparr>"

text \<open>An action of the queue's machine inside the test.\<close>

definition via_queue :: "(nat \<times> nat) qact \<Rightarrow> qtest \<Rightarrow> qtest option" where
  "via_queue a s = (case qstep a (tq s) of None \<Rightarrow> None | Some q \<Rightarrow> Some (s\<lparr>tq := q\<rparr>))"

definition producer_step :: "nat \<Rightarrow> tact \<Rightarrow> nat \<Rightarrow> qtest \<Rightarrow> qtest option" where
  "producer_step l a i s = (case (a, tpcs s i) of
     (TCall _ alloc, TLoop j) \<Rightarrow>
       if j < l then map_option (set_tpc i (TIn j)) (via_queue (PCall i (i, j) alloc) s) else None
   | (TLoopEnd _, TLoop j) \<Rightarrow> if j < l then None else Some (set_tpc i TDec s)
   | (TEnq _ spurious, TIn j) \<Rightarrow> via_queue (PStep i spurious) s
   | (TRet _, TIn j) \<Rightarrow> (case prods (tq s) i of
        PRet b \<Rightarrow> Some (set_tpc i (if b then TLoop (j + 1) else TReturned) s)
      | _ \<Rightarrow> None)
   | (TFetchSub _, TDec) \<Rightarrow>
       Some ((set_tpc i (if producers s = 1 then TStop else TDone) s)\<lparr>producers := producers s - 1\<rparr>)
   | (TStopCall _, TStop) \<Rightarrow> map_option (set_tpc i TDone) (via_queue Stop s)
   | _ \<Rightarrow> None)"

definition reader_step :: "tact \<Rightarrow> qtest \<Rightarrow> qtest option" where
  "reader_step a s = (case (a, rpc s) of
     (RCall, RLoop) \<Rightarrow> map_option (\<lambda>t. t\<lparr>rpc := RIn\<rparr>) (via_queue (CWait 0) s)
   | (RStep, RIn) \<Rightarrow> via_queue (CStep 0) s
   | (RRet, RIn) \<Rightarrow> (case conss (tq s) 0 of
        CRet None \<Rightarrow> Some (s\<lparr>rpc := REnd\<rparr>)
      | CRet (Some (x, y)) \<Rightarrow> Some (s\<lparr>rpc := RLoop, arr := (arr s)(x := (arr s x)(y := True))\<rparr>)
      | _ \<Rightarrow> None)
   | _ \<Rightarrow> None)"

fun tact_thread :: "tact \<Rightarrow> nat option" where
  "tact_thread (TCall i alloc) = Some i" | "tact_thread (TLoopEnd i) = Some i"
| "tact_thread (TEnq i sp) = Some i" | "tact_thread (TRet i) = Some i"
| "tact_thread (TFetchSub i) = Some i" | "tact_thread (TStopCall i) = Some i"
| "tact_thread a = None"

definition qtest_step :: "nat \<Rightarrow> nat \<Rightarrow> tact \<Rightarrow> qtest \<Rightarrow> qtest option" where
  "qtest_step n l a s = (case tact_thread a of
     Some i \<Rightarrow> if i < n then producer_step l a i s else None
   | None \<Rightarrow> reader_step a s)"

text \<open>All threads have been joined.\<close>

definition joined :: "nat \<Rightarrow> qtest \<Rightarrow> bool" where
  "joined n s \<longleftrightarrow> (\<forall>i < n. tpcs s i = TDone \<or> tpcs s i = TReturned) \<and> rpc s = REnd"

text \<open>\<open>Test::count\<close>, the objects alive: between calls, those in the nodes of the queue.\<close>

definition live_count :: "'a queue \<Rightarrow> nat" where
  "live_count q = card {a. vl (mem q) a \<noteq> None}"

text \<open>The final loop of assertions.\<close>

definition asserts_hold :: "nat \<Rightarrow> nat \<Rightarrow> qtest \<Rightarrow> bool" where
  "asserts_hold n l s \<longleftrightarrow> (\<forall>i < n. \<forall>j < l. arr s i j)"

section \<open>The invariant of the test\<close>

fun active :: "tpc \<Rightarrow> bool" where
  "active (TLoop j) = True" | "active (TIn j) = True" | "active TDec = True" | "active pc = False"

text \<open>Where a producer is determines which of its pairs were sent, and in which order.\<close>

fun thread_ok :: "nat \<Rightarrow> nat \<Rightarrow> tpc \<Rightarrow> (nat \<times> nat) ppc \<Rightarrow> (nat \<times> nat) list \<Rightarrow> bool" where
  "thread_ok l i (TLoop j) p snt = (j \<le> l \<and> p_idle p \<and> snt = map (Pair i) [0..<j])"
| "thread_ok l i (TIn j) p snt =
     (j < l \<and> carries (i, j) p \<and> snt = map (Pair i) [0..<(if has_sent p then Suc j else j)])"
| "thread_ok l i TReturned p snt = False"
| "thread_ok l i pc p snt = (p_idle p \<and> snt = map (Pair i) [0..<l])"

definition in_flight :: "rpc \<Rightarrow> (nat \<times> nat) cpc \<Rightarrow> (nat \<times> nat) set" where
  "in_flight r pc = (case (r, pc) of (RIn, CRet (Some v)) \<Rightarrow> {v} | _ \<Rightarrow> {})"

definition reader_inv :: "qtest \<Rightarrow> bool" where
  "reader_inv s \<longleftrightarrow> (\<forall>c. c \<noteq> 0 \<longrightarrow> conss (tq s) c = CIdle) \<and> (rpc s \<noteq> RIn \<longrightarrow> c_idle (conss (tq s) 0)) \<and>
     {(x, y). arr s x y} \<union> in_flight (rpc s) (conss (tq s) 0) = set (recvd (tq s))"

definition producers_inv :: "nat \<Rightarrow> nat \<Rightarrow> qtest \<Rightarrow> bool" where
  "producers_inv n l s \<longleftrightarrow>
     (\<forall>i < n. thread_ok l i (tpcs s i) (prods (tq s) i) (filter (\<lambda>p. fst p = i) (sent (tq s)))) \<and>
     (\<forall>p \<in> set (sent (tq s)). fst p < n) \<and> (\<forall>i \<ge> n. prods (tq s) i = PIdle) \<and>
     producers s = int (card {i. i < n \<and> active (tpcs s i)}) \<and>
     (m_tail (que (tq s)) = None \<or> (\<exists>i < n. tpcs s i = TStop) \<longrightarrow> producers s = 0)"

definition qtest_inv :: "nat \<Rightarrow> nat \<Rightarrow> addr \<Rightarrow> qtest \<Rightarrow> bool" where
  "qtest_inv n l stub s \<longleftrightarrow> reachable qstep (qsys_init stub) (tq s) \<and> producers_inv n l s \<and> reader_inv s"

fun alloc_ok :: "tact \<Rightarrow> bool" where
  "alloc_ok (TCall i None) = False" | "alloc_ok a = True"

lemma qtest_inv_init: "qtest_inv n l stub (qtest_init n stub)"
proof -
  have "{i. i < n \<and> active (if i < n then TLoop 0 else TDone)} = {..<n}" by auto
  then show ?thesis
    by (auto simp: qtest_inv_def qtest_init_def producers_inv_def reader_inv_def qsys_init_def p_idle_def
      c_idle_def in_flight_def new_queue_def)
qed

lemma active_card:
  fixes f :: "nat \<Rightarrow> tpc"
  assumes "i < n" and "active pc \<longrightarrow> active (f i)"
  shows "int (card {k. k < n \<and> active ((f(i := pc)) k)}) =
    int (card {k. k < n \<and> active (f k)}) - (if active (f i) \<and> \<not> active pc then 1 else 0)"
proof (cases "active (f i) \<and> \<not> active pc")
  case True
  have "{k. k < n \<and> active (f k)} = insert i {k. k < n \<and> active ((f(i := pc)) k)}" using assms True by auto
  moreover have "i \<notin> {k. k < n \<and> active ((f(i := pc)) k)}" using True by simp
  moreover have "finite {k. k < n \<and> active ((f(i := pc)) k)}" by (rule finite_subset [of _ "{..<n}"]) auto
  ultimately show ?thesis using True by simp
next
  case False
  then have "{k. k < n \<and> active ((f(i := pc)) k)} = {k. k < n \<and> active (f k)}" using assms by auto
  with False show ?thesis by simp
qed

text \<open>A step of producer \<open>i\<close>: what it must establish.\<close>

lemma producers_inv_update:
  assumes inv: "producers_inv n l s" and i: "i < n" and act: "active pc \<longrightarrow> active (tpcs s i)"
    and p: "\<forall>j. j \<noteq> i \<longrightarrow> prods q j = prods (tq s) j" and snt: "sent q = sent (tq s) @ xs" "\<forall>x \<in> set xs. fst x = i"
    and ok: "thread_ok l i pc (prods q i) (filter (\<lambda>p. fst p = i) (sent (tq s)) @ xs)"
    and ps: "ps = producers s - (if active (tpcs s i) \<and> \<not> active pc then 1 else 0)"
    and stop: "m_tail (que q) = None \<and> m_tail (que (tq s)) \<noteq> None \<or> pc = TStop \<longrightarrow> ps = 0"
  shows "producers_inv n l (s\<lparr>tq := q, tpcs := (tpcs s)(i := pc), producers := ps\<rparr>)"
proof -
  have I: "\<And>j. j < n \<Longrightarrow> thread_ok l j (tpcs s j) (prods (tq s) j) (filter (\<lambda>p. fst p = j) (sent (tq s)))"
    "\<forall>p \<in> set (sent (tq s)). fst p < n" "\<forall>j \<ge> n. prods (tq s) j = PIdle"
    "producers s = int (card {j. j < n \<and> active (tpcs s j)})"
    "m_tail (que (tq s)) = None \<or> (\<exists>j < n. tpcs s j = TStop) \<longrightarrow> producers s = 0"
    using inv unfolding producers_inv_def by blast+
  have fi: "filter (\<lambda>p. fst p = i) xs = xs" using snt(2) by (simp add: filter_id_conv)
  have fj: "j \<noteq> i \<Longrightarrow> filter (\<lambda>p. fst p = j) xs = []" for j using snt(2) by (auto simp: filter_empty_conv)
  have c: "int (card {j. j < n \<and> active (((tpcs s)(i := pc)) j)}) = ps"
    using active_card [OF i, of pc "tpcs s"] act I(4) ps by simp
  have "producers s = 0 \<Longrightarrow> ps = 0" using c ps by (auto split: if_splits)
  then have "m_tail (que q) = None \<or> (\<exists>j < n. ((tpcs s)(i := pc)) j = TStop) \<longrightarrow> ps = 0"
    using I(5) stop by (auto split: if_splits)
  moreover have "thread_ok l j (((tpcs s)(i := pc)) j) (prods q j) (filter (\<lambda>p. fst p = j) (sent q))" if "j < n" for j
    using I(1) [OF that] ok p snt fi fj by (cases "j = i") simp_all
  moreover have "\<forall>p \<in> set (sent q). fst p < n" using I(2) snt i by auto
  moreover have "\<forall>j \<ge> n. prods q j = PIdle" using I(3) p i by auto
  ultimately show ?thesis using c by (simp add: producers_inv_def)
qed

lemma reader_inv_frame:
  "reader_inv s \<Longrightarrow> conss q = conss (tq s) \<Longrightarrow> recvd q = recvd (tq s) \<Longrightarrow>
   reader_inv (s\<lparr>tq := q, tpcs := f, producers := ps\<rparr>)"
  by (simp add: reader_inv_def)

lemma via_queue_Some:
  "via_queue a s = Some s' \<longleftrightarrow> (\<exists>q. qstep a (tq s) = Some q \<and> s' = s\<lparr>tq := q\<rparr>)"
  by (auto simp: via_queue_def split: option.splits)

lemma active_running:
  assumes "producers_inv n l s" and "i < n" and "active (tpcs s i)"
  shows "m_tail (que (tq s)) \<noteq> None" and "0 < producers s"
proof -
  have "i \<in> {k. k < n \<and> active (tpcs s k)}" using assms by simp
  moreover have "finite {k. k < n \<and> active (tpcs s k)}" by simp
  ultimately have "0 < card {k. k < n \<and> active (tpcs s k)}" by (metis card_gt_0_iff empty_iff)
  then show "0 < producers s" using assms(1) by (simp add: producers_inv_def)
  with assms(1) show "m_tail (que (tq s)) \<noteq> None" by (auto simp: producers_inv_def)
qed

lemma qtest_inv_update:
  assumes inv: "qtest_inv n l stub s" and i: "i < n" and act: "active pc \<longrightarrow> active (tpcs s i)"
    and q: "q = tq s \<or> qstep a (tq s) = Some q"
    and p: "\<forall>j. j \<noteq> i \<longrightarrow> prods q j = prods (tq s) j" and snt: "sent q = sent (tq s) @ xs" "\<forall>x \<in> set xs. fst x = i"
    and ok: "thread_ok l i pc (prods q i) (filter (\<lambda>p. fst p = i) (sent (tq s)) @ xs)"
    and ps: "ps = producers s - (if active (tpcs s i) \<and> \<not> active pc then 1 else 0)"
    and stop: "m_tail (que q) = None \<and> m_tail (que (tq s)) \<noteq> None \<or> pc = TStop \<longrightarrow> ps = 0"
    and c: "conss q = conss (tq s)" "recvd q = recvd (tq s)"
  shows "qtest_inv n l stub (s\<lparr>tq := q, tpcs := (tpcs s)(i := pc), producers := ps\<rparr>)"
proof -
  have "reachable qstep (qsys_init stub) q" using inv q by (auto simp: qtest_inv_def intro: reachable_step)
  moreover have "producers_inv n l (s\<lparr>tq := q, tpcs := (tpcs s)(i := pc), producers := ps\<rparr>)"
    using inv i act p snt ok ps stop by (intro producers_inv_update) (simp_all add: qtest_inv_def)
  moreover have "reader_inv (s\<lparr>tq := q, tpcs := (tpcs s)(i := pc), producers := ps\<rparr>)"
    using inv c by (intro reader_inv_frame) (simp_all add: qtest_inv_def)
  ultimately show ?thesis by (simp add: qtest_inv_def)
qed

lemma qtest_inv_call:
  assumes inv: "qtest_inv n l stub s" and i: "i < n" and pc: "tpcs s i = TLoop j" "j < l"
    and q: "qstep (PCall i (i, j) (Some k)) (tq s) = Some q"
  shows "qtest_inv n l stub (s\<lparr>tq := q, tpcs := (tpcs s)(i := TIn j)\<rparr>)"
proof -
  have T: "thread_ok l i (TLoop j) (prods (tq s) i) (filter (\<lambda>p. fst p = i) (sent (tq s)))"
    using inv i pc by (auto simp: qtest_inv_def producers_inv_def)
  have e: "q = set_p i (PHave k (i, j)) ((tq s)\<lparr>que := alloc_node k (i, j) (que (tq s))\<rparr>)"
    using q by (simp add: qstep_def split: if_splits)
  have "qtest_inv n l stub (s\<lparr>tq := q, tpcs := (tpcs s)(i := TIn j), producers := producers s\<rparr>)"
    using q T pc by (intro qtest_inv_update [OF inv i, where xs = "[]" and a = "PCall i (i, j) (Some k)"])
      (auto simp: e alloc_node_def)
  then show ?thesis by simp
qed

lemma qtest_inv_enq:
  assumes inv: "qtest_inv n l stub s" and i: "i < n" and pc: "tpcs s i = TIn j"
    and q: "qstep (PStep i sp) (tq s) = Some q"
  shows "qtest_inv n l stub (s\<lparr>tq := q\<rparr>)"
proof -
  have P: "producers_inv n l s" using inv by (simp add: qtest_inv_def)
  have T: "thread_ok l i (TIn j) (prods (tq s) i) (filter (\<lambda>p. fst p = i) (sent (tq s)))"
    using P i pc by (auto simp: producers_inv_def)
  have st: "enqueue_step i sp (tq s) (prods (tq s) i) = Some q" using q by (simp add: qstep_def split: if_splits)
  have b: "bad q = None" using inv q by (auto simp: qtest_inv_def intro: not_bad reachable_step)
  have t: "m_tail (que (tq s)) \<noteq> None" using active_running [OF P i] pc by simp
  have "carries (i, j) (prods (tq s) i)" using T by simp
  note eff = enqueue_step_effect [OF st b t this]
  have E: "carries (i, j) (prods q i)" "\<forall>k. k \<noteq> i \<longrightarrow> prods q k = prods (tq s) k" "conss q = conss (tq s)"
    "recvd q = recvd (tq s)" "m_tail (que q) \<noteq> None"
    "sent q = sent (tq s) \<and> has_sent (prods q i) = has_sent (prods (tq s) i) \<or>
     sent q = sent (tq s) @ [(i, j)] \<and> \<not> has_sent (prods (tq s) i) \<and> has_sent (prods q i)"
    using eff by blast+
  define xs where "xs = (if sent q = sent (tq s) then [] else [(i, j)])"
  have x: "sent q = sent (tq s) @ xs" "\<forall>x \<in> set xs. fst x = i" using E(6) by (auto simp: xs_def)
  have "thread_ok l i (TIn j) (prods q i) (filter (\<lambda>p. fst p = i) (sent (tq s)) @ xs)"
    using T E(1,6) by (auto simp: xs_def)
  then have "qtest_inv n l stub (s\<lparr>tq := q, tpcs := (tpcs s)(i := TIn j), producers := producers s\<rparr>)"
    using q pc E(2-5) x by (intro qtest_inv_update [OF inv i, where a = "PStep i sp" and xs = xs]) (simp_all, auto)
  then show ?thesis using pc by (simp add: fun_upd_idem)
qed

lemma qtest_inv_producer:
  assumes inv: "qtest_inv n l stub s" and i: "i < n" and ok: "alloc_ok a" and st: "producer_step l a i s = Some s'"
  shows "qtest_inv n l stub s'"
proof -
  have P: "producers_inv n l s" using inv by (simp add: qtest_inv_def)
  have T: "thread_ok l i (tpcs s i) (prods (tq s) i) (filter (\<lambda>p. fst p = i) (sent (tq s)))"
    using P i by (simp add: producers_inv_def)
  have move: "qtest_inv n l stub (s\<lparr>tq := tq s, tpcs := (tpcs s)(i := pc), producers := ps\<rparr>)"
    if "active pc \<longrightarrow> active (tpcs s i)" "ps = producers s - (if active (tpcs s i) \<and> \<not> active pc then 1 else 0)"
      "pc = TStop \<longrightarrow> ps = 0" "thread_ok l i pc (prods (tq s) i) (filter (\<lambda>p. fst p = i) (sent (tq s)))" for pc ps
    using that by (intro qtest_inv_update [OF inv i, where xs = "[]"]) auto
  show ?thesis
  proof (cases "tpcs s i")
    case (TLoop j)
    show ?thesis
    proof (cases "j < l")
      case True
      with st ok TLoop obtain k q where "qstep (PCall i (i, j) (Some k)) (tq s) = Some q"
        "s' = s\<lparr>tq := q, tpcs := (tpcs s)(i := TIn j)\<rparr>"
        by (cases a rule: alloc_ok.cases) (auto simp: producer_step_def via_queue_Some set_tpc_def)
      then show ?thesis using qtest_inv_call [OF inv i TLoop True] by simp
    next
      case False
      with st TLoop have "s' = set_tpc i TDec s" by (cases a) (auto simp: producer_step_def)
      with move [of TDec "producers s"] T TLoop False show ?thesis by (simp add: set_tpc_def)
    qed
  next
    case (TIn j)
    show ?thesis
    proof (cases a)
      case (TEnq k sp)
      with st TIn obtain q where "qstep (PStep i sp) (tq s) = Some q" "s' = s\<lparr>tq := q\<rparr>"
        by (auto simp: producer_step_def via_queue_Some)
      then show ?thesis using qtest_inv_enq [OF inv i TIn] by simp
    next
      case (TRet k)
      with st TIn obtain b where b: "prods (tq s) i = PRet b" "s' = set_tpc i (if b then TLoop (j + 1) else TReturned) s"
        by (auto simp: producer_step_def split: ppc.splits)
      with T TIn have "b" by simp
      with b move [of "TLoop (j + 1)" "producers s"] T TIn show ?thesis by (simp add: set_tpc_def p_idle_def)
    qed (use st TIn in \<open>simp_all add: producer_step_def\<close>)
  next
    case TDec
    with st have "s' = (set_tpc i (if producers s = 1 then TStop else TDone) s)\<lparr>producers := producers s - 1\<rparr>"
      by (cases a) (auto simp: producer_step_def)
    moreover have "qtest_inv n l stub (s\<lparr>tq := tq s, tpcs := (tpcs s)(i := pc), producers := producers s - 1\<rparr>)"
      if "pc = (if producers s = 1 then TStop else TDone)" for pc
      using T TDec that by (intro move) auto
    ultimately show ?thesis by (simp add: set_tpc_def)
  next
    case TStop
    with st obtain q where q: "qstep Stop (tq s) = Some q" "s' = s\<lparr>tq := q, tpcs := (tpcs s)(i := TDone)\<rparr>"
      by (cases a) (auto simp: producer_step_def via_queue_Some set_tpc_def)
    have z: "producers s = 0" using P i TStop by (auto simp: producers_inv_def)
    have e: "q = (tq s)\<lparr>que := stop (que (tq s))\<rparr>" using q(1) by (simp add: qstep_def split: if_splits)
    have "qtest_inv n l stub (s\<lparr>tq := q, tpcs := (tpcs s)(i := TDone), producers := producers s\<rparr>)"
        using q(1) T TStop z by (intro qtest_inv_update [OF inv i, where xs = "[]" and a = Stop]) (simp_all add: e)
    with q(2) show ?thesis by simp
  next
    case TDone
    with st show ?thesis by (cases a) (simp_all add: producer_step_def)
  next
    case TReturned
    with T show ?thesis by simp
  qed
qed

lemma in_flight_simps [simp]:
  "r \<noteq> RIn \<Longrightarrow> in_flight r pc = {}" "in_flight RIn (CRet (Some v)) = {v}"
  "\<forall>v. pc \<noteq> CRet (Some v) \<Longrightarrow> in_flight r pc = {}"
  by (auto simp: in_flight_def split: rpc.splits cpc.splits option.splits)

lemma producers_inv_reader:
  "prods (tq t) = prods (tq s) \<Longrightarrow> sent (tq t) = sent (tq s) \<Longrightarrow> m_tail (que (tq t)) = m_tail (que (tq s)) \<Longrightarrow>
   tpcs t = tpcs s \<Longrightarrow> producers t = producers s \<Longrightarrow> producers_inv n l t \<longleftrightarrow> producers_inv n l s"
  by (simp add: producers_inv_def)

lemma qtest_inv_reader:
  assumes inv: "qtest_inv n l stub s" and st: "reader_step a s = Some s'"
  shows "qtest_inv n l stub s'"
proof -
  have R: "reachable qstep (qsys_init stub) (tq s)" and P: "producers_inv n l s" and C: "reader_inv s"
    using inv by (simp_all add: qtest_inv_def)
  have C: "\<forall>c. c \<noteq> 0 \<longrightarrow> conss (tq s) c = CIdle" "rpc s \<noteq> RIn \<longrightarrow> c_idle (conss (tq s) 0)"
     "{(x, y). arr s x y} \<union> in_flight (rpc s) (conss (tq s) 0) = set (recvd (tq s))"
    using inv by (simp_all add: qtest_inv_def reader_inv_def)
  consider (call) q where "rpc s = RLoop" "qstep (CWait 0) (tq s) = Some q" "s' = s\<lparr>tq := q, rpc := RIn\<rparr>"
    | (step) q where "rpc s = RIn" "qstep (CStep 0) (tq s) = Some q" "s' = s\<lparr>tq := q\<rparr>"
    | (no) "rpc s = RIn" "conss (tq s) 0 = CRet None" "s' = s\<lparr>rpc := REnd\<rparr>"
    | (got) x y where "rpc s = RIn" "conss (tq s) 0 = CRet (Some (x, y))"
        "s' = s\<lparr>rpc := RLoop, arr := (arr s)(x := (arr s x)(y := True))\<rparr>"
    using st by (cases a; cases "rpc s") (auto simp: reader_step_def via_queue_Some split: cpc.splits option.splits)
  then show ?thesis
  proof cases
    case call
    then have q: "q = (set_c 0 WHead (tq s))\<lparr>owner := Some 0\<rparr>" by (simp add: qstep_def split: if_splits)
    have "producers_inv n l s'" using producers_inv_reader [of s' s n l] P call q by simp
    moreover have "reader_inv s'" using C call q by (simp add: reader_inv_def)
    ultimately show ?thesis using call R by (auto simp: qtest_inv_def intro: reachable_step)
  next
    case step
    then have "consumer_step 0 (tq s) = Some q" by (simp add: qstep_def split: if_splits)
    moreover have r: "reachable qstep (qsys_init stub) q" using R step by (auto intro: reachable_step)
    ultimately have E: "prods q = prods (tq s) \<and> (\<forall>d. d \<noteq> 0 \<longrightarrow> conss q d = conss (tq s) d) \<and> sent q = sent (tq s) \<and>
      m_tail (que q) = m_tail (que (tq s)) \<and> \<not> c_idle (conss (tq s) 0) \<and>
      (recvd q = recvd (tq s) \<and> (\<forall>v. conss q 0 \<noteq> CRet (Some v)) \<or>
       (\<exists>v. recvd q = recvd (tq s) @ [v] \<and> conss q 0 = CRet (Some v)))"
      by (intro consumer_step_effect not_bad)
    then have ni: "\<forall>v. conss (tq s) 0 \<noteq> CRet (Some v)" by (auto simp: c_idle_def)
    have "producers_inv n l s'" using producers_inv_reader [of s' s n l] P step E by simp
    moreover have "reader_inv s'" using C ni step E by (auto simp: reader_inv_def)
    ultimately show ?thesis using step r by (simp add: qtest_inv_def)
  next
    case no
    have "producers_inv n l s'" using producers_inv_reader [of s' s n l] P no by simp
    moreover have "reader_inv s'" using C no by (simp add: reader_inv_def c_idle_def)
    ultimately show ?thesis using no R by (simp add: qtest_inv_def)
  next
    case got
    have "producers_inv n l s'" using producers_inv_reader [of s' s n l] P got by simp
    moreover have "{(u, v). ((arr s)(x := (arr s x)(y := True))) u v} = insert (x, y) {(u, v). arr s u v}"
      by (auto split: if_splits)
    then have "reader_inv s'" using C got by (simp add: reader_inv_def c_idle_def)
    ultimately show ?thesis using got R by (simp add: qtest_inv_def)
  qed
qed

lemma qtest_inv_step:
  "qtest_inv n l stub s \<Longrightarrow> alloc_ok a \<Longrightarrow> qtest_step n l a s = Some s' \<Longrightarrow> qtest_inv n l stub s'"
  by (auto simp: qtest_step_def split: option.splits if_splits intro: qtest_inv_producer qtest_inv_reader)

interpretation qtests: machine_inv_on "qtest_step n l" alloc_ok "qtest_init n stub" "qtest_inv n l stub" for n l stub
  by unfold_locales (auto intro: qtest_inv_init qtest_inv_step)

section \<open>What the test reports\<close>

lemma distinct_filters: "(\<And>i. distinct (filter (\<lambda>p. fst p = i) ps)) \<Longrightarrow> distinct ps"
proof (induction ps)
  case (Cons x ps)
  have "distinct (filter (\<lambda>p. fst p = i) ps)" for i using Cons.prems [of i] by (simp split: if_splits)
  with Cons.IH Cons.prems [of "fst x"] show ?case by simp
qed simp

lemma linked_values: "linked m ns vs \<Longrightarrow> map (vl m) ns = vs"
  by (induction m ns vs rule: linked.induct) (auto simp: vl_def)

lemma live_count_holds:
  assumes "holds q xs"
  shows "live_count q = length xs"
proof -
  obtain ns where r: "rep_at q ns xs" using assms by (auto simp: holds_def)
  then have l: "map (vl (mem q)) ns = None # map Some xs" by (auto simp: rep_at_def dest: linked_values)
  then obtain h ns' where ns: "ns = h # ns'" by auto
  with l have v: "vl (mem q) h = None" "map (vl (mem q)) ns' = map Some xs" by simp_all
  have "vl (mem q) a \<noteq> None" if "a \<in> set ns'" for a
  proof -
    have "vl (mem q) a \<in> set (map (vl (mem q)) ns')" using that by simp
    then show ?thesis unfolding v(2) by auto
  qed
  moreover have "a \<in> set ns" if "vl (mem q) a \<noteq> None" for a
    using that r by (auto simp: vl_def rep_at_def split: option.splits)
  ultimately have "{a. vl (mem q) a \<noteq> None} = set ns'" using ns v(1) by (metis (mono_tags, lifting) Collect_cong Collect_mem_eq set_ConsD)
  moreover have "distinct ns'" using r ns by (simp add: rep_at_def)
  ultimately show ?thesis
    using arg_cong [OF v(2), of length] by (simp add: live_count_def distinct_card)
qed

lemma joined_facts:
  assumes inv: "qtest_inv n l stub s" and j: "joined n s"
  shows "distinct (sent (tq s))" and "set (sent (tq s)) = {..<n} \<times> {..<l}" and "quiescent (tq s)"
    and "{(x, y). arr s x y} = set (recvd (tq s))"
proof -
  let ?snt = "sent (tq s)"
  have P: "producers_inv n l s" and R: "reachable qstep (qsys_init stub) (tq s)" and C: "reader_inv s"
    using inv by (simp_all add: qtest_inv_def)
  have T: "p_idle (prods (tq s) i) \<and> filter (\<lambda>p. fst p = i) ?snt = map (Pair i) [0..<l]" if i: "i < n" for i
  proof -
    have "thread_ok l i (tpcs s i) (prods (tq s) i) (filter (\<lambda>p. fst p = i) ?snt)"
      using P i by (simp add: producers_inv_def)
    moreover have "tpcs s i = TDone \<or> tpcs s i = TReturned" using j i by (simp add: joined_def)
    ultimately show ?thesis by auto
  qed
  have small: "\<forall>p \<in> set ?snt. fst p < n" and idle: "\<forall>i \<ge> n. prods (tq s) i = PIdle"
    using P unfolding producers_inv_def by blast+
  show "distinct ?snt"
  proof (rule distinct_filters)
    fix i
    show "distinct (filter (\<lambda>p. fst p = i) ?snt)"
    proof (cases "i < n")
      case True
      with T show ?thesis by (simp add: distinct_map inj_on_def)
    next
      case False
      with small have "filter (\<lambda>p. fst p = i) ?snt = []" by (auto simp: filter_empty_conv)
      then show ?thesis by simp
    qed
  qed
  have "(x, y) \<in> set ?snt \<longleftrightarrow> x < n \<and> y < l" for x y
  proof (cases "x < n")
    case True
    have "(x, y) \<in> set ?snt \<longleftrightarrow> (x, y) \<in> set (filter (\<lambda>p. fst p = x) ?snt)" by simp
    also have "\<dots> \<longleftrightarrow> y < l" using T [OF True] by auto
    finally show ?thesis using True by simp
  qed (use small in force)
  then show "set ?snt = {..<n} \<times> {..<l}" by auto
  have "p_idle (prods (tq s) i)" for i
    using T [of i] idle by (cases "i < n") (simp_all add: p_idle_def)
  moreover have "owner (tq s) = None"
  proof (rule ccontr)
    assume "owner (tq s) \<noteq> None"
    then obtain c where c: "owner (tq s) = Some c" by auto
    obtain ch where "qinv_at (tq s) ch" using qmachine.reachable_inv [OF R] by (auto simp: qinv_def)
    with c have "critical (conss (tq s) c)" by (simp add: qinv_at_def)
    moreover have "c_idle (conss (tq s) c)" using C j
      by (cases "c = 0") (simp_all add: reader_inv_def joined_def c_idle_def)
    ultimately show False by (cases "conss (tq s) c") (simp_all add: c_idle_def)
  qed
  ultimately show "quiescent (tq s)" by (simp add: quiescent_def)
  show "{(x, y). arr s x y} = set (recvd (tq s))" using C j by (simp add: reader_inv_def joined_def)
qed


lemmas qtest_eval = qtest_step_def qtest_init_def producer_step_def reader_step_def set_tpc_def via_queue_def
  queue_eval stop_def

definition good_test :: "tact list" where
  "good_test = [TCall 0 (Some 1), TEnq 0 False, TEnq 0 False, TEnq 0 False, TEnq 0 False, TRet 0, TLoopEnd 0,
     RCall, RStep, RStep, RStep, RStep, RStep, RStep, RStep, RRet, TFetchSub 0, TStopCall 0,
     RCall, RStep, RStep, RStep, RStep, RRet]"

lemma good_test_runs:
  "\<exists>s. run (qtest_step 1 1) good_test (qtest_init 1 0) = Some s \<and> joined 1 s \<and> arr s 0 0"
  by (simp add: good_test_def qtest_eval joined_def)


text \<open>
  The assertions of the test can fail. The consumer reads the tail between a producer's exchange
  and its link; its loop then watches the tail only, and when the last producer stops the queue it
  returns with the value still inside.
\<close>

definition failing_test :: "tact list" where
  "failing_test = [TCall 0 (Some 1), TEnq 0 False, TEnq 0 False, RCall, RStep, RStep, RStep,
     TEnq 0 False, TEnq 0 False, TRet 0, TLoopEnd 0, TFetchSub 0, TStopCall 0, RStep, RStep, RStep, RRet]"

theorem queue_test_can_fail:
  "\<exists>s. run (qtest_step 1 1) failing_test (qtest_init 1 0) = Some s \<and> (\<forall>a \<in> set failing_test. alloc_ok a) \<and>
     joined 1 s \<and> \<not> asserts_hold 1 1 s \<and> maybe_empty (que (tq s)) = Inr False"
  by (simp add: failing_test_def qtest_eval joined_def asserts_hold_def maybe_empty_def)

end
