(* ===== verification/Demo_Sem.thy ===== *)
theory Demo_Sem
  imports Semaphore
begin

text \<open>
  \<open>test_sem\<close> of \<open>src/main.cpp\<close>: a coroutine, three callbacks and a timeout over one semaphore and
  the global timer. After its first suspension everything runs on the timer's thread, so the
  program is a sequence of timer callbacks, each of which runs until nothing is left to
  resume. The semaphore's counter is updated by the functions of \<open>Semaphore\<close>; the timer starts the
  earliest task, at its time or any later time.
\<close>

section \<open>Alarms\<close>

text \<open>
  A pending task is its time and what its callback does. Code between two callbacks takes no time;
  lateness is the timer's.
\<close>

type_synonym 'k alarms = "(int \<times> 'k) list"

definition earliest_alarm :: "'k alarms \<Rightarrow> nat \<Rightarrow> bool" where
  "earliest_alarm as k \<longleftrightarrow> k < length as \<and> (\<forall>a \<in> set as. fst (as ! k) \<le> fst a)"

definition drop_nth :: "nat \<Rightarrow> 'k list \<Rightarrow> 'k list" where
  "drop_nth k as = take k as @ drop (Suc k) as"

section \<open>The program\<close>

datatype alarm = ATask1 | ATask2 | ATask4 | ASleep | ATimeout

datatype sem_waiter = WMain | WRunner

text \<open>
  Where the coroutine is suspended: in its first, second or third \<open>acquire\<close>, in its sleep, in
  \<open>with_timeout_for\<close>, at its end. \<open>expired\<close> is the state of the timeout: pending, or who won.
\<close>

datatype main_at = MStart | MAcquire1 | MAcquire2 | MSleep | MAcquire3 | MTimeout | MEnd

datatype winner = Pending | AcquireWon | TimeoutWon

record tsem =
  clk :: int
  alarms :: "alarm alarms"
  scnt :: counter
  squeue :: "sem_waiter list"
  main_at :: main_at
  winner :: winner
  out :: "string list"
  tsem_bad :: "fault option"

definition tsem_fault :: "fault \<Rightarrow> tsem \<Rightarrow> tsem" where
  "tsem_fault e s = s\<lparr>tsem_bad := Some e\<rparr>"

definition println :: "string \<Rightarrow> tsem \<Rightarrow> tsem" where
  "println x s = s\<lparr>out := out s @ [x]\<rparr>"

definition add_alarm :: "int \<Rightarrow> alarm \<Rightarrow> tsem \<Rightarrow> tsem" where
  "add_alarm delay a s = s\<lparr>alarms := alarms s @ [(clk s + delay, a)]\<rparr>"

text \<open>
  \<open>co_await sem->acquire()\<close>: suspend in the queue, or go on. \<open>sem->release(n)\<close>: update the
  counter and resume as many waiters as it says.
\<close>

definition sem_acquire :: "sem_waiter \<Rightarrow> (tsem \<Rightarrow> tsem) \<Rightarrow> (tsem \<Rightarrow> tsem) \<Rightarrow> tsem \<Rightarrow> tsem" where
  "sem_acquire w suspend go_on s = (case acquire_update (scnt s) of
     Inl e \<Rightarrow> tsem_fault e s
   | Inr c \<Rightarrow> if need_wait (scnt s) then suspend (s\<lparr>scnt := c, squeue := squeue s @ [w]\<rparr>) else go_on (s\<lparr>scnt := c\<rparr>))"

definition sem_release :: "(sem_waiter \<Rightarrow> tsem \<Rightarrow> tsem) \<Rightarrow> int \<Rightarrow> tsem \<Rightarrow> tsem" where
  "sem_release resume n s = (case release_update n (scnt s) of
     Inl e \<Rightarrow> tsem_fault e s
   | Inr c \<Rightarrow> (let k = unat (need_wake n (scnt s))
       in if k \<le> length (squeue s) then fold resume (take k (squeue s)) (s\<lparr>scnt := c, squeue := drop k (squeue s)\<rparr>)
          else tsem_fault Unreachable s))"

text \<open>The coroutine, from each point where it can be resumed to the next.\<close>

definition main_finish :: "bool \<Rightarrow> tsem \<Rightarrow> tsem" where
  "main_finish ok s = (println ''wait finish'' (if ok then s else println ''sem time out'' s))\<lparr>main_at := MEnd\<rparr>"

text \<open>
  The inner coroutine of the timeout after its \<open>acquire\<close>: when it wins inside \<open>await_suspend\<close> it
  resumes the caller there, which lets the awaitable end under \<open>await_suspend\<close>.
\<close>

definition runner_end :: "tsem \<Rightarrow> tsem" where
  "runner_end s = (if winner s = Pending then main_finish True (s\<lparr>winner := AcquireWon\<rparr>) else s)"

definition main_timeout :: "tsem \<Rightarrow> tsem" where
  "main_timeout s = (let t = (add_alarm 300 ATask4 s)\<lparr>main_at := MTimeout\<rparr>
     in sem_acquire WRunner (add_alarm 100 ATimeout) (\<lambda>u. tsem_fault UseAfterFree (runner_end u)) t)"

definition main_acquire3 :: "tsem \<Rightarrow> tsem" where
  "main_acquire3 s = sem_acquire WMain (\<lambda>t. t\<lparr>main_at := MAcquire3\<rparr>) main_timeout s"

text \<open>\<open>with_callback(std::suspend_never {}, ...)\<close> calls the callback at once, inside the coroutine.\<close>

definition wake_while_running :: "sem_waiter \<Rightarrow> tsem \<Rightarrow> tsem" where
  "wake_while_running w s = (case w of WRunner \<Rightarrow> runner_end s | WMain \<Rightarrow> tsem_fault Unreachable s)"

definition main_task3 :: "tsem \<Rightarrow> tsem" where
  "main_task3 s = (let t = sem_release wake_while_running 1 (println ''task 3 finish'' s)
     in (add_alarm 100 ASleep t)\<lparr>main_at := MSleep\<rparr>)"

definition main_acquire2 :: "tsem \<Rightarrow> tsem" where
  "main_acquire2 s = sem_acquire WMain (\<lambda>t. t\<lparr>main_at := MAcquire2\<rparr>) main_task3 s"

definition main_acquire1 :: "tsem \<Rightarrow> tsem" where
  "main_acquire1 s = sem_acquire WMain (\<lambda>t. t\<lparr>main_at := MAcquire1\<rparr>) main_acquire2 s"

definition wake_sem :: "sem_waiter \<Rightarrow> tsem \<Rightarrow> tsem" where
  "wake_sem w s = (case w of
     WRunner \<Rightarrow> runner_end s
   | WMain \<Rightarrow> (case main_at s of
       MAcquire1 \<Rightarrow> main_acquire2 s | MAcquire2 \<Rightarrow> main_task3 s | MAcquire3 \<Rightarrow> main_timeout s
     | _ \<Rightarrow> tsem_fault Unreachable s))"

definition test_sem :: "int \<Rightarrow> tsem" where
  "test_sem t = main_acquire1 (add_alarm 100 ATask2 (add_alarm 200 ATask1 (sem_release wake_while_running (-3)
     \<lparr>clk = t, alarms = [], scnt = \<lparr>count = 3, waiters = 0\<rparr>, squeue = [], main_at = MStart, winner = Pending,
      out = [], tsem_bad = None\<rparr>)))"

text \<open>The callbacks.\<close>

fun ring :: "alarm \<Rightarrow> tsem \<Rightarrow> tsem" where
  "ring ATask1 s = sem_release wake_sem 1 (println ''task 1 finish'' s)"
| "ring ATask2 s = sem_release wake_sem 1 (println ''task 2 finish'' s)"
| "ring ATask4 s = sem_release wake_sem 1 (println ''task 4 finish'' s)"
| "ring ASleep s = main_acquire3 s"
| "ring ATimeout s = (if winner s = Pending then main_finish False (s\<lparr>winner := TimeoutWon\<rparr>) else s)"

text \<open>The timer starts an earliest task, \<open>late\<close> after its time or after the last callback ended.\<close>

definition tsem_step :: "nat \<times> nat \<Rightarrow> tsem \<Rightarrow> tsem option" where
  "tsem_step a s = (case a of (k, late) \<Rightarrow>
     if tsem_bad s = None \<and> earliest_alarm (alarms s) k
     then Some (ring (snd (alarms s ! k)) (s\<lparr>clk := max (clk s) (fst (alarms s ! k)) + int late, alarms := drop_nth k (alarms s)\<rparr>))
     else None)"

lemmas tsem_eval = sem_acquire_def sem_release_def acquire_update_def release_update_def add_count_def int32_ok_def
  need_wait_def need_wake_def add_alarm_def println_def Let_def

lemma test_sem_start:
  "test_sem t = \<lparr>clk = t, alarms = [(t + 200, ATask1), (t + 100, ATask2)], scnt = \<lparr>count = -1, waiters = 1\<rparr>,
     squeue = [WMain], main_at = MAcquire1, winner = Pending, out = [], tsem_bad = None\<rparr>"
  by (simp add: test_sem_def main_acquire1_def tsem_eval)

section \<open>Its runs\<close>

text \<open>The states between callbacks: the clock is \<open>c\<close>, the other time is what a pending alarm was set by.\<close>

fun phase :: "nat \<Rightarrow> int \<Rightarrow> int \<Rightarrow> tsem" where
  "phase 0 c x = \<lparr>clk = c, alarms = [(c + 200, ATask1), (c + 100, ATask2)], scnt = \<lparr>count = -1, waiters = 1\<rparr>,
     squeue = [WMain], main_at = MAcquire1, winner = Pending, out = [], tsem_bad = None\<rparr>"
| "phase (Suc 0) c x = \<lparr>clk = c, alarms = [(x, ATask1)], scnt = \<lparr>count = -1, waiters = 1\<rparr>, squeue = [WMain],
     main_at = MAcquire2, winner = Pending, out = [''task 2 finish''], tsem_bad = None\<rparr>"
| "phase (Suc (Suc 0)) c x = \<lparr>clk = c, alarms = [(x, ASleep)], scnt = \<lparr>count = 1, waiters = 0\<rparr>, squeue = [],
     main_at = MSleep, winner = Pending, out = [''task 2 finish'', ''task 1 finish'', ''task 3 finish''], tsem_bad = None\<rparr>"
| "phase (Suc (Suc (Suc 0))) c x = \<lparr>clk = c, alarms = [(c + 300, ATask4), (c + 100, ATimeout)],
     scnt = \<lparr>count = -1, waiters = 1\<rparr>, squeue = [WRunner], main_at = MTimeout, winner = Pending,
     out = [''task 2 finish'', ''task 1 finish'', ''task 3 finish''], tsem_bad = None\<rparr>"
| "phase (Suc (Suc (Suc (Suc 0)))) c x = \<lparr>clk = c, alarms = [(x, ATask4)], scnt = \<lparr>count = -1, waiters = 1\<rparr>,
     squeue = [WRunner], main_at = MEnd, winner = TimeoutWon,
     out = [''task 2 finish'', ''task 1 finish'', ''task 3 finish'', ''sem time out'', ''wait finish''], tsem_bad = None\<rparr>"
| "phase n c x = \<lparr>clk = c, alarms = [], scnt = \<lparr>count = 0, waiters = 0\<rparr>, squeue = [], main_at = MEnd,
     winner = TimeoutWon, out = [''task 2 finish'', ''task 1 finish'', ''task 3 finish'', ''sem time out'', ''wait finish'',
       ''task 4 finish''], tsem_bad = None\<rparr>"

lemmas tsem_run_eval = tsem_step_def tsem_eval wake_sem_def main_acquire2_def main_task3_def main_acquire3_def
  main_timeout_def main_finish_def runner_end_def drop_nth_def earliest_alarm_def

lemma phase_step:
  "tsem_step a (phase n c x) = Some s' \<Longrightarrow> n < 5 \<and> (\<exists>c' x'. s' = phase (Suc n) c' x')"
proof (induction n c x rule: phase.induct)
  case (1 c x)
  obtain k late where "a = (k, late)" by (cases a)
  with 1 show ?case by (cases k) (auto simp: tsem_run_eval less_Suc_eq split: if_splits)
next
  case (4 c x)
  obtain k late where "a = (k, late)" by (cases a)
  with 4 show ?case by (cases k) (auto simp: tsem_run_eval less_Suc_eq split: if_splits)
qed (auto simp: tsem_run_eval split: prod.splits if_splits)

lemma phase_progress: "alarms (phase n c x) = [] \<and> 5 \<le> n \<or> n < 5 \<and> alarms (phase n c x) \<noteq> [] \<and> (\<exists>a. tsem_step a (phase n c x) \<noteq> None)"
proof (induction n c x rule: phase.induct)
  case (1 c x)
  have "earliest_alarm (alarms (phase 0 c x)) 1" by (simp add: earliest_alarm_def)
  then show ?case by (auto simp: tsem_step_def intro!: exI [of _ "1 :: nat"])
next
  case (4 c x)
  have "earliest_alarm (alarms (phase (Suc (Suc (Suc 0))) c x)) 1" by (simp add: earliest_alarm_def)
  then show ?case by (auto simp: tsem_step_def intro!: exI [of _ "1 :: nat"])
qed (auto simp: tsem_step_def earliest_alarm_def)

lemma phase_run:
  "run tsem_step as (phase n c x) = Some s \<Longrightarrow> n \<le> 5 \<Longrightarrow> \<exists>c' x'. s = phase (n + length as) c' x' \<and> n + length as \<le> 5"
proof (induction as arbitrary: n c x)
  case (Cons a as)
  then obtain s1 where s1: "tsem_step a (phase n c x) = Some s1" "run tsem_step as s1 = Some s"
    by (auto split: option.splits)
  from phase_step [OF s1(1)] obtain c1 x1 where "n < 5" "s1 = phase (Suc n) c1 x1" by blast
  with Cons.IH [of "Suc n" c1 x1] s1(2) show ?case by auto
qed auto

lemma phase_simps: "tsem_bad (phase n c x) = None"
  "5 \<le> n \<Longrightarrow> out (phase n c x) = [''task 2 finish'', ''task 1 finish'', ''task 3 finish'', ''sem time out'', ''wait finish'',
       ''task 4 finish'']"
  "5 \<le> n \<Longrightarrow> scnt (phase n c x) = \<lparr>count = 0, waiters = 0\<rparr> \<and> squeue (phase n c x) = [] \<and> main_at (phase n c x) = MEnd"
  by (induction n c x rule: phase.induct) auto

text \<open>
  \<open>test_sem\<close> runs as its author expects, however late the timer is: it never faults and never
  gets stuck while an alarm is pending, it is over after five callbacks, and by then it has
  printed its six lines in one order. The last permit is gone all the same: four were released and
  three taken, but the fourth went to the \<open>acquire\<close> that had timed out, which stays in the
  queue and takes the next permit.
\<close>

theorem test_sem_runs:
  assumes "run tsem_step as (test_sem t) = Some s"
  shows "tsem_bad s = None \<and> length as \<le> 5 \<and> (alarms s = [] \<longleftrightarrow> length as = 5) \<and>
    (alarms s \<noteq> [] \<longrightarrow> (\<exists>a. tsem_step a s \<noteq> None)) \<and>
    (alarms s = [] \<longrightarrow> out s = [''task 2 finish'', ''task 1 finish'', ''task 3 finish'', ''sem time out'',
        ''wait finish'', ''task 4 finish''] \<and>
       scnt s = \<lparr>count = 0, waiters = 0\<rparr> \<and> squeue s = [] \<and> main_at s = MEnd)"
proof -
  have "run tsem_step as (phase 0 t 0) = Some s" using assms by (simp add: test_sem_start)
  from phase_run [OF this] obtain c x where "s = phase (length as) c x" "length as \<le> 5" by auto
  with phase_progress [of "length as" c x] phase_simps [of "length as" c x] show ?thesis by auto
qed

theorem test_sem_runs_witness:
  "\<exists>s. run tsem_step [(1, 0), (0, 7), (0, 0), (1, 2), (0, 0)] (test_sem 0) = Some s \<and>
     out s = [''task 2 finish'', ''task 1 finish'', ''task 3 finish'', ''sem time out'', ''wait finish'', ''task 4 finish'']"
proof -
  have "\<exists>s. run tsem_step [(1, 0), (0, 7), (0, 0), (1, 2), (0, 0)] (test_sem 0) = Some s \<and> alarms s = []"
    by (simp add: test_sem_start tsem_run_eval)
  then obtain s where s: "run tsem_step [(1, 0), (0, 7), (0, 0), (1, 2), (0, 0)] (test_sem 0) = Some s" "alarms s = []"
    by (elim exE conjE)
  from test_sem_runs [OF s(1)] s show ?thesis by (intro exI [of _ s]) simp
qed

end
