(* ===== verification/Demo_Cancel.thy ===== *)
theory Demo_Cancel
  imports Demo_Sem
begin

text \<open>
  \<open>test_cancel\<close> and \<open>test_wait_each\<close> of \<open>src/main.cpp\<close>: a cancelable coroutine that waits, with
  \<open>wait_each\<close>, for a cancelable sleep, for another cancelable coroutine, for its own cancellation and for
  a coroutine that returns an exception. It runs on the timer's thread and, when its owner cancels
  it, inside \<open>cancel\<close>; each callback and each \<open>cancel\<close> runs until nothing is left to resume.
\<close>

section \<open>The program\<close>

text \<open>
  The four results in the order of the awaitables; \<open>task\<close> is the frame of \<open>test_cancel\<close> and \<open>nap\<close>
  the control box of the sleep: waiting, or over with a result. \<open>arrivals\<close> and \<open>remaining\<close> are the
  state of \<open>wait_each\<close>.
\<close>

datatype arrival = Slept bool | TaskGave bool | WasCanceled | GotError string

datatype each_alarm = ETimeout | ETask | ENap

datatype each_at = WTimeout | WEach | WOver

datatype demo_task = Waits | Over bool

record teach =
  teach_clk :: int
  teach_alarms :: "each_alarm alarms"
  each_at :: each_at
  loop_i :: nat
  arrivals :: "arrival list"
  remaining :: nat
  canceled :: bool
  task :: demo_task
  nap :: demo_task
  lines :: "string list"
  teach_bad :: "fault option"

definition say :: "string \<Rightarrow> teach \<Rightarrow> teach" where
  "say x s = s\<lparr>lines := lines s @ [x]\<rparr>"

text \<open>A runner of \<open>wait_each\<close> stores its result; it resumes the loop if that is suspended.\<close>

definition arrive :: "arrival \<Rightarrow> teach \<Rightarrow> teach" where
  "arrive a s = s\<lparr>arrivals := arrivals s @ [a], remaining := remaining s - 1\<rparr>"

text \<open>\<open>test_cancel\<close> goes on after its \<open>wait_any\<close>: with index 0 it was canceled.\<close>

definition test_cancel_resumes :: "nat \<Rightarrow> teach \<Rightarrow> teach" where
  "test_cancel_resumes idx s = (let t = (if idx = 0 then say ''test_cancel: canceled'' s else s)\<lparr>task := Over (idx \<noteq> 0)\<rparr>
     in if each_at s = WTimeout then t else arrive (TaskGave (idx \<noteq> 0)) t)"

text \<open>\<open>cancel\<close> of the coroutine \<open>test_cancel\<close> and of the sleep.\<close>

definition task_cancel :: "teach \<Rightarrow> bool \<times> teach" where
  "task_cancel s = (if task s = Waits then (True, test_cancel_resumes 0 s) else (False, s))"

definition nap_cancel :: "teach \<Rightarrow> bool \<times> teach" where
  "nap_cancel s = (if nap s = Waits then (True, arrive (Slept False) (s\<lparr>nap := Over False\<rparr>)) else (False, s))"

text \<open>One turn of the loop.\<close>

fun each_turn :: "arrival \<Rightarrow> teach \<Rightarrow> teach" where
  "each_turn (Slept ok) s = (let t = (if ok
       then (let (b, u) = task_cancel (say ''500ms'' s) in if b then say ''cancelable_task timeout'' u else u)
       else say ''sleep cacneled'' s)
     in t\<lparr>loop_i := loop_i t + 1\<rparr>)"
| "each_turn (TaskGave ok) s = (let t = (if ok then say ''task finish'' s else s) in t\<lparr>loop_i := loop_i t + 1\<rparr>)"
| "each_turn WasCanceled s = snd (nap_cancel (snd (task_cancel (say ''test_wait_each: cacneled'' s))))"
| "each_turn (GotError w) s = (let t = say (''wait each 3 : '' @ w) s in t\<lparr>loop_i := loop_i t + 1\<rparr>)"

text \<open>
  The end of the coroutine: its \<open>final_suspend\<close> cancels its own promise, which resumes the runner
  that waits for the cancellation.
\<close>

definition each_ends :: "teach \<Rightarrow> teach" where
  "each_ends s = (if canceled s then s else arrive WasCanceled s)\<lparr>canceled := True, each_at := WOver\<rparr>"

text \<open>
  The loop, until it is suspended or over. With nothing left to wait for, \<open>co_await tasks\<close> gives no
  result, and \<open>ret.value()\<close> throws out of a \<open>Nothrow\<close> coroutine.
\<close>

definition waiting :: "demo_task \<Rightarrow> nat" where
  "waiting d = (case d of Waits \<Rightarrow> 2 | Over b \<Rightarrow> 0)"

lemma task_cancel_measure:
  "length (arrivals (snd (task_cancel s))) + waiting (task (snd (task_cancel s))) + waiting (nap (snd (task_cancel s)))
     \<le> length (arrivals s) + waiting (task s) + waiting (nap s)"
  by (simp add: task_cancel_def test_cancel_resumes_def arrive_def say_def waiting_def Let_def)

lemma nap_cancel_measure:
  "length (arrivals (snd (nap_cancel s))) + waiting (task (snd (nap_cancel s))) + waiting (nap (snd (nap_cancel s)))
     \<le> length (arrivals s) + waiting (task s) + waiting (nap s)"
  by (simp add: nap_cancel_def arrive_def waiting_def)

lemma say_fields [simp]: "arrivals (say x s) = arrivals s" "task (say x s) = task s" "nap (say x s) = nap s"
  by (simp_all add: say_def)

lemma each_turn_measure:
  "length (arrivals (each_turn a s)) + waiting (task (each_turn a s)) + waiting (nap (each_turn a s))
     \<le> length (arrivals s) + waiting (task s) + waiting (nap s)"
proof (cases a)
  case (Slept ok)
  with task_cancel_measure [of "say ''500ms'' s"] show ?thesis
    by (cases "task_cancel (say ''500ms'' s)") (simp add: Let_def)
next
  case WasCanceled
  with task_cancel_measure [of "say ''test_wait_each: cacneled'' s"]
    nap_cancel_measure [of "snd (task_cancel (say ''test_wait_each: cacneled'' s))"] show ?thesis by simp
qed (simp_all add: Let_def)

function each_loop :: "teach \<Rightarrow> teach" where
  "each_loop s =
     (if 3 \<le> loop_i s then each_ends s
      else (case arrivals s of
          [] \<Rightarrow> if remaining s = 0 then s\<lparr>teach_bad := Some Terminate\<rparr> else s
        | a # as \<Rightarrow> each_loop (each_turn a (s\<lparr>arrivals := as\<rparr>))))"
  by pat_completeness auto

termination
proof (relation "measure (\<lambda>s. length (arrivals s) + waiting (task s) + waiting (nap s))", goal_cases)
  case (2 s a as)
  with each_turn_measure [of a "s\<lparr>arrivals := as\<rparr>"] show ?case by simp
qed simp

declare each_loop.simps [simp del]

text \<open>
  After the first 100 ms, or the cancellation in them: the sleep is made, the four runners start
  in order, and the loop begins.
\<close>

definition begin_each :: "teach \<Rightarrow> teach" where
  "begin_each s =
     (let s1 = s\<lparr>each_at := WEach, nap := Waits, teach_alarms := teach_alarms s @ [(teach_clk s + 500, ENap)]\<rparr>;
          s2 = (case task s1 of Over b \<Rightarrow> arrive (TaskGave b) s1 | Waits \<Rightarrow> s1);
          s3 = (if canceled s2 then arrive WasCanceled s2 else s2)
      in each_loop (arrive (GotError ''test'') s3))"

definition test_wait_each :: "int \<Rightarrow> teach" where
  "test_wait_each t = \<lparr>teach_clk = t, teach_alarms = [(t + 300, ETask), (t + 100, ETimeout)], each_at = WTimeout,
     loop_i = 0, arrivals = [], remaining = 4, canceled = False, task = Waits, nap = Over False, lines = [],
     teach_bad = None\<rparr>"

text \<open>The callbacks of the timer, and \<open>cancel\<close> of the future.\<close>

definition resume_loop :: "teach \<Rightarrow> teach" where
  "resume_loop s = (if each_at s = WEach then each_loop s else s)"

fun each_ring :: "each_alarm \<Rightarrow> teach \<Rightarrow> teach" where
  "each_ring ETimeout s = (if each_at s = WTimeout then begin_each s else s)"
| "each_ring ETask s = (if task s = Waits then resume_loop (test_cancel_resumes 1 s) else s)"
| "each_ring ENap s = (if nap s = Waits then resume_loop (arrive (Slept True) (s\<lparr>nap := Over True\<rparr>)) else s)"

definition each_cancel :: "teach \<Rightarrow> teach" where
  "each_cancel s = (if canceled s then s
     else let t = s\<lparr>canceled := True\<rparr>
       in if each_at s = WTimeout then begin_each t else resume_loop (arrive WasCanceled t))"

text \<open>
  The timer starts an earliest task, \<open>late\<close> after its time or after the last callback ended; the owner
  cancels at any time.
\<close>

datatype teach_action = Ring nat nat | OwnerCancel nat

fun teach_act :: "teach_action \<Rightarrow> teach \<Rightarrow> teach option" where
  "teach_act (Ring k late) s = (if earliest_alarm (teach_alarms s) k
     then Some (each_ring (snd (teach_alarms s ! k))
       (s\<lparr>teach_clk := max (teach_clk s) (fst (teach_alarms s ! k)) + int late, teach_alarms := drop_nth k (teach_alarms s)\<rparr>))
     else None)"
| "teach_act (OwnerCancel d) s = Some (each_cancel (s\<lparr>teach_clk := teach_clk s + int d\<rparr>))"

definition teach_step :: "teach_action \<Rightarrow> teach \<Rightarrow> teach option" where
  "teach_step a s = (if teach_bad s = None then teach_act a s else None)"

lemmas teach_eval = begin_each_def each_loop.simps arrive_def say_def test_cancel_resumes_def task_cancel_def
  nap_cancel_def each_ends_def resume_loop_def each_cancel_def Let_def

definition each_over :: "string list list" where
  "each_over =
     [[''wait each 3 : test'', ''task finish'', ''500ms''],
      [''test_wait_each: cacneled'', ''test_cancel: canceled'', ''wait each 3 : test'', ''sleep cacneled''],
      [''wait each 3 : test'', ''test_wait_each: cacneled'', ''test_cancel: canceled'', ''sleep cacneled''],
      [''wait each 3 : test'', ''task finish'', ''test_wait_each: cacneled'', ''sleep cacneled'']]"

text \<open>The states between callbacks.\<close>

definition each_inv :: "bool \<Rightarrow> teach \<Rightarrow> bool" where
  "each_inv b s \<longleftrightarrow> teach_bad s = None \<and>
    ((\<exists>t. s = (test_wait_each t)\<lparr>teach_clk := teach_clk s\<rparr>) \<or>
     (each_at s = WEach \<and> loop_i s = 1 \<and> arrivals s = [] \<and> remaining s = 3 \<and> \<not> canceled s \<and> task s = Waits \<and> nap s = Waits \<and>
       lines s = [''wait each 3 : test''] \<and> (\<exists>x y. teach_alarms s = [(x, ETask), (y, ENap)] \<and> x < y)) \<or>
     (each_at s = WEach \<and> loop_i s = 2 \<and> arrivals s = [] \<and> remaining s = 2 \<and> \<not> canceled s \<and> task s = Over True \<and> nap s = Waits \<and>
       lines s = [''wait each 3 : test'', ''task finish''] \<and> (\<exists>y. teach_alarms s = [(y, ENap)])) \<or>
     (each_at s = WOver \<and> canceled s \<and> task s \<noteq> Waits \<and> nap s \<noteq> Waits \<and> loop_i s = 3 \<and>
       lines s \<in> (if b then set each_over else {hd each_over})))"

definition is_cancel :: "teach_action \<Rightarrow> bool" where
  "is_cancel a = (case a of OwnerCancel d \<Rightarrow> True | Ring k l \<Rightarrow> False)"

lemma each_inv_cases:
  assumes "each_inv b s"
  obtains (start) t c where "s = (test_wait_each t)\<lparr>teach_clk := c\<rparr>"
  | (one) x y c where "s = \<lparr>teach_clk = c, teach_alarms = [(x, ETask), (y, ENap)], each_at = WEach,
     loop_i = 1, arrivals = [], remaining = 3, canceled = False, task = Waits, nap = Waits, lines = [''wait each 3 : test''],
     teach_bad = None\<rparr>" "x < y"
  | (two) y c where "s = \<lparr>teach_clk = c, teach_alarms = [(y, ENap)], each_at = WEach,
     loop_i = 2, arrivals = [], remaining = 2, canceled = False, task = Over True, nap = Waits,
     lines = [''wait each 3 : test'', ''task finish''], teach_bad = None\<rparr>"
  | (over) "each_at s = WOver" "canceled s" "task s \<noteq> Waits" "nap s \<noteq> Waits" "loop_i s = 3" "teach_bad s = None"
     "lines s \<in> (if b then set each_over else {hd each_over})"
proof -
  obtain c al at i q r cn tk np ls bd where s: "s = \<lparr>teach_clk = c, teach_alarms = al, each_at = at, loop_i = i, arrivals = q,
    remaining = r, canceled = cn, task = tk, nap = np, lines = ls, teach_bad = bd\<rparr>" by (cases s)
  from assms have bad: "teach_bad s = None" by (simp add: each_inv_def)
  from assms show thesis unfolding each_inv_def
  proof (elim conjE disjE)
    assume "\<exists>t. s = (test_wait_each t)\<lparr>teach_clk := teach_clk s\<rparr>" then show thesis using start by blast
  next
    assume "\<exists>x y. teach_alarms s = [(x, ETask), (y, ENap)] \<and> x < y" "each_at s = WEach" "loop_i s = 1" "arrivals s = []"
      "remaining s = 3" "\<not> canceled s" "task s = Waits" "nap s = Waits" "lines s = [''wait each 3 : test'']"
    then obtain x y where "x < y" "s = \<lparr>teach_clk = c, teach_alarms = [(x, ETask), (y, ENap)], each_at = WEach,
     loop_i = 1, arrivals = [], remaining = 3, canceled = False, task = Waits, nap = Waits, lines = [''wait each 3 : test''],
     teach_bad = None\<rparr>" using s bad by auto
    then show thesis using one by blast
  next
    assume "\<exists>y. teach_alarms s = [(y, ENap)]" "each_at s = WEach" "loop_i s = 2" "arrivals s = []"
      "remaining s = 2" "\<not> canceled s" "task s = Over True" "nap s = Waits" "lines s = [''wait each 3 : test'', ''task finish'']"
    then obtain y where "s = \<lparr>teach_clk = c, teach_alarms = [(y, ENap)], each_at = WEach,
     loop_i = 2, arrivals = [], remaining = 2, canceled = False, task = Over True, nap = Waits,
     lines = [''wait each 3 : test'', ''task finish''], teach_bad = None\<rparr>" using s bad by auto
    then show thesis using two by blast
  qed (use over bad in blast)
qed

lemma earliest_two: "earliest_alarm [(x, a), (y, b)] k \<Longrightarrow> x < y \<Longrightarrow> k = 0"
  by (auto simp: earliest_alarm_def less_Suc_eq)

lemma earliest_second: "earliest_alarm [(x, a), (y, b)] k \<Longrightarrow> y < x \<Longrightarrow> k = 1"
  by (auto simp: earliest_alarm_def less_Suc_eq)

lemma earliest_one: "earliest_alarm [x] k \<Longrightarrow> k = 0"
  by (simp add: earliest_alarm_def)

lemma each_inv_step:
  assumes inv: "each_inv b s" and st: "teach_step a s = Some s'"
  shows "each_inv (b \<or> is_cancel a) s' \<and> (loop_i s < loop_i s' \<or> loop_i s' = 3) \<and> (is_cancel a \<longrightarrow> each_at s' = WOver)"
  using inv
proof (cases rule: each_inv_cases)
  case (start t c)
  show ?thesis
  proof (cases a)
    case (Ring k late)
    with st start have k: "k = 1"
      by (auto simp: teach_step_def test_wait_each_def dest: earliest_second split: if_splits)
    let ?c = "max c (t + 100) + int late"
    from st start Ring k have "s' = begin_each ((test_wait_each t)\<lparr>teach_clk := ?c, teach_alarms := [(t + 300, ETask)]\<rparr>)"
      by (simp add: teach_step_def test_wait_each_def drop_nth_def split: if_splits)
    then have "s' = \<lparr>teach_clk = ?c, teach_alarms = [(t + 300, ETask), (?c + 500, ENap)],
      each_at = WEach, loop_i = 1, arrivals = [], remaining = 3, canceled = False, task = Waits, nap = Waits,
      lines = [''wait each 3 : test''], teach_bad = None\<rparr>" by (simp add: test_wait_each_def teach_eval)
    with Ring start show ?thesis by (auto simp: each_inv_def test_wait_each_def is_cancel_def)
  next
    case (OwnerCancel d)
    with st start have "s' = each_cancel ((test_wait_each t)\<lparr>teach_clk := c + int d\<rparr>)"
      by (simp add: teach_step_def test_wait_each_def)
    then have "s' = \<lparr>teach_clk = c + int d, teach_alarms = [(t + 300, ETask), (t + 100, ETimeout), (c + int d + 500, ENap)],
      each_at = WOver, loop_i = 3, arrivals = [], remaining = 0, canceled = True, task = Over False, nap = Over False,
      lines = [''test_wait_each: cacneled'', ''test_cancel: canceled'', ''wait each 3 : test'', ''sleep cacneled''],
      teach_bad = None\<rparr>" by (simp add: test_wait_each_def teach_eval)
    then show ?thesis using OwnerCancel by (simp add: each_inv_def is_cancel_def each_over_def)
  qed
next
  case (one x y c)
  show ?thesis
  proof (cases a)
    case (Ring k late)
    with st one have k: "k = 0"
      by (auto simp: teach_step_def dest: earliest_two split: if_splits)
    let ?c = "max c x + int late"
    from st one Ring k have "s' = each_ring ETask (s\<lparr>teach_clk := ?c, teach_alarms := [(y, ENap)]\<rparr>)"
      by (simp add: teach_step_def drop_nth_def split: if_splits)
    then have "s' = \<lparr>teach_clk = ?c, teach_alarms = [(y, ENap)], each_at = WEach,
      loop_i = 2, arrivals = [], remaining = 2, canceled = False, task = Over True, nap = Waits,
      lines = [''wait each 3 : test'', ''task finish''], teach_bad = None\<rparr>" by (simp add: one teach_eval)
    with Ring one show ?thesis by (simp add: each_inv_def is_cancel_def)
  next
    case (OwnerCancel d)
    with st one have "s' = each_cancel (s\<lparr>teach_clk := c + int d\<rparr>)" by (simp add: teach_step_def)
    then have "s' = \<lparr>teach_clk = c + int d, teach_alarms = [(x, ETask), (y, ENap)], each_at = WOver,
      loop_i = 3, arrivals = [], remaining = 0, canceled = True, task = Over False, nap = Over False,
      lines = [''wait each 3 : test'', ''test_wait_each: cacneled'', ''test_cancel: canceled'', ''sleep cacneled''],
      teach_bad = None\<rparr>" by (simp add: one teach_eval)
    with OwnerCancel one show ?thesis by (simp add: each_inv_def is_cancel_def each_over_def)
  qed
next
  case (two y c)
  show ?thesis
  proof (cases a)
    case (Ring k late)
    with st two have k: "k = 0"
      by (auto simp: teach_step_def dest: earliest_one split: if_splits)
    let ?c = "max c y + int late"
    from st two Ring k have "s' = each_ring ENap (s\<lparr>teach_clk := ?c, teach_alarms := []\<rparr>)"
      by (simp add: teach_step_def drop_nth_def split: if_splits)
    then have "s' = \<lparr>teach_clk = ?c, teach_alarms = [], each_at = WOver,
      loop_i = 3, arrivals = [WasCanceled], remaining = 0, canceled = True, task = Over True, nap = Over True,
      lines = [''wait each 3 : test'', ''task finish'', ''500ms''], teach_bad = None\<rparr>" by (simp add: two teach_eval)
    with Ring two show ?thesis by (simp add: each_inv_def is_cancel_def each_over_def)
  next
    case (OwnerCancel d)
    with st two have "s' = each_cancel (s\<lparr>teach_clk := c + int d\<rparr>)" by (simp add: teach_step_def)
    then have "s' = \<lparr>teach_clk = c + int d, teach_alarms = [(y, ENap)], each_at = WOver,
      loop_i = 3, arrivals = [], remaining = 0, canceled = True, task = Over True, nap = Over False,
      lines = [''wait each 3 : test'', ''task finish'', ''test_wait_each: cacneled'', ''sleep cacneled''],
      teach_bad = None\<rparr>" by (simp add: two teach_eval)
    with OwnerCancel two show ?thesis by (simp add: each_inv_def is_cancel_def each_over_def)
  qed
next
  case over
  show ?thesis
  proof (cases a)
    case (Ring k late)
    with st over obtain al tm x where "s' = each_ring x (s\<lparr>teach_clk := tm, teach_alarms := al\<rparr>)"
      by (auto simp: teach_step_def split: if_splits)
    then have "s' = s\<lparr>teach_clk := tm, teach_alarms := al\<rparr>" using over by (cases x) simp_all
    with over Ring show ?thesis by (simp add: each_inv_def is_cancel_def)
  next
    case (OwnerCancel d)
    with st over have "s' = s\<lparr>teach_clk := teach_clk s + int d\<rparr>" by (simp add: teach_step_def each_cancel_def)
    with over OwnerCancel show ?thesis by (auto simp: each_inv_def is_cancel_def each_over_def split: if_splits)
  qed
qed

lemma each_inv_run:
  "run teach_step as s = Some s' \<Longrightarrow> each_inv b s \<Longrightarrow> min 3 n \<le> loop_i s \<Longrightarrow>
    each_inv (b \<or> list_ex is_cancel as) s' \<and> min 3 (n + length as) \<le> loop_i s'"
proof (induction as arbitrary: s b n)
  case (Cons a as)
  then obtain s1 where s1: "teach_step a s = Some s1" "run teach_step as s1 = Some s'" by (auto split: option.splits)
  note st = each_inv_step [OF Cons.prems(2) s1(1)]
  with Cons.prems(3) have "min 3 (Suc n) \<le> loop_i s1" by auto
  from Cons.IH [OF s1(2) conjunct1 [OF st] this] show ?case by (simp add: disj_ac)
qed simp

lemma each_inv_progress:
  assumes "each_inv b s" and "each_at s \<noteq> WOver"
  shows "(\<exists>k. teach_step (Ring k 0) s \<noteq> None) \<and> loop_i s < 3"
  using assms(1)
proof (cases rule: each_inv_cases)
  case (start t c)
  then show ?thesis by (auto simp: teach_step_def test_wait_each_def earliest_alarm_def intro!: exI [of _ 1])
next
  case (one x y c)
  then show ?thesis by (auto simp: teach_step_def earliest_alarm_def intro!: exI [of _ 0])
next
  case (two y c)
  then show ?thesis by (auto simp: teach_step_def earliest_alarm_def intro!: exI [of _ 0])
qed (use assms in simp)

lemma each_cancel_now:
  assumes "each_inv b s" and "each_at s \<noteq> WOver"
  shows "\<exists>s'. teach_step (OwnerCancel d) s = Some s' \<and> each_at s' = WOver \<and> last (lines s') = ''sleep cacneled''"
  using assms(1)
proof (cases rule: each_inv_cases)
  case (start t c)
  then show ?thesis by (simp add: teach_step_def test_wait_each_def teach_eval)
next
  case (one x y c)
  then show ?thesis by (simp add: teach_step_def teach_eval)
next
  case (two y c)
  then show ?thesis by (simp add: teach_step_def teach_eval)
qed (use assms in simp)

lemma each_over_stays:
  "run teach_step as s = Some s' \<Longrightarrow> each_inv b s \<Longrightarrow> each_at s = WOver \<or> list_ex is_cancel as \<Longrightarrow> each_at s' = WOver"
proof (induction as arbitrary: s b)
  case (Cons a as)
  then obtain s1 where s1: "teach_step a s = Some s1" "run teach_step as s1 = Some s'" by (auto split: option.splits)
  note st = each_inv_step [OF Cons.prems(2) s1(1)]
  have "each_at s1 = WOver \<or> list_ex is_cancel as"
  proof (cases "each_at s = WOver")
    case True
    have "loop_i s = 3" using Cons.prems(2)
    proof (cases rule: each_inv_cases)
    qed (use True in \<open>simp_all add: test_wait_each_def\<close>)
    then have "loop_i s1 \<ge> 3" using st by auto
    then show ?thesis using each_inv_progress [of _ s1] st by (meson not_less)
  qed (use Cons.prems(3) st in auto)
  with Cons.IH [OF s1(2) conjunct1 [OF st]] show ?case by simp
qed simp

lemma each_run_cancel:
  "run teach_step as s = Some s' \<Longrightarrow> each_inv b s \<Longrightarrow> each_at s' \<noteq> WOver \<Longrightarrow> \<not> list_ex is_cancel as"
  using each_over_stays by blast



end
