(* ===== verification/Fibonacci.thy ===== *)
theory Fibonacci
  imports Prelude
begin

text \<open>
  The coroutine \<open>fib\<close> of \<open>src/main.cpp\<close>, defined for negative arguments too, with the checks of
  32-bit signed arithmetic. Each \<open>co_await\<close> of a call that has ended gives its result at once.
\<close>

definition int_add :: "int \<Rightarrow> int \<Rightarrow> fault + int" where
  "int_add a b = (if int32_ok (a + b) then Inr (a + b) else Inl SignedOverflow)"

definition int_sub :: "int \<Rightarrow> int \<Rightarrow> fault + int" where
  "int_sub a b = (if int32_ok (a - b) then Inr (a - b) else Inl SignedOverflow)"

function fib :: "int \<Rightarrow> fault + int" where
  "fib x = (if x < 0 then bindE (fib (x + 2)) (\<lambda>a. bindE (fib (x + 1)) (\<lambda>b. int_sub a b))
            else if x < 2 then Inr x
            else bindE (fib (x - 1)) (\<lambda>a. bindE (fib (x - 2)) (\<lambda>b. int_add a b)))"
  by pat_completeness auto

termination
  by (relation "measure (\<lambda>x. if x < 0 then nat (- x) + 2 else nat x)") auto

declare fib.simps [simp del]

section \<open>Reference\<close>

fun nfib :: "nat \<Rightarrow> nat" where
  "nfib 0 = 0"
| "nfib (Suc 0) = 1"
| "nfib (Suc (Suc n)) = nfib (Suc n) + nfib n"

text \<open>The Fibonacci numbers, extended to the negative integers.\<close>

definition zfib :: "int \<Rightarrow> int" where
  "zfib x = (if 0 \<le> x then int (nfib (nat x)) else (-1) ^ Suc (nat (- x)) * int (nfib (nat (- x))))"

lemma nfib_rec: "2 \<le> n \<Longrightarrow> nfib n = nfib (n - 1) + nfib (n - 2)"
  by (cases n rule: nfib.cases) auto

lemma nfib_mono_Suc: "nfib n \<le> nfib (Suc n)"
  by (cases n) auto

lemma nfib_mono: "m \<le> n \<Longrightarrow> nfib m \<le> nfib n"
  by (rule lift_Suc_mono_le [of nfib, OF nfib_mono_Suc])

fun fib_pair :: "nat \<Rightarrow> int \<times> int" where
  "fib_pair 0 = (0, 1)"
| "fib_pair (Suc n) = (case fib_pair n of (a, b) \<Rightarrow> (b, a + b))"

lemma fib_pair: "fib_pair n = (int (nfib n), int (nfib (Suc n)))"
  by (induction n) auto

lemma nfib_46: "int (nfib 46) = 1836311903" and nfib_47: "int (nfib 47) = 2971215073"
proof -
  have "fib_pair 46 = (1836311903, 2971215073)" by (simp add: eval_nat_numeral)
  then have "int (nfib 46) = 1836311903 \<and> int (nfib (Suc 46)) = 2971215073" by (simp only: fib_pair prod.inject)
  then show "int (nfib 46) = 1836311903" "int (nfib 47) = 2971215073" by simp_all
qed

lemma zfib_minus: "zfib (- int n) = (-1) ^ Suc n * int (nfib n)"
proof (cases n)
  case (Suc m)
  then have "\<not> 0 \<le> - int n" "nat (- (- int n)) = n" by simp_all
  then show ?thesis unfolding zfib_def by presburger
qed (simp add: zfib_def)

lemma zfib_pos: "2 \<le> x \<Longrightarrow> zfib x = zfib (x - 1) + zfib (x - 2)"
proof -
  assume "2 \<le> x"
  then have "nat (x - 1) = nat x - 1" "nat (x - 2) = nat x - 2" "2 \<le> nat x" by auto
  with nfib_rec [of "nat x"] \<open>2 \<le> x\<close> show ?thesis by (simp add: zfib_def)
qed

lemma zfib_neg: "x < 0 \<Longrightarrow> zfib x = zfib (x + 2) - zfib (x + 1)"
proof -
  assume x: "x < 0"
  obtain n where n: "x = - int (Suc n)" using x by (metis negD)
  show ?thesis
  proof (cases n)
    case 0
    with n show ?thesis by (simp add: zfib_def)
  next
    case (Suc m)
    have "x + 1 = - int (Suc m)" "x + 2 = - int m" "x = - int (Suc (Suc m))" using n Suc by simp_all
    then show ?thesis by (simp only: zfib_minus) (simp add: algebra_simps)
  qed
qed

lemma zfib_bound: "\<bar>zfib x\<bar> = int (nfib (nat \<bar>x\<bar>))"
  by (simp add: zfib_def abs_mult)

lemma zfib_ok: "\<bar>x\<bar> \<le> 46 \<Longrightarrow> int32_ok (zfib x)"
proof -
  assume "\<bar>x\<bar> \<le> 46"
  then have "nfib (nat \<bar>x\<bar>) \<le> nfib 46" by (intro nfib_mono) simp
  then have "\<bar>zfib x\<bar> \<le> int (nfib 46)" by (simp add: zfib_bound)
  then have "\<bar>zfib x\<bar> \<le> 1836311903" by (simp only: nfib_46)
  then show ?thesis by (auto simp: int32_ok_def abs_le_iff)
qed

lemma zfib_47: "\<not> int32_ok (zfib 47)" "\<not> int32_ok (zfib (- 47))"
  using nfib_47 by (simp_all add: zfib_def int32_ok_def)

section \<open>The coroutine\<close>

lemma fib_small: "\<bar>x\<bar> \<le> 46 \<Longrightarrow> fib x = Inr (zfib x)"
proof (induction x rule: fib.induct)
  case (1 x)
  consider "x < 0" | "0 \<le> x" "x < 2" | "2 \<le> x" by linarith
  then show ?case
  proof cases
    case 1
    with "1.IH"(1,2) "1.prems" zfib_ok [OF "1.prems"] zfib_neg [OF 1] show ?thesis
      by (subst fib.simps) (simp add: int_sub_def)
  next
    case 2
    then have "x = 0 \<or> x = 1" by auto
    then show ?thesis by (subst fib.simps) (auto simp: zfib_def)
  next
    case 3
    with "1.IH"(3,4) "1.prems" zfib_ok [OF "1.prems"] zfib_pos [OF 3] show ?thesis
      by (subst fib.simps) (simp add: int_add_def)
  qed
qed

lemma fib_large: "46 < \<bar>x\<bar> \<Longrightarrow> fib x = Inl SignedOverflow"
proof (induction x rule: fib.induct)
  case (1 x)
  have pos: "fib 46 = Inr (zfib 46)" "fib 45 = Inr (zfib 45)" "fib (- 46) = Inr (zfib (- 46))"
    "fib (- 45) = Inr (zfib (- 45))" by (simp_all add: fib_small)
  have sums: "\<not> int32_ok (zfib 46 + zfib 45)" "\<not> int32_ok (zfib (- 45) - zfib (- 46))"
    using zfib_47 zfib_pos [of 47] zfib_neg [of "- 47"] by simp_all
  consider "x = - 47" | "x = - 48" | "x < - 48" | "x = 47" | "x > 47" using "1.prems" by linarith
  then show ?case
  proof cases
    case 1
    then show ?thesis by (subst fib.simps) (simp add: int_sub_def pos sums)
  next
    case 2
    with "1.IH"(2) show ?thesis by (subst fib.simps) (simp add: pos)
  next
    case 3
    with "1.IH"(1) show ?thesis by (subst fib.simps) simp
  next
    case 4
    then show ?thesis by (subst fib.simps) (simp add: int_add_def pos sums)
  next
    case 5
    with "1.IH"(3) show ?thesis by (subst fib.simps) simp
  qed
qed

text \<open>
  \<open>fib\<close> ends for every argument, and computes the Fibonacci number, extended to negative
  arguments by the same recurrence, exactly for the arguments up to 46 in magnitude; beyond
  that a signed addition or subtraction overflows.
\<close>

theorem fib_correct:
  "fib x = (if \<bar>x\<bar> \<le> 46 then Inr (zfib x) else Inl SignedOverflow) \<and>
   zfib 0 = 0 \<and> zfib 1 = 1 \<and> zfib (y + 2) = zfib (y + 1) + zfib y"
proof -
  have "zfib (y + 2) = zfib (y + 1) + zfib y"
  proof (cases "y < 0")
    case True
    with zfib_neg show ?thesis by simp
  next
    case False
    with zfib_pos [of "y + 2"] show ?thesis by (simp add: add.commute)
  qed
  then show ?thesis using fib_small fib_large by (simp add: zfib_def)
qed

end
