(* ===== verification/Demo_Main.thy ===== *)
theory Demo_Main
  imports Promise Fibonacci
begin

text \<open>
  The other coroutines of \<open>src/main.cpp\<close>: \<open>test_rw\<close> over the completions of its reads,
  \<open>test_waitall\<close> over the order in which its three awaitables end, \<open>test_timeout\<close>, and the last part of
  \<open>main\<close>, two coroutines with three callbacks each.
\<close>

section \<open>Output and exceptions\<close>

datatype demo_line = Text string | Number int | ErrText string | Byte char

text \<open>The two exception objects of the program and their \<open>what()\<close>.\<close>

definition timeout_error :: exn where "timeout_error = 0"

definition test_error :: exn where "test_error = 1"

definition what :: "exn \<Rightarrow> string" where
  "what e = (if e = timeout_error then ''timeout'' else if e = test_error then ''test'' else ''?'')"

section \<open>Echo with a timeout\<close>

text \<open>
  Each round waits for one byte from the terminal or for three seconds. \<open>ReadDone n b\<close> is a
  completion with result \<open>n\<close>; the byte \<open>b\<close> is in the buffer when \<open>n\<close> is positive. The list is what the
  rounds get; when it ends, the coroutine still waits. The results of the writes, and of the \<open>nop\<close> by which
  a timeout wakes the service, are not looked at. \<open>read_pending\<close> tells that a read into \<open>ch\<close>, a
  variable of the frame, has not completed.
\<close>

datatype rw_wake = ReadDone int char | SleptFirst

datatype rw_end = RwReturned | RwExit int | RwWaits

record rw_result =
  written :: "demo_line list"
  rw_end :: rw_end
  read_pending :: bool

definition write_first :: "demo_line \<Rightarrow> rw_result \<Rightarrow> rw_result" where
  "write_first l r = r\<lparr>written := l # written r\<rparr>"

fun test_rw_loop :: "char \<Rightarrow> rw_wake list \<Rightarrow> rw_result" where
  "test_rw_loop ch wakes =
     (if ch = CHR ''q'' then \<lparr>written = [], rw_end = RwReturned, read_pending = False\<rparr>
      else (case wakes of
          [] \<Rightarrow> \<lparr>written = [], rw_end = RwWaits, read_pending = True\<rparr>
        | SleptFirst # ws \<Rightarrow> \<lparr>written = [Text ''read timeout''], rw_end = RwReturned, read_pending = True\<rparr>
        | ReadDone n b # ws \<Rightarrow>
            if n < 0 then \<lparr>written = [], rw_end = RwExit n, read_pending = False\<rparr>
            else let ch' = (if 0 < n then b else ch) in write_first (Byte ch') (test_rw_loop ch' ws)))"

declare test_rw_loop.simps [simp del]

definition test_rw :: "rw_wake list \<Rightarrow> rw_result" where
  "test_rw = test_rw_loop (CHR 0x00)"

definition wrote :: "demo_line list \<Rightarrow> rw_result \<Rightarrow> rw_result" where
  "wrote ls r = r\<lparr>written := ls @ written r\<rparr>"

lemma test_rw_reads:
  "CHR ''q'' \<notin> set (c # cs) \<Longrightarrow>
   test_rw_loop c (map (ReadDone 1) cs @ ws) = wrote (map Byte cs) (test_rw_loop (last (c # cs)) ws)"
proof (induction cs arbitrary: c)
  case (Cons d cs)
  then have c: "c \<noteq> CHR ''q''" "CHR ''q'' \<notin> set (d # cs)" by auto
  then have "test_rw_loop c (map (ReadDone 1) (d # cs) @ ws) = write_first (Byte d) (test_rw_loop d (map (ReadDone 1) cs @ ws))"
    by (simp add: test_rw_loop.simps [of c])
  with Cons.IH [OF c(2)] show ?case by (simp add: wrote_def write_first_def)
qed (simp add: wrote_def)

lemma test_rw_eof:
  "c \<noteq> CHR ''q'' \<Longrightarrow> test_rw_loop c (replicate k (ReadDone 0 b)) =
     \<lparr>written = replicate k (Byte c), rw_end = RwWaits, read_pending = True\<rparr>"
  by (induction k) (simp_all add: test_rw_loop.simps [of c] write_first_def)

text \<open>
  C33. \<open>test_rw\<close> echoes. As long as bytes other than q arrive in time, each is written once, in order; then
  q is written too and ends the program with no read pending, an error exits with its negative
  code, and three quiet seconds end it with a message, but with the last read still pending on a
  variable of the frame that is about to be destroyed. At the end of the input, where reads
  give 0, it writes its last byte again for every read and does not end.
\<close>

theorem test_rw_echoes:
  assumes "CHR ''q'' \<notin> set cs"
  shows "test_rw (map (ReadDone 1) cs @ ReadDone 1 (CHR ''q'') # ws) =
      \<lparr>written = map Byte (cs @ ''q''), rw_end = RwReturned, read_pending = False\<rparr> \<and>
    (n < 0 \<longrightarrow> test_rw (map (ReadDone 1) cs @ ReadDone n b # ws) =
      \<lparr>written = map Byte cs, rw_end = RwExit n, read_pending = False\<rparr>) \<and>
    test_rw (map (ReadDone 1) cs @ SleptFirst # ws) =
      \<lparr>written = map Byte cs @ [Text ''read timeout''], rw_end = RwReturned, read_pending = True\<rparr> \<and>
    test_rw (map (ReadDone 1) cs @ replicate k (ReadDone 0 b)) =
      \<lparr>written = map Byte cs @ replicate k (Byte (last (CHR 0x00 # cs))), rw_end = RwWaits, read_pending = True\<rparr>"
proof -
  have c: "CHR ''q'' \<notin> set (CHR 0x00 # cs)" using assms by simp
  then have l: "last (CHR 0x00 # cs) \<noteq> CHR ''q''" by (metis last_in_set list.distinct(1))
  show ?thesis unfolding test_rw_def test_rw_reads [OF c] test_rw_eof [OF l]
    using l by (simp add: test_rw_loop.simps wrote_def write_first_def)
qed

theorem test_rw_echoes_witness:
  "test_rw [ReadDone 1 (CHR ''a''), ReadDone 1 (CHR ''b''), ReadDone 0 (CHR ''z''), ReadDone 0 (CHR ''z'')] =
     \<lparr>written = map Byte ''abbb'', rw_end = RwWaits, read_pending = True\<rparr>"
  using test_rw_echoes [of "''ab''" "[]" 0 "CHR ''z''" 2] by (simp add: numeral_2_eq_2)

section \<open>Waiting for all\<close>

text \<open>
  The values are integers and references; \<open>static_x\<close> is the static variable of \<open>test_ref\<close>. A child that
  is a coroutine hands over what its promise gives.
\<close>

datatype demo_val = AnInt int | AnAddr nat

definition static_x :: nat where "static_x = 0"

definition statics :: "nat \<Rightarrow> int option" where
  "statics = [static_x \<mapsto> 100]"

definition promise_result :: "kind \<Rightarrow> demo_val outcome \<Rightarrow> demo_val got" where
  "promise_result k oc = (case finish oc (new_promise k True) of Inl e \<Rightarrow> GFault e | Inr p \<Rightarrow> fst (promise_get p))"

definition test_ref :: "demo_val got" where
  "test_ref = promise_result ByLRef (OValue (AnAddr static_x))"

definition fib_coroutine :: "int \<Rightarrow> demo_val got" where
  "fib_coroutine n = (case fib n of Inl e \<Rightarrow> GFault e | Inr x \<Rightarrow> promise_result ByValue (OValue (AnInt x)))"

definition await_got :: "demo_val got \<Rightarrow> demo_val outcome option" where
  "await_got g = (case g of GValue v \<Rightarrow> Some (OValue v) | GThrow e \<Rightarrow> Some (OThrow e) | _ \<Rightarrow> None)"

text \<open>The types of \<open>sleep_for\<close>, \<open>test_ref\<close> and \<open>fib\<close>, all \<open>noexcept\<close>; the type \<open>int\<close> is \<open>Obj 0\<close>.\<close>

definition waitall_awaitables :: "awaitable list" where
  "waitall_awaitables = [\<lparr>result_type = Void, noexc = True\<rparr>, \<lparr>result_type = LRef (Obj 0), noexc = True\<rparr>,
     \<lparr>result_type = Obj 0, noexc = True\<rparr>]"

definition waitall_child :: "nat \<Rightarrow> demo_val outcome option" where
  "waitall_child i = (if i = 0 then Some (OValue (AnInt 0)) else if i = 1 then await_got test_ref else await_got (fib_coroutine 8))"

text \<open>
  \<open>order\<close> is the order in which the three end; a child that fails, or a result that cannot be
  read, ends the program.
\<close>

fun child_outcomes :: "nat list \<Rightarrow> (nat \<times> demo_val outcome) list option" where
  "child_outcomes [] = Some []"
| "child_outcomes (i # is) = (case (waitall_child i, child_outcomes is) of
     (Some oc, Some ocs) \<Rightarrow> Some ((i, oc) # ocs) | _ \<Rightarrow> None)"

definition test_waitall :: "nat list \<Rightarrow> fault + demo_line list" where
  "test_waitall order = (case child_outcomes order of None \<Rightarrow> Inl Terminate
   | Some ocs \<Rightarrow> (case all_store_seq waitall_awaitables ocs (all_new waitall_awaitables) of None \<Rightarrow> Inl Terminate
     | Some rs \<Rightarrow> (case view_get 0 waitall_awaitables 1 rs of
         Direct (AnAddr p) \<Rightarrow> (case statics p of None \<Rightarrow> Inl UseAfterFree
           | Some x \<Rightarrow> Inr [Text ''wait all'', Number x])
       | _ \<Rightarrow> Inl Terminate)))"

lemma waitall_children: "waitall_child (Suc 0) = Some (OValue (AnAddr static_x))" "waitall_child 2 = Some (OValue (AnInt 21))"
proof -
  have "fib 8 = Inr 21" using fib_small [of 8] by (simp add: zfib_def eval_nat_numeral)
  then show "waitall_child (Suc 0) = Some (OValue (AnAddr static_x))" "waitall_child 2 = Some (OValue (AnInt 21))"
    by (simp_all add: waitall_child_def test_ref_def fib_coroutine_def promise_result_def finish_def new_promise_def
        return_value_def promise_get_def get_optional_def await_got_def)
qed
text \<open>
  In whatever order the sleep, the reference and the number arrive, \<open>test_waitall\<close> prints its two
  lines: the view hands out the reference that \<open>test_ref\<close> returned, and the variable behind it
  still has its value.
\<close>

theorem test_waitall_prints:
  assumes "distinct order" and "set order = {0, 1, 2}"
  shows "test_waitall order = Inr [Text ''wait all'', Number 100]"
proof -
  let ?as = waitall_awaitables
  have co: "child_outcomes is = Some (map (\<lambda>i. (i, the (waitall_child i))) is)" if "set is \<subseteq> {0, 1, 2}" for "is"
    using that by (induction "is") (auto simp: waitall_children waitall_child_def [of 0])
  define ocs where "ocs = map (\<lambda>i. (i, the (waitall_child i))) order"
  have d: "distinct (map fst ocs)" using assms(1) by (simp add: ocs_def o_def)
  have ct: "\<forall>a \<in> set ?as. client_type a" by (simp add: waitall_awaitables_def client_type_def stored_type_def)
  have mem: "\<forall>(n, oc) \<in> set ocs. n < length ?as \<and> outcome_ok (?as ! n) oc"
    using assms(2) by (auto simp: ocs_def waitall_awaitables_def waitall_children waitall_child_def [of 0] outcome_ok_def)
  have "length (all_new ?as :: demo_val variant list) = length ?as" by (simp add: all_new_def)
  moreover have "\<forall>n \<in> fst ` set ocs. all_new ?as ! n = \<lparr>active = Monostate, content = CMono :: demo_val content\<rparr>"
    using mem by (auto simp: all_new_def)
  ultimately obtain rs where rs: "all_store_seq ?as ocs (all_new ?as) = Some rs"
    "\<forall>(n, oc) \<in> set ocs. get_body (slot_alts (?as ! n)) (?as ! n) (rs ! n) = outcome_access (?as ! n) oc"
    using all_store_seq_ok [OF ct d mem] by blast
  have "(1, OValue (AnAddr static_x)) \<in> set ocs" using assms(2) waitall_children by (force simp: ocs_def)
  then have "all_get ?as 1 rs = Value (AnAddr static_x)"
    using rs(2) by (force simp: all_get_def typelist_get_def typelist_size_def waitall_awaitables_def outcome_access_def stored_type_def)
  then have "view_get 0 ?as 1 rs = Direct (AnAddr static_x)"
    by (simp add: view_get_def typelist_get_def typelist_size_def waitall_awaitables_def)
  with rs(1) co [of order] assms(2) show ?thesis by (simp add: test_waitall_def statics_def flip: ocs_def)
qed

theorem test_waitall_prints_witness:
  "test_waitall [2, 0, 1] = Inr [Text ''wait all'', Number 100]"
  using test_waitall_prints [of "[2, 0, 1]"] by auto

section \<open>A wait that times out, and the end of \<open>main\<close>\<close>

text \<open>
  \<open>test_success\<close> and \<open>test_fail\<close> after their sleeps; \<open>in_time\<close> is the result of \<open>with_timeout_for\<close>, and what
  \<open>test_fail\<close> prints itself is the other component.
\<close>

definition test_success :: "int outcome" where
  "test_success = OValue 42"

definition test_fail :: "bool \<Rightarrow> demo_line list \<times> int outcome" where
  "test_fail in_time = (if in_time then ([Number 42], OValue 0) else ([], OThrow timeout_error))"

definition test_return_exception_ptr :: "exn outcome" where
  "test_return_exception_ptr = OValue test_error"

text \<open>
  \<open>test_timeout\<close>: the argument is the promise when \<open>wait_for\<close> found it ended. The second component tells
  whether the future was detached and left to \<open>forget\<close>.
\<close>

definition test_timeout :: "int promise option \<Rightarrow> (fault + demo_line list) \<times> bool" where
  "test_timeout ended = (case ended of
     None \<Rightarrow> (Inr [Text ''time out''], True)
   | Some p \<Rightarrow> (case fst (promise_get p) of
       GValue x \<Rightarrow> (Inr [Number x], False)
     | GThrow e \<Rightarrow> (Inr [ErrText (''error: '' @ what e)], False)
     | GFault f \<Rightarrow> (Inl f, False)
     | _ \<Rightarrow> (Inl Unreachable, False)))"

text \<open>
  The callbacks that \<open>main\<close> passes: what each call prints, and the releases of its semaphore. A
  callback is given by the line for a result; the exception callback prints the message.
\<close>

definition callback_lines :: "(int option \<Rightarrow> demo_line) \<Rightarrow> int event \<Rightarrow> demo_line list" where
  "callback_lines f ev = (case ev of
     CallValue v \<Rightarrow> [f (Some v)]
   | CallVoid \<Rightarrow> [f None]
   | CallException e \<Rightarrow> [ErrText (''error: '' @ what e)]
   | CallFinally \<Rightarrow> [])"

definition print_number :: "int option \<Rightarrow> demo_line" where
  "print_number v = (case v of Some x \<Rightarrow> Number x | None \<Rightarrow> Text [])"

definition print_marks :: "int option \<Rightarrow> demo_line" where
  "print_marks v = Text ''???''"

record callback_run =
  printed :: "demo_line list"
  releases :: nat
  alive :: bool

definition run_callbacks :: "(int option \<Rightarrow> demo_line) \<Rightarrow> bool \<Rightarrow> demo_line list \<times> int outcome \<Rightarrow> callback_run" where
  "run_callbacks f is_void r = (case with_callback_finally is_void (snd r) (\<lambda>_. None) (\<lambda>_. None) None of
     (evs, en) \<Rightarrow> \<lparr>printed = fst r @ concat (map (callback_lines f) evs), releases = length (filter (\<lambda>e. e = CallFinally) evs),
       alive = (en = FrameDestroyed)\<rparr>)"

text \<open>
  \<open>main\<close> starts both and acquires twice. \<open>ended\<close> tells which of the two coroutines have ended, in
  that order: it returns when the permits suffice.
\<close>

definition main_run :: "bool \<Rightarrow> bool \<Rightarrow> callback_run" where
  "main_run in_time second = (if second then run_callbacks print_marks True (test_fail in_time)
     else run_callbacks print_number False ([], test_success))"

definition main_waits :: "bool \<Rightarrow> bool list \<Rightarrow> demo_line list \<times> bool" where
  "main_waits in_time ended =
     (concat (map (printed \<circ> main_run in_time) ended), 2 \<le> sum_list (map (releases \<circ> main_run in_time) ended))"

text \<open>
  The last part of \<open>main\<close> returns exactly when both coroutines have ended, and in whatever
  order they do, no callback lets an exception out and all lines are printed: the number of the one
  that succeeds, and of the other the message of its timeout (or, had it been in time, its own
  line and that of its result callback). A wait that times out prints so and forgets the
  future; one that finds the coroutine ended prints its number or its error.
\<close>

theorem main_ends:
  assumes "distinct ended"
  shows "(snd (main_waits in_time ended) \<longleftrightarrow> set ended = {False, True}) \<and>
    (\<forall>b. alive (main_run in_time b)) \<and>
    mset (fst (main_waits in_time ended)) =
      (if False \<in> set ended then {#Number 42#} else {#}) +
      (if True \<in> set ended then (if in_time then {#Number 42, Text ''???''#} else {#ErrText ''error: timeout''#}) else {#}) \<and>
    test_timeout None = (Inr [Text ''time out''], True) \<and>
    (case make_waitable ByValue False oc of Inl e \<Rightarrow> False | Inr p \<Rightarrow>
       test_timeout (Some p) = (Inr [case oc of OValue x \<Rightarrow> Number x | OThrow e \<Rightarrow> ErrText (''error: '' @ what e)], False))"
proof -
  have f: "main_run in_time False = \<lparr>printed = [Number 42], releases = 1, alive = True\<rparr>"
    and t: "main_run in_time True = \<lparr>printed = (if in_time then [Number 42, Text ''???''] else [ErrText ''error: timeout'']),
      releases = 1, alive = True\<rparr>"
    by (simp_all add: main_run_def run_callbacks_def with_callback_finally_def await_and_call_def catch_all_def
        trivial_end_def callback_lines_def print_number_def print_marks_def test_success_def test_fail_def what_def Let_def)
  have al: "\<forall>b. alive (main_run in_time b)" using f t by (simp add: all_bool_eq)
  have tt: "case make_waitable ByValue False oc of Inl e \<Rightarrow> False | Inr p \<Rightarrow>
       test_timeout (Some p) = (Inr [case oc of OValue x \<Rightarrow> Number x | OThrow e \<Rightarrow> ErrText (''error: '' @ what e)], False)"
    by (cases oc) (simp_all add: make_waitable_def finish_def new_promise_def unhandled_exception_def return_value_def
        test_timeout_def promise_get_def get_optional_def)
  have "ended \<in> {[], [False], [True], [False, True], [True, False]}"
  proof -
    have "card (set ended) \<le> card (UNIV :: bool set)" by (rule card_mono) simp_all
    then have "length ended \<le> 2" using distinct_card [OF assms] by (simp add: card_UNIV_bool)
    then show ?thesis using assms
      by (cases ended; cases "tl ended"; cases "tl (tl ended)") auto
  qed
  then have "(snd (main_waits in_time ended) \<longleftrightarrow> set ended = {False, True}) \<and>
    mset (fst (main_waits in_time ended)) =
      (if False \<in> set ended then {#Number 42#} else {#}) +
      (if True \<in> set ended then (if in_time then {#Number 42, Text ''???''#} else {#ErrText ''error: timeout''#}) else {#})"
    by (elim insertE emptyE)
      (simp_all only: main_waits_def o_def f t callback_run.simps list.map concat.simps sum_list.Cons sum_list.Nil list.set
         append.simps append_Nil2 mset.simps fst_conv snd_conv split: if_split, simp_all, blast)
  moreover have "test_timeout None = (Inr [Text ''time out''], True)" by (simp add: test_timeout_def)
  ultimately show ?thesis using al tt by blast
qed

theorem main_ends_witness:
  "main_waits False [True, False] = ([ErrText ''error: timeout'', Number 42], True)"
proof -
  have "snd (main_waits False [True, False])" using main_ends [of "[True, False]" False "OValue 0"] by auto
  then show ?thesis
    by (simp add: main_waits_def main_run_def run_callbacks_def with_callback_finally_def await_and_call_def catch_all_def
        trivial_end_def callback_lines_def print_number_def print_marks_def test_success_def test_fail_def what_def Let_def)
qed

end
