(* ===== verification/Spec2Isabelle.thy ===== *)
theory Spec2Isabelle
  imports Queue_Concurrent Semaphore_Queue Ref_Ptr Wait_Combinators Cancel Wait_Each_Queue
    Waitable_Future Condvar Wait_Native Cancelable Sched Sleep Timeout_Future Timer_Stop Io_Service Time_Wheel
    Queue_Test Demo_Sem Demo_Cancel Demo_Main
begin

text \<open>
  A verification library for scoro, a C++23 coroutine library.

  The program. Coroutines are given by promise and future types (\<open>include/coro.hpp\<close>). They wait for
  each other and combine with \<open>wait_all\<close>, \<open>wait_any\<close> and \<open>wait_each\<close> (\<open>include/awaitable.hpp\<close>), for a
  semaphore (\<open>include/sync.hpp\<close>), for time (\<open>include/timer.hpp\<close>), for I/O (\<open>include/io\<close>), or move to
  a worker thread (\<open>include/looper.hpp\<close>, \<open>include/scheduler.hpp\<close>). Underneath are a lock-free queue
  (\<open>include/container/queue.hpp\<close>), an atomic cell to wait on (\<open>include/waitable_atomic.hpp\<close>),
  reference-counting pointers (\<open>include/ptr\<close>) and type lists (\<open>include/detail/meta.hpp\<close>).

  How code is modelled. Sequential code is functions with explicit state; what C++ leaves undefined
  or what ends the process is a value of the type \<open>fault\<close>. Concurrent code is a step function on a
  state record, one access to shared memory of one thread per action, \<open>None\<close> where the action is not
  enabled (\<open>Prelude\<close>: \<open>run\<close>, \<open>reachable\<close>). The locales \<open>machine_inv\<close> and \<open>machine_inv_on\<close> state what
  an invariant must satisfy and are interpreted for each machine; the second restricts the
  actions to a discipline of the clients, which the properties that need it state. Logs in the state
  (what was queued, started, resumed) are what the properties speak about. Memory is sequentially
  consistent, except in \<open>Handoff\<close>, whose argument \<open>sc\<close> can let the store of the handle wait in a
  store buffer. Allocation failure, spurious failure of weak exchanges and spurious wake-ups are
  actions or arguments. Objects are addresses; a freed object is absent from the heap.

  The theories.
  \<^item> \<open>Prelude\<close>: types, faults, transition systems, the compare-and-swap retry loop, sums over threads.
  \<^item> \<open>Atomic_Queue\<close>, \<open>Queue_Concurrent\<close>: \<open>AtomicQueue\<close>, its operations alone against an abstract list,
    and any number of producers with lock-holding consumers: memory safety, FIFO order, nothing
    leaked by the destructor; a live-lock of \<open>wait_dequeue\<close>. \<open>Queue_Steps\<close>: what one access does, as
    the machines that contain the queue use it.
  \<^item> \<open>Semaphore\<close>: \<open>CountingSemaphore\<close> and \<open>Mutex\<close>; the retry loops on the packed counter are atomic
    updates, the machine over them keeps count, waiters and queue in accord; a call of the queue
    is one step there. \<open>Semaphore_Queue\<close>: the machine over the queue access by access, whose every
    run is one of \<open>Semaphore\<close>: accounting, exclusion, no lost wake-up, the destructor, and \<open>release\<close>,
    which returns when it is alone and can spin for ever when it is not.
  \<^item> \<open>Ref_Ptr\<close>: \<open>intrusive_ptr\<close>, \<open>rc_ptr\<close> and both counters as programs over a heap; the locale
    \<open>refcount\<close> is the law of the counters, interpreted for both.
  \<^item> \<open>Meta\<close>, \<open>Await_Results\<close>: the metafunctions on type lists and the variants that hold results; what
    a runner stores is what the awaiter reads, whatever the types.
  \<^item> \<open>Handoff\<close>, \<open>Wait_Combinators\<close>: the exchange of the coroutine handle between \<open>await_suspend\<close> and
    runners, as a machine with a component (the locales \<open>handoff\<close> and \<open>handoff_stable\<close>), and its
    interpretations \<open>wait_all\<close> and \<open>wait_any\<close>. \<open>Wait_Each\<close>: \<open>wait_each\<close> with each call of
    its queue as one step. \<open>Wait_Each_Queue\<close>: the same over the accesses of the queue, where an
    insertion in flight makes the queue look empty.
  \<^item> \<open>Promise\<close>, \<open>Future_Await\<close>, \<open>Cancel\<close>: promises and what \<open>get\<close> returns, the single owner of a frame, the
    callback coroutines; final awaiters against awaiting coroutines and waiting threads;
    cancellation between threads. \<open>Cancelable\<close>: the cancelable promises and futures, a promise with
    its cancellation cell from the first wait to the destruction of the frame.
  \<^item> \<open>Waitable_Atomic\<close>, \<open>Futex\<close>: the waiting loops, deadlines and sizes; waiters against writers that
    notify. \<open>Condvar\<close>: the version with a mutex and a condition variable, by simulation an
    implementation of the machine of \<open>Futex\<close>, whose invariant it inherits. \<open>Wait_Native\<close>: what the Linux
    and Windows versions hand to the system, bit by bit, and how they read the answers.
    \<open>Waitable_Future\<close>: \<open>WaitableFuture\<close>, the machine of \<open>Future_Await\<close> composed with that of \<open>Futex\<close>;
    threads in \<open>wait\<close> against the end of the coroutine, and the timed waits.
  \<^item> \<open>Worker\<close>, \<open>Looper\<close>, \<open>Timer\<close>: the loop of a worker thread with a mutex, a condition variable and
    a stop flag, with a policy as its argument. The locale \<open>task_policy\<close> states what the loop needs
    of the policy; it is interpreted for the FIFO queue of the looper and for the priority queue
    of the timer. Each task is run once; the worker never sleeps past a task; \<open>stop\<close> ends it
    exactly when it is not inside a task. \<open>Timer_Stop\<close>: \<open>stop\<close> call by call refines its single action,
    or deadlocks; the destructor of the runner. \<open>Sched\<close>: coroutines that move to the looper by
    \<open>sched\<close>, over the machine of \<open>Looper\<close>.
  \<^item> \<open>Sleep\<close>, \<open>Timeout\<close>: what \<open>TimerWrapper\<close> offers. A plain sleep is a task of the timer's machine;
    the control box of a cancelable sleep and the shared state of a timeout have machines of their
    own, in which the timer calls the callback not before the time, or the cancel function.
    \<open>Timeout_Future\<close>: \<open>with_timeout_until\<close> and \<open>with_timeout_for\<close>, the await inside a coroutine that
    gives its answer through a \<open>Future\<close>.
  \<^item> \<open>Io_Service\<close>: submission entries, resolvers and the event loop; completion entries are given
    back once, and every completion reaches its operation once.
  \<^item> \<open>Time_Wheel\<close>: the data of \<open>include/timer/wheel.hpp\<close> and its two empty operations.
  \<^item> \<open>Queue_Test\<close>: \<open>test/test_atomic_queue.cpp\<close> over the machine of \<open>Queue_Concurrent\<close>, for any number of
    threads and rounds: what it prints, and when its assertions hold.
  \<^item> \<open>Fibonacci\<close>, \<open>Demo_Sem\<close>, \<open>Demo_Cancel\<close>, \<open>Demo_Main\<close>: the coroutines of \<open>src/main.cpp\<close>. \<open>fib\<close> with 32-bit
    overflow; \<open>test_sem\<close>, and \<open>test_wait_each\<close> with \<open>test_cancel\<close>, as sequences of timer callbacks and
    cancellations in which code takes no time and the timer may be late; \<open>test_rw\<close> over what its reads
    give, \<open>test_waitall\<close> over the order of completion, \<open>test_timeout\<close>, and the last part of \<open>main\<close>.

  Races. Several awaitables are correct only when \<open>await_ready\<close> and \<open>await_suspend\<close> are not
  interleaved with the other side, or when an object is not destroyed at once by the coroutine it
  resumes. The correctness theorems have that discipline as a hypothesis on the actions (\<open>calm\<close>);
  beside each stand runs that violate it and what they lead to.

  Bounds. Nothing is bounded: the numbers of threads, tasks and awaitables are arbitrary; the
  counters of the semaphore, of the results and of the completion ring have their width. A loop
  that waits is given what it observes as a list, and returns \<open>None\<close> when the list does not
  suffice; that it returns is stated as such. Times are integers; the overflow of a clock is not
  modelled.

  Not modelled. \<open>exchange\<close> of \<open>waitable_atomic\<close> has an empty body; the hazard pointer
  (\<open>include/ptr/hazard_ptr.hpp\<close>) is declarations only; \<open>src/io/service.cpp\<close> is empty. Set-up and
  tear-down of the ring and the sequence of the first calls of
  \<open>main\<close> are left out. The kernel, liburing, Windows and the standard library are their documented
  behaviour: a futex wait compares and sleeps in one step, a notification wakes, a condition variable
  unlocks and sleeps in one step, which of several earliest tasks is the top of a priority queue is
  not determined. What a cancel function called by \<open>stop\<close>
  does is a parameter of \<open>Timer_Stop\<close>, which asks of it only whether it comes back to the timer.
\<close>

end
